(* ===== verification/Prelude.thy ===== *)
theory Prelude
  imports Main "HOL-Library.Word" "HOL-Library.Multiset"
begin

unbundle bit_operations_syntax

text \<open>
  Shared vocabulary of the development: the machine integers of the Rust sources as fixed-width
  words, the three ways a Rust call can end (a value, an error value, a panic), the checked
  arithmetic of the standard library, big-endian byte conversion, and the list lemmas that
  several components use.

  Plain \<^verbatim>\<open>+\<close>, \<^verbatim>\<open>-\<close> and \<^verbatim>\<open>*\<close> on machine integers wrap around, as in the release profile of the
  repository; where a component depends on an operation not overflowing, a lemma says so.
\<close>

section \<open>Machine integers\<close>

type_synonym u8 = "8 word"
type_synonym u16 = "16 word"
type_synonym u32 = "32 word"
type_synonym u64 = "64 word"
type_synonym u128 = "128 word"
type_synonym bytes = "u8 list"

definition checked_add :: "'a::len word \<Rightarrow> 'a word \<Rightarrow> 'a word option" where
  "checked_add a b = (if unat a + unat b < 2 ^ LENGTH('a) then Some (a + b) else None)"

definition checked_sub :: "'a::len word \<Rightarrow> 'a word \<Rightarrow> 'a word option" where
  "checked_sub a b = (if b \<le> a then Some (a - b) else None)"

definition checked_mul :: "'a::len word \<Rightarrow> 'a word \<Rightarrow> 'a word option" where
  "checked_mul a b = (if unat a * unat b < 2 ^ LENGTH('a) then Some (a * b) else None)"

definition saturating_sub :: "'a::len word \<Rightarrow> 'a word \<Rightarrow> 'a word" where
  "saturating_sub a b = (if b \<le> a then a - b else 0)"

section \<open>How a call ends\<close>

text \<open>\<open>Ok\<close> and \<open>Err\<close> are the two variants of \<^verbatim>\<open>Result\<close>; \<open>Panic\<close> is a Rust panic (a failed
  \<^verbatim>\<open>assert!\<close>, \<^verbatim>\<open>unwrap\<close> or \<^verbatim>\<open>expect\<close>, an explicit \<^verbatim>\<open>panic!\<close> or an index out of range).\<close>

datatype ('e, 'a) res = Ok 'a | Err 'e | Panic

primrec and_then :: "('e, 'a) res \<Rightarrow> ('a \<Rightarrow> ('e, 'b) res) \<Rightarrow> ('e, 'b) res" where
  "and_then (Ok x) f = f x"
| "and_then (Err e) f = Err e"
| "and_then Panic f = Panic"

definition ok_or :: "'a option \<Rightarrow> 'e \<Rightarrow> ('e, 'a) res" where
  "ok_or x e = (case x of None \<Rightarrow> Err e | Some y \<Rightarrow> Ok y)"

definition expect :: "'a option \<Rightarrow> ('e, 'a) res" where
  "expect x = (case x of None \<Rightarrow> Panic | Some y \<Rightarrow> Ok y)"

definition nth_res :: "'a list \<Rightarrow> nat \<Rightarrow> ('e, 'a) res" where
  "nth_res xs i = (if i < length xs then Ok (xs ! i) else Panic)"

lemma and_then_Ok_iff:
  "and_then r f = Ok y \<longleftrightarrow> (\<exists>x. r = Ok x \<and> f x = Ok y)"
  by (cases r) auto

lemma and_then_assoc: "and_then (and_then r f) g = and_then r (\<lambda>x. and_then (f x) g)"
  by (cases r) auto

lemma and_then_not_Panic:
  "and_then r f \<noteq> Panic \<longleftrightarrow> r \<noteq> Panic \<and> (\<forall>x. r = Ok x \<longrightarrow> f x \<noteq> Panic)"
  by (cases r) auto

lemma ok_or_Ok_iff [simp]: "ok_or x e = Ok y \<longleftrightarrow> x = Some y"
  by (cases x) (auto simp: ok_or_def)

lemma expect_Ok_iff [simp]: "expect x = Ok y \<longleftrightarrow> x = Some y"
  by (cases x) (auto simp: expect_def)

section \<open>Checked arithmetic\<close>

lemma checked_add_Some_iff:
  fixes a b c :: "'a::len word"
  shows "checked_add a b = Some c \<longleftrightarrow> unat c = unat a + unat b"
proof
  assume "checked_add a b = Some c"
  then show "unat c = unat a + unat b"
    by (auto simp: checked_add_def unat_add_lem split: if_splits)
next
  assume eq: "unat c = unat a + unat b"
  then have lt: "unat a + unat b < 2 ^ LENGTH('a)" by (metis unsigned_less)
  with eq have "a + b = c" by (metis unat_add_lem word_unat_eq_iff)
  with lt show "checked_add a b = Some c" by (simp add: checked_add_def)
qed

lemma checked_add_None_iff:
  fixes a b :: "'a::len word"
  shows "checked_add a b = None \<longleftrightarrow> 2 ^ LENGTH('a) \<le> unat a + unat b"
  by (auto simp: checked_add_def)

lemma checked_sub_Some_iff:
  fixes a b c :: "'a::len word"
  shows "checked_sub a b = Some c \<longleftrightarrow> unat a = unat c + unat b"
proof
  assume "checked_sub a b = Some c"
  then have "b \<le> a" "c = a - b" by (auto simp: checked_sub_def split: if_splits)
  then show "unat a = unat c + unat b"
    by (simp add: unat_sub word_le_nat_alt)
next
  assume eq: "unat a = unat c + unat b"
  then have le: "b \<le> a" by (simp add: word_le_nat_alt)
  with eq have "unat (a - b) = unat c" by (simp add: unat_sub)
  then have "a - b = c" by (simp only: word_unat_eq_iff)
  with le show "checked_sub a b = Some c" by (simp add: checked_sub_def)
qed

lemma checked_sub_None_iff: "checked_sub a b = None \<longleftrightarrow> a < b"
  by (auto simp: checked_sub_def not_le)

lemma checked_mul_Some_iff:
  fixes a b c :: "'a::len word"
  shows "checked_mul a b = Some c \<longleftrightarrow> unat c = unat a * unat b"
proof
  assume "checked_mul a b = Some c"
  then show "unat c = unat a * unat b"
    by (auto simp: checked_mul_def unat_mult_lem split: if_splits)
next
  assume eq: "unat c = unat a * unat b"
  then have lt: "unat a * unat b < 2 ^ LENGTH('a)" by (metis unsigned_less)
  with eq have "a * b = c" by (metis unat_mult_lem word_unat_eq_iff)
  with lt show "checked_mul a b = Some c" by (simp add: checked_mul_def)
qed

lemma checked_mul_None_iff:
  fixes a b :: "'a::len word"
  shows "checked_mul a b = None \<longleftrightarrow> 2 ^ LENGTH('a) \<le> unat a * unat b"
  by (auto simp: checked_mul_def)

section \<open>Iterating fallible steps\<close>

primrec map_res :: "('a \<Rightarrow> ('e, 'b) res) \<Rightarrow> 'a list \<Rightarrow> ('e, 'b list) res" where
  "map_res f [] = Ok []"
| "map_res f (x # xs) = and_then (f x) (\<lambda>y. and_then (map_res f xs) (\<lambda>ys. Ok (y # ys)))"

primrec fold_res :: "('a \<Rightarrow> 's \<Rightarrow> ('e, 's) res) \<Rightarrow> 'a list \<Rightarrow> 's \<Rightarrow> ('e, 's) res" where
  "fold_res f [] s = Ok s"
| "fold_res f (x # xs) s = and_then (f x s) (fold_res f xs)"

lemma map_res_Ok: "(\<And>x. x \<in> set xs \<Longrightarrow> f x = Ok (g x)) \<Longrightarrow> map_res f xs = Ok (map g xs)"
  by (induction xs) auto

lemma map_res_Ok_iff:
  "map_res f xs = Ok ys \<longleftrightarrow> length ys = length xs \<and> (\<forall>i<length xs. f (xs ! i) = Ok (ys ! i))"
proof (induction xs arbitrary: ys)
  case (Cons x xs)
  then show ?case by (cases ys) (auto simp: and_then_Ok_iff less_Suc_eq_0_disj)
qed auto

lemma fold_res_append: "fold_res f (xs @ ys) s = and_then (fold_res f xs s) (fold_res f ys)"
proof (induction xs arbitrary: s)
  case (Cons x xs)
  then show ?case by (cases "f x s") auto
qed simp

text \<open>An invariant of every successful step holds of the result of the whole loop.\<close>

lemma fold_res_invariant:
  assumes "fold_res f xs s = Ok s'" and "P s"
    and "\<And>x s s'. x \<in> set xs \<Longrightarrow> P s \<Longrightarrow> f x s = Ok s' \<Longrightarrow> P s'"
  shows "P s'"
  using assms
proof (induction xs arbitrary: s)
  case (Cons x xs)
  from Cons.prems(1) obtain t where t: "f x s = Ok t" "fold_res f xs t = Ok s'"
    by (auto simp: and_then_Ok_iff)
  then show ?case using Cons.IH [of t] Cons.prems by auto
qed auto

text \<open>Building an index from a list: entry \<open>i\<close> is filed under \<open>f (xs ! i)\<close>, and a second entry under
  the same key is a failed assertion.\<close>

definition index_step :: "('a \<Rightarrow> 'k) \<Rightarrow> 'a list \<Rightarrow> nat \<Rightarrow> ('k \<Rightarrow> nat option) \<Rightarrow> ('e, 'k \<Rightarrow> nat option) res" where
  "index_step f xs i idx =
     and_then (nth_res xs i) (\<lambda>x. if idx (f x) \<noteq> None then Panic else Ok (idx(f x \<mapsto> i)))"

definition index_of :: "'k list \<Rightarrow> 'k \<Rightarrow> nat option" where
  "index_of ks = map_of (zip ks [0..<length ks])"

lemma singleton_map_add: "m k = None \<Longrightarrow> [k \<mapsto> v] ++ m = m(k \<mapsto> v)"
  by (auto simp: fun_eq_iff map_add_def split: option.split)

lemma index_of_snoc: "k \<notin> set ks \<Longrightarrow> index_of (ks @ [k]) = (index_of ks)(k \<mapsto> length ks)"
  using singleton_map_add [of "map_of (zip ks [0..<length ks])" k "length ks"]
  by (simp add: index_of_def)

lemma index_of_None: "index_of ks k = None \<longleftrightarrow> k \<notin> set ks"
  by (simp add: index_of_def)

lemma index_of_Some: "distinct ks \<Longrightarrow> index_of ks k = Some i \<longleftrightarrow> i < length ks \<and> ks ! i = k"
  by (auto simp: index_of_def map_of_eq_Some_iff in_set_zip)

lemma index_loop:
  "k \<le> length xs \<Longrightarrow> fold_res (index_step f xs) [0..<k] Map.empty =
     (if distinct (map f (take k xs)) then Ok (index_of (map f (take k xs))) else Panic)"
proof (induction k)
  case 0
  then show ?case by (simp add: index_of_def)
next
  case (Suc k)
  then have k: "map f (take (Suc k) xs) = map f (take k xs) @ [f (xs ! k)]"
    by (simp add: take_Suc_conv_app_nth)
  show ?case
    using Suc unfolding k
    by (auto simp: fold_res_append index_step_def nth_res_def index_of_None index_of_snoc simp del: not_None_eq)
qed

lemma index_loop_all:
  "fold_res (index_step f xs) [0..<length xs] Map.empty =
     (if distinct (map f xs) then Ok (index_of (map f xs)) else Panic)"
  by (subst index_loop) (simp_all only: order_refl take_all)

section \<open>Byte strings\<close>

text \<open>\<open>slice\<close> is \<^verbatim>\<open>&data[i..j]\<close> on a range that is in bounds; \<open>array_from_bytes n\<close> is \<^verbatim>\<open>from_bytes\<close> and
  \<^verbatim>\<open>from_vec\<close> of the byte array newtypes of \<^verbatim>\<open>src/util/macros.rs\<close> with \<^verbatim>\<open>$len = n\<close>, and the
  conversion of a slice to a fixed-size array.\<close>

definition slice :: "nat \<Rightarrow> nat \<Rightarrow> 'a list \<Rightarrow> 'a list" where
  "slice i j xs = take (j - i) (drop i xs)"

definition array_from_bytes :: "nat \<Rightarrow> bytes \<Rightarrow> bytes option" where
  "array_from_bytes n inp = (if length inp = n then Some inp else None)"

text \<open>\<^verbatim>\<open>to_be_bytes\<close> and \<^verbatim>\<open>from_be_bytes\<close> of an unsigned integer of \<open>n\<close> bytes.\<close>

definition to_be_bytes :: "nat \<Rightarrow> 'a::len word \<Rightarrow> bytes" where
  "to_be_bytes n w = map (\<lambda>i. ucast (drop_bit (8 * (n - 1 - i)) w)) [0..<n]"

definition from_be_bytes :: "bytes \<Rightarrow> 'a::len word" where
  "from_be_bytes bs = foldl (\<lambda>acc b. push_bit 8 acc OR ucast b) 0 bs"

lemma length_slice [simp]: "length (slice i j xs) = min (j - i) (length xs - i)"
  by (simp add: slice_def)

lemma array_from_bytes_Some_iff [simp]: "array_from_bytes n inp = Some x \<longleftrightarrow> length inp = n \<and> x = inp"
  by (auto simp: array_from_bytes_def)

lemma length_to_be_bytes [simp]: "length (to_be_bytes n w) = n"
  by (simp add: to_be_bytes_def)

lemma slice_append_left: "j \<le> length xs \<Longrightarrow> slice i j (xs @ ys) = slice i j xs"
  by (simp add: slice_def)

lemma slice_append_right:
  "length xs \<le> i \<Longrightarrow> slice i j (xs @ ys) = slice (i - length xs) (j - length xs) ys"
  by (cases "i \<le> j") (auto simp: slice_def)

lemma slice_all: "length xs \<le> j \<Longrightarrow> slice 0 j xs = xs"
  by (simp add: slice_def)

lemma slice_cat: "i \<le> j \<Longrightarrow> j \<le> k \<Longrightarrow> slice i j xs @ slice j k xs = slice i k xs"
proof -
  assume le: "i \<le> j" "j \<le> k"
  have "slice i k xs = take ((j - i) + (k - j)) (drop i xs)" using le by (simp add: slice_def)
  also have "\<dots> = slice i j xs @ slice j k xs"
    using le by (simp only: take_add drop_drop slice_def) simp
  finally show ?thesis by simp
qed

lemma to_be_bytes_Suc: "to_be_bytes (Suc n) w = to_be_bytes n (drop_bit 8 w) @ [ucast w]"
proof -
  have "drop_bit (8 * (n - i)) w = drop_bit (8 * (n - Suc i)) (drop_bit 8 w)" if "i < n" for i
  proof -
    have "8 * (n - i) = 8 * (n - Suc i) + 8" using that by simp
    then show ?thesis by (simp only: drop_bit_drop_bit)
  qed
  then show ?thesis by (auto simp: to_be_bytes_def)
qed

lemma from_be_bytes_snoc: "from_be_bytes (bs @ [b]) = push_bit 8 (from_be_bytes bs) OR ucast b"
  by (simp add: from_be_bytes_def)

lemma from_to_be_bytes_take:
  fixes w :: "'a::len word"
  shows "(from_be_bytes (to_be_bytes n w) :: 'a word) = take_bit (8 * n) w"
proof (induction n arbitrary: w)
  case 0
  then show ?case by (simp add: to_be_bytes_def from_be_bytes_def)
next
  case (Suc n)
  have "push_bit 8 (take_bit (8 * n) (drop_bit 8 w)) OR ucast (ucast w :: u8) = take_bit (8 * Suc n) w"
    by (rule bit_word_eqI) (auto simp: bit_simps)
  then show ?case by (simp add: to_be_bytes_Suc from_be_bytes_snoc Suc)
qed

lemma from_to_be_bytes [simp]:
  fixes w :: "'a::len word"
  shows "LENGTH('a) \<le> 8 * n \<Longrightarrow> (from_be_bytes (to_be_bytes n w) :: 'a word) = w"
  by (simp add: from_to_be_bytes_take take_bit_word_eq_self)

lemma to_from_be_bytes:
  "8 * length bs \<le> LENGTH('a::len) \<Longrightarrow> to_be_bytes (length bs) (from_be_bytes bs :: 'a word) = bs"
proof (induction bs rule: rev_induct)
  case Nil
  then show ?case by (simp add: to_be_bytes_def)
next
  case (snoc b bs)
  let ?v = "from_be_bytes bs :: 'a word"
  have v: "take_bit (8 * length bs) ?v = ?v"
    using snoc from_to_be_bytes_take [of "length bs" ?v] by simp
  have "drop_bit 8 (push_bit 8 ?v OR ucast b) = ?v"
  proof (rule bit_word_eqI)
    fix k assume "k < LENGTH('a)"
    moreover have "bit ?v k \<Longrightarrow> k < 8 * length bs"
      by (metis v bit_take_bit_iff)
    ultimately show "bit (drop_bit 8 (push_bit 8 ?v OR ucast b)) k = bit ?v k"
      using snoc.prems by (auto simp: bit_simps dest: bit_imp_le_length)
  qed
  moreover have "(ucast (push_bit 8 ?v OR ucast b) :: u8) = b"
    using snoc.prems by (intro bit_word_eqI) (auto simp: bit_simps)
  ultimately show ?case
    using snoc by (simp add: to_be_bytes_Suc from_be_bytes_snoc)
qed

section \<open>Third-party primitives\<close>

text \<open>The cryptographic primitives come from crates outside the repository. A value of \<open>externals\<close>
  stands for them: the digests of \<^verbatim>\<open>sha2\<close> and \<^verbatim>\<open>ripemd160\<close>, and the two checks of \<^verbatim>\<open>ed25519_dalek\<close>
  and \<^verbatim>\<open>curve25519_dalek\<close> on an encoded public key.\<close>

record externals =
  sha256 :: "bytes \<Rightarrow> bytes"
  sha512_256 :: "bytes \<Rightarrow> bytes"
  ripemd160 :: "bytes \<Rightarrow> bytes"
  edwards_decompresses :: "bytes \<Rightarrow> bool"
  ed25519_accepts :: "bytes \<Rightarrow> bool"

definition digest_sizes :: "externals \<Rightarrow> bool" where
  "digest_sizes X \<longleftrightarrow> (\<forall>d. length (sha256 X d) = 32 \<and> length (sha512_256 X d) = 32 \<and> length (ripemd160 X d) = 20)"

end
