(* ===== verification/Script.thy ===== *)
theory Script
  imports Prelude
begin

unbundle bit_operations_syntax

text \<open>
  Bitcoin scripts (\<^verbatim>\<open>src/deps/bitcoin/blockdata/script.rs\<close> and \<^verbatim>\<open>opcodes.rs\<close>): the builder that the
  address code uses to make redeem scripts and outputs, the signed-magnitude script integers, the
  output templates, and the instruction iterator. A script and a builder are the byte vector they
  wrap.

  The lemmas show that script integers of up to 31 bits survive encoding and decoding, that the
  iterator returns exactly the data a builder pushed and then continues with the rest of the
  script, and that the iterator always ends.
\<close>

section \<open>Opcodes\<close>

datatype Class = PushNum int | PushBytes nat | ReturnOp | IllegalOp | NoOp | Ordinary u8

definition classify :: "u8 \<Rightarrow> Class" where
  "classify op =
     (if op \<in> {0x65, 0x66, 0x7e, 0x7f, 0x80, 0x81, 0x83, 0x84, 0x85, 0x86, 0x8d, 0x8e, 0x95, 0x96,
               0x97, 0x98, 0x99} then IllegalOp
      else if op = 0x61 \<or> (0xb0 \<le> op \<and> op \<le> 0xb9) then NoOp
      else if op \<in> {0x50, 0x62, 0x6a, 0x89, 0x8a} \<or> 0xba \<le> op then ReturnOp
      else if op = 0x4f then PushNum (-1)
      else if 0x51 \<le> op \<and> op \<le> 0x60 then PushNum (1 + uint op - 0x51)
      else if op \<le> 0x4b then PushBytes (unat op)
      else Ordinary op)"

section \<open>Integers and booleans in scripts\<close>

datatype script_error = NonMinimalPush | EarlyEndOfScript | NumericOverflow

text \<open>The argument of \<^verbatim>\<open>build_scriptint\<close> is an \<^verbatim>\<open>i64\<close>; its absolute value fits a \<^verbatim>\<open>usize\<close>.\<close>

function build_scriptint_loop :: "nat \<Rightarrow> bytes \<Rightarrow> nat \<times> bytes" where
  "build_scriptint_loop a v =
     (if a > 0xFF then build_scriptint_loop (drop_bit 8 a) (v @ [of_nat (a AND 0xFF)]) else (a, v))"
  by pat_completeness auto
termination by (relation "measure fst") (auto simp: drop_bit_eq_div)

declare build_scriptint_loop.simps [simp del]

definition build_scriptint :: "int \<Rightarrow> bytes" where
  "build_scriptint n =
     (if n = 0 then []
      else let neg = n < 0; (a, v) = build_scriptint_loop (nat \<bar>n\<bar>) [] in
        if a AND 0x80 \<noteq> 0 then v @ [of_nat a, if neg then 0x80 else 0]
        else v @ [of_nat (a OR (if neg then 0x80 else 0))])"

definition read_scriptint :: "bytes \<Rightarrow> (script_error, int) res" where
  "read_scriptint v =
     (let len = length v in
      if len = 0 then Ok 0
      else if len > 4 then Err NumericOverflow
      else let (ret, sh) = fold (\<lambda>n (acc, sh). (acc + push_bit sh (uint n), sh + 8)) v (0, 0) in
        if (v ! (len - 1)) AND 0x80 \<noteq> 0 then Ok (- (ret AND (2 ^ (sh - 1) - 1))) else Ok ret)"

definition read_scriptbool :: "bytes \<Rightarrow> bool" where
  "read_scriptbool v \<longleftrightarrow>
     \<not> (v = [] \<or> ((last v = 0 \<or> last v = 0x80) \<and> list_all (\<lambda>w. w = 0) (drop 1 (rev v))))"

definition read_uint :: "bytes \<Rightarrow> nat \<Rightarrow> script_error + nat" where
  "read_uint data sz =
     (if length data < sz then Inl EarlyEndOfScript
      else Inr (fold (\<lambda>(i, item) ret. ret + push_bit (i * 8) (unat item)) (enumerate 0 (take sz data)) 0))"

section \<open>The builder\<close>

definition push_opcode :: "u8 \<Rightarrow> bytes \<Rightarrow> bytes" where
  "push_opcode op b = b @ [op]"

definition push_slice :: "bytes \<Rightarrow> bytes \<Rightarrow> ('e, bytes) res" where
  "push_slice data b =
     (let n = length data in
      if n < 0x4c then Ok (b @ [of_nat n] @ data)
      else if n < 0x100 then Ok (b @ [0x4c, of_nat n] @ data)
      else if n < 0x10000 then Ok (b @ [0x4d, of_nat (n mod 0x100), of_nat (n div 0x100)] @ data)
      else if n < 0x100000000
      then Ok (b @ [0x4e, of_nat (n mod 0x100), of_nat ((n div 0x100) mod 0x100),
                    of_nat ((n div 0x10000) mod 0x100), of_nat (n div 0x1000000)] @ data)
      else Panic)"

definition push_int :: "int \<Rightarrow> bytes \<Rightarrow> ('e, bytes) res" where
  "push_int data b =
     (if data = -1 \<or> (1 \<le> data \<and> data \<le> 16) then Ok (b @ [of_int (data - 1 + 0x51)])
      else if data = 0 then Ok (b @ [0])
      else push_slice (build_scriptint data) b)"

section \<open>Output templates\<close>

definition hash160 :: "externals \<Rightarrow> bytes \<Rightarrow> bytes" where
  "hash160 X data = ripemd160 X (sha256 X data)"

definition to_p2sh :: "externals \<Rightarrow> bytes \<Rightarrow> ('e, bytes) res" where
  "to_p2sh X self =
     and_then (push_slice (hash160 X self) (push_opcode 0xa9 [])) (\<lambda>b. Ok (push_opcode 0x87 b))"

definition to_v0_p2wsh :: "externals \<Rightarrow> bytes \<Rightarrow> ('e, bytes) res" where
  "to_v0_p2wsh X self = and_then (push_int 0 []) (push_slice (sha256 X self))"

definition is_p2sh :: "bytes \<Rightarrow> bool" where
  "is_p2sh s \<longleftrightarrow> length s = 23 \<and> s ! 0 = 0xa9 \<and> s ! 1 = 20 \<and> s ! 22 = 0x87"

definition is_p2pkh :: "bytes \<Rightarrow> bool" where
  "is_p2pkh s \<longleftrightarrow> length s = 25 \<and> s ! 0 = 0x76 \<and> s ! 1 = 0xa9 \<and> s ! 2 = 20 \<and> s ! 23 = 0x88 \<and> s ! 24 = 0xac"

definition is_p2pk :: "bytes \<Rightarrow> bool" where
  "is_p2pk s \<longleftrightarrow> length s = 67 \<and> s ! 0 = 65 \<and> s ! 66 = 0xac"

definition is_v0_p2wsh :: "bytes \<Rightarrow> bool" where
  "is_v0_p2wsh s \<longleftrightarrow> length s = 34 \<and> s ! 0 = 0 \<and> s ! 1 = 32"

definition is_v0_p2wpkh :: "bytes \<Rightarrow> bool" where
  "is_v0_p2wpkh s \<longleftrightarrow> length s = 22 \<and> s ! 0 = 0 \<and> s ! 1 = 20"

definition is_op_return :: "bytes \<Rightarrow> bool" where
  "is_op_return s \<longleftrightarrow> s \<noteq> [] \<and> s ! 0 = 0x6a"

definition is_provably_unspendable :: "bytes \<Rightarrow> bool" where
  "is_provably_unspendable s \<longleftrightarrow>
     s \<noteq> [] \<and> (classify (s ! 0) = ReturnOp \<or> classify (s ! 0) = IllegalOp)"

section \<open>Reference notions\<close>

text \<open>The little-endian value of a byte string, and the pushes that \<^verbatim>\<open>enforce_minimal\<close> lets through.\<close>

primrec le_nat :: "bytes \<Rightarrow> nat" where
  "le_nat [] = 0"
| "le_nat (b # bs) = unat b + 256 * le_nat bs"

definition minimal_push :: "bytes \<Rightarrow> bool" where
  "minimal_push data \<longleftrightarrow> \<not> (length data = 1 \<and> (data ! 0 = 0x81 \<or> (0 < data ! 0 \<and> data ! 0 \<le> 16)))"

section \<open>The instruction iterator\<close>

datatype Instruction = IPushBytes bytes | IOp u8 | IError script_error

text \<open>The three \<^verbatim>\<open>OP_PUSHDATA\<close> arms differ in the size of the length field, the minimal length that
  needs it, and the order of the last two tests; \<open>pushdata\<close> is \<^verbatim>\<open>OP_PUSHDATA2\<close> and \<^verbatim>\<open>OP_PUSHDATA4\<close>.\<close>

definition pushdata1 :: "bool \<Rightarrow> bytes \<Rightarrow> Instruction \<times> bytes" where
  "pushdata1 enforce_minimal data =
     (if length data < 2 then (IError EarlyEndOfScript, [])
      else case read_uint (drop 1 data) 1 of
        Inr n \<Rightarrow>
          if length data < n + 2 then (IError EarlyEndOfScript, [])
          else if enforce_minimal \<and> n < 76 then (IError NonMinimalPush, [])
          else (IPushBytes (slice 2 (n + 2) data), drop (n + 2) data)
      | Inl e \<Rightarrow> (IError e, []))"

definition pushdata :: "nat \<Rightarrow> nat \<Rightarrow> bool \<Rightarrow> bytes \<Rightarrow> Instruction \<times> bytes" where
  "pushdata sz minimal enforce_minimal data =
     (if length data < sz + 1 then (IError EarlyEndOfScript, [])
      else case read_uint (drop 1 data) sz of
        Inr n \<Rightarrow>
          if enforce_minimal \<and> n < minimal then (IError NonMinimalPush, [])
          else if length data < n + (sz + 1) then (IError EarlyEndOfScript, [])
          else (IPushBytes (slice (sz + 1) (n + (sz + 1)) data), drop (n + (sz + 1)) data)
      | Inl e \<Rightarrow> (IError e, []))"

definition next_instruction :: "bool \<Rightarrow> bytes \<Rightarrow> (Instruction \<times> bytes) option" where
  "next_instruction enforce_minimal data =
     (if data = [] then None
      else Some (case classify (data ! 0) of
        PushBytes n \<Rightarrow>
          if length data < n + 1 then (IError EarlyEndOfScript, [])
          else if enforce_minimal \<and> n = 1 \<and> (data ! 1 = 0x81 \<or> (data ! 1 > 0 \<and> data ! 1 \<le> 16))
          then (IError NonMinimalPush, [])
          else (IPushBytes (slice 1 (n + 1) data), drop (n + 1) data)
      | Ordinary op \<Rightarrow>
          if op = 0x4c then pushdata1 enforce_minimal data
          else if op = 0x4d then pushdata 2 0x100 enforce_minimal data
          else if op = 0x4e then pushdata 4 0x10000 enforce_minimal data
          else (IOp (data ! 0), drop 1 data)
      | _ \<Rightarrow> (IOp (data ! 0), drop 1 data)))"

lemma next_instruction_decreases:
  "next_instruction m data = Some (i, rest) \<Longrightarrow> length rest < length data"
  by (auto simp: next_instruction_def pushdata1_def pushdata_def split: Class.splits if_splits sum.splits)

function instructions :: "bool \<Rightarrow> bytes \<Rightarrow> Instruction list" where
  "instructions m data =
     (case next_instruction m data of None \<Rightarrow> [] | Some (i, rest) \<Rightarrow> i # instructions m rest)"
  by pat_completeness auto
termination by (relation "measure (length \<circ> snd)") (auto simp: next_instruction_decreases)

declare instructions.simps [simp del]

section \<open>Little-endian values\<close>

lemma u8_less: "unat (b :: u8) < 256"
  using unsigned_less [of b, where 'a = nat] by simp

lemma le_nat_append: "le_nat (xs @ ys) = le_nat xs + 256 ^ length xs * le_nat ys"
  by (induction xs) (auto simp: algebra_simps)

lemma le_nat_less: "le_nat bs < 256 ^ length bs"
proof (induction bs)
  case (Cons b bs)
  then have "le_nat bs + 1 \<le> 256 ^ length bs" by simp
  then have "256 * (le_nat bs + 1) \<le> 256 * 256 ^ length bs" by (rule mult_le_mono2)
  then show ?case using u8_less [of b] by simp
qed simp

lemma read_scriptint_fold:
  "fold (\<lambda>n (acc, sh). (acc + push_bit sh (uint n), sh + 8)) v (acc, sh) =
     (acc + 2 ^ sh * int (le_nat v), sh + 8 * length v)"
proof (induction v arbitrary: acc sh)
  case (Cons n v)
  have "acc + push_bit sh (uint n) + 2 ^ (sh + 8) * int (le_nat v) = acc + 2 ^ sh * int (le_nat (n # v))"
    by (simp add: push_bit_eq_mult power_add distrib_left)
  then show ?case by (simp only: fold_simps prod.case Cons.IH list.size) simp
qed simp

lemma odd_div_128: "a \<le> 255 \<Longrightarrow> odd ((a :: nat) div 128) \<longleftrightarrow> 128 \<le> a"
  by (cases "128 \<le> a") (simp_all add: le_div_geq)

lemma high_bit_iff: "(L :: u8) AND 0x80 \<noteq> 0 \<longleftrightarrow> 128 \<le> unat L"
proof -
  have "L AND 0x80 \<noteq> 0 \<longleftrightarrow> bit L 7"
    using and_exp_eq_0_iff_not_bit [of L 7] by simp
  also have "\<dots> \<longleftrightarrow> odd (unat L div 2 ^ 7)"
    using bit_unsigned_iff [of L 7, where 'a = nat] by (simp add: bit_iff_odd [of "unat L"])
  also have "\<dots> \<longleftrightarrow> 128 \<le> unat L"
    using u8_less [of L] by (simp add: odd_div_128)
  finally show ?thesis .
qed

lemma read_scriptint_value:
  assumes "v \<noteq> []" "length v \<le> 4"
  shows "read_scriptint v = Ok (if le_nat v < 2 ^ (8 * length v - 1) then int (le_nat v)
           else - int (le_nat v - 2 ^ (8 * length v - 1)))"
proof -
  obtain w L where v: "v = w @ [L]" using assms(1) by (metis append_butlast_last_id)
  let ?k = "length w"
  have e: "8 * length v - 1 = 8 * ?k + 7" using v by simp
  have p: "(2::nat) ^ (8 * ?k + 7) = 256 ^ ?k * 128" by (simp add: power_add power_mult)
  have val: "le_nat v = le_nat w + 256 ^ ?k * unat L" by (simp add: v le_nat_append)
  have hi: "128 \<le> unat L \<longleftrightarrow> 2 ^ (8 * ?k + 7) \<le> le_nat v"
  proof
    assume "128 \<le> unat L"
    then have "256 ^ ?k * 128 \<le> 256 ^ ?k * unat L" by simp
    then show "2 ^ (8 * ?k + 7) \<le> le_nat v" by (simp only: p val)
  next
    assume le: "2 ^ (8 * ?k + 7) \<le> le_nat v"
    show "128 \<le> unat L"
    proof (rule ccontr)
      assume "\<not> 128 \<le> unat L"
      then have "256 ^ ?k * (unat L + 1) \<le> 256 ^ ?k * 128" by (intro mult_le_mono2) simp
      then have "256 ^ ?k * unat L + 256 ^ ?k \<le> 256 ^ ?k * 128" by (simp only: distrib_left mult_1_right)
      then show False using le le_nat_less [of w] unfolding p val by linarith
    qed
  qed
  have sub: "int (le_nat v) mod 2 ^ (8 * ?k + 7) = int (le_nat v - 2 ^ (8 * ?k + 7))"
    if "2 ^ (8 * ?k + 7) \<le> le_nat v"
  proof -
    have "le_nat v < 2 ^ (8 * ?k + 7) * 2"
      using le_nat_less [of v] by (simp add: v p)
    then have "le_nat v mod 2 ^ (8 * ?k + 7) = le_nat v - 2 ^ (8 * ?k + 7)"
      using that by (simp add: le_mod_geq)
    then show ?thesis by (metis of_nat_mod of_nat_numeral of_nat_power)
  qed
  have mk: "int (le_nat v) AND (2 ^ (8 * ?k + 7) - 1) = int (le_nat v) mod 2 ^ (8 * ?k + 7)"
    by (simp only: flip: mask_eq_exp_minus_1 take_bit_eq_mask take_bit_eq_mod)
  have L: "v ! (length v - 1) = L" by (simp add: v)
  show ?thesis
    using assms hi sub mk
    by (simp only: read_scriptint_def Let_def read_scriptint_fold L high_bit_iff e) (auto simp: v add.commute)
qed


lemma build_scriptint_loop_value:
  assumes "build_scriptint_loop a v = (a', v')"
  shows "\<exists>w. v' = v @ w \<and> a = le_nat w + 256 ^ length w * a' \<and> a' \<le> 255 \<and> (0 < a \<longrightarrow> 0 < a')"
  using assms
proof (induction a v rule: build_scriptint_loop.induct)
  case (1 a v)
  show ?case
  proof (cases "a > 0xFF")
    case True
    then obtain w where w: "v' = (v @ [of_nat (a AND 0xFF)]) @ w" "drop_bit 8 a = le_nat w + 256 ^ length w * a'"
      "a' \<le> 255" "0 < drop_bit 8 a \<longrightarrow> 0 < a'"
      using 1 by (subst (asm) build_scriptint_loop.simps) auto
    have m: "a AND 0xFF = a mod 256"
      using take_bit_eq_mask [of 8 a] by (simp add: take_bit_eq_mod mask_eq_exp_minus_1)
    have "unat (of_nat (a mod 256) :: u8) = a mod 256"
      by (simp add: unsigned_of_nat take_bit_eq_mod)
    moreover have "a = a mod 256 + 256 * drop_bit 8 a" by (simp add: drop_bit_eq_div)
    ultimately have "a = le_nat (of_nat (a AND 0xFF) # w) + 256 ^ Suc (length w) * a'"
      unfolding m w(2) by (simp add: algebra_simps)
    moreover have "0 < drop_bit 8 a" using True by (simp add: drop_bit_eq_div)
    ultimately show ?thesis using w by (intro exI [of _ "of_nat (a AND 0xFF) # w"]) auto
  next
    case False
    then show ?thesis using 1 by (subst (asm) (2) build_scriptint_loop.simps) auto
  qed
qed

lemma nat_high_bit_iff: "a \<le> 255 \<Longrightarrow> (a :: nat) AND 0x80 \<noteq> 0 \<longleftrightarrow> 128 \<le> a"
proof -
  assume a: "a \<le> 255"
  have "a AND 0x80 \<noteq> 0 \<longleftrightarrow> bit a 7" using and_exp_eq_0_iff_not_bit [of a 7] by simp
  then show ?thesis using a by (simp add: bit_iff_odd odd_div_128)
qed

lemma build_scriptint_value:
  assumes "n \<noteq> 0" and v: "v = build_scriptint n"
  shows "v \<noteq> []" and "nat \<bar>n\<bar> < 2 ^ (8 * length v - 1)"
    and "le_nat v = nat \<bar>n\<bar> + (if n < 0 then 2 ^ (8 * length v - 1) else 0)"
    and "256 ^ (length v - 1) \<le> 2 * nat \<bar>n\<bar>"
proof -
  let ?N = "nat \<bar>n\<bar>"
  obtain a w where l: "build_scriptint_loop ?N [] = (a, w)" by fastforce
  from build_scriptint_loop_value [OF this]
  have N: "?N = le_nat w + 256 ^ length w * a" "a \<le> 255" "0 < a" using assms(1) by auto
  define P where "P = (256::nat) ^ length w"
  have p: "(2::nat) ^ (7 + 8 * length w) = P * 128" "(2::nat) ^ (15 + 8 * length w) = P * 32768"
    by (simp_all add: P_def power_add power_mult)
  have u: "unat (of_nat x :: u8) = x" if "x \<le> 255" for x
    using that by (simp add: unsigned_of_nat take_bit_eq_mod)
  have up: "?N < P * (a + 1)" and low: "P * a \<le> ?N"
    using N(1) le_nat_less [of w] by (simp_all add: P_def distrib_left)
  have "v \<noteq> [] \<and> ?N < 2 ^ (8 * length v - 1) \<and>
    le_nat v = ?N + (if n < 0 then 2 ^ (8 * length v - 1) else 0) \<and> 256 ^ (length v - 1) \<le> 2 * ?N"
  proof (cases "128 \<le> a")
    case True
    then have hb: "a AND 0x80 \<noteq> 0" using nat_high_bit_iff N(2) by blast
    define s :: u8 where "s = (if n < 0 then 0x80 else 0)"
    have v': "v = w @ [of_nat a, s]"
      using assms(1) hb by (simp add: v build_scriptint_def l s_def)
    have le: "le_nat v = ?N + P * 256 * unat s"
      by (simp add: v' le_nat_append u N P_def distrib_left)
    have e: "8 * length v - 1 = 15 + 8 * length w" "256 ^ (length v - 1) = P * 256"
      by (simp_all add: v' P_def)
    have "P * (a + 1) \<le> P * 256" using N(2) by (intro mult_le_mono2) simp
    moreover have "P * 128 \<le> P * a" using True by (intro mult_le_mono2)
    ultimately have "?N < P * 32768" "P * 256 \<le> 2 * ?N" using up low by linarith+
    then show ?thesis unfolding e p le by (simp add: v' s_def)
  next
    case False
    then have hb: "a AND 0x80 = 0" using nat_high_bit_iff N(2) by blast
    then have "a OR 0x80 = a + 0x80" by (simp add: disjunctive_add_eq_or)
    then have v': "v = w @ [of_nat (if n < 0 then a + 0x80 else a)]"
      using assms(1) hb by (simp add: v build_scriptint_def l)
    have le: "le_nat v = ?N + (if n < 0 then P * 128 else 0)"
      using False N(1) by (simp add: v' le_nat_append u P_def distrib_left del: of_nat_add)
    have e: "8 * length v - 1 = 7 + 8 * length w" "256 ^ (length v - 1) = P"
      by (simp_all add: v' P_def)
    have "P * (a + 1) \<le> P * 128" using False by (intro mult_le_mono2) simp
    moreover have "P * 1 \<le> P * a" using N(3) by (intro mult_le_mono2) simp
    ultimately have "?N < P * 128" "P \<le> 2 * ?N" using up low by linarith+
    then show ?thesis unfolding e p le by (simp add: v')
  qed
  then show "v \<noteq> []" "?N < 2 ^ (8 * length v - 1)"
    "le_nat v = ?N + (if n < 0 then 2 ^ (8 * length v - 1) else 0)" "256 ^ (length v - 1) \<le> 2 * ?N"
    by blast+
qed

lemma scriptint_round_trip:
  assumes "\<bar>n\<bar> < 2 ^ 31"
  shows "read_scriptint (build_scriptint n) = Ok n"
proof (cases "n = 0")
  case True
  then show ?thesis by (simp add: build_scriptint_def read_scriptint_def)
next
  case False
  define v where "v = build_scriptint n"
  note b = build_scriptint_value [OF False v_def]
  have "(256::nat) ^ (length v - 1) < 256 ^ 4" using b(4) assms by simp
  then have "length v - 1 < 4" by (rule power_less_imp_less_exp [rotated]) simp
  then have "length v \<le> 4" by simp
  then show ?thesis using read_scriptint_value [OF b(1)] b(2,3) unfolding v_def [symmetric] by auto
qed

section \<open>Iterating over what was pushed\<close>

lemma read_uint_fold:
  "fold (\<lambda>(i, item) ret. ret + push_bit (i * 8) (unat item)) (enumerate i xs) r = r + 256 ^ i * le_nat xs"
proof (induction xs arbitrary: i r)
  case (Cons x xs)
  have "push_bit (i * 8) (unat x) = 256 ^ i * unat x"
    by (simp add: push_bit_eq_mult power_mult mult.commute [of i])
  then show ?case by (simp add: Cons distrib_left)
qed simp

lemma read_uint_value: "sz \<le> length data \<Longrightarrow> read_uint data sz = Inr (le_nat (take sz data))"
  by (simp add: read_uint_def read_uint_fold)

lemma classify_push: "unat op \<le> 75 \<Longrightarrow> classify op = PushBytes (unat op)"
  by (auto simp: classify_def word_unat_eq_iff word_le_nat_alt)

lemma classify_pushdata: "classify 0x4c = Ordinary 0x4c" "classify 0x4d = Ordinary 0x4d" "classify 0x4e = Ordinary 0x4e"
  by (simp_all add: classify_def)

lemma unat_of_byte [simp]: "x < 256 \<Longrightarrow> unat (of_nat x :: u8) = x"
  by (simp add: unsigned_of_nat take_bit_eq_mod)

lemma byte_digits:
  fixes n :: nat
  shows "n mod 256 + 256 * (n div 256 mod 256 + 256 * (n div 65536 mod 256 + 256 * (n div 16777216))) = n"
proof -
  have "n div 65536 = n div 256 div 256" "n div 16777216 = n div 256 div 256 div 256"
    by (simp_all flip: div_mult2_eq)
  then show ?thesis by (simp only: mod_mult_div_eq)
qed

lemma le_nat_bytes: "list_all (\<lambda>x. x < 256) xs \<Longrightarrow> le_nat (map of_nat xs) = foldr (\<lambda>x v. x + 256 * v) xs 0"
  by (induction xs) auto

lemma pushdata_pushed:
  assumes "length l = sz" "le_nat l = length data" "minimal \<le> length data"
  shows "pushdata sz minimal m (op # l @ data @ rest) = (IPushBytes data, rest)"
  using assms by (auto simp: pushdata_def read_uint_value slice_def)

lemma push_slice_shape:
  assumes "push_slice data b = Ok s"
  shows "\<exists>enc. s = b @ enc \<and> push_slice data [] = Ok enc"
  using assms by (auto simp: push_slice_def Let_def split: if_splits)

lemma next_instruction_pushed:
  assumes s: "push_slice data [] = Ok s" and m: "m \<Longrightarrow> minimal_push data"
  shows "next_instruction m (s @ rest) = Some (IPushBytes data, rest)"
proof -
  let ?n = "length data"
  consider "?n < 0x4c" | "0x4c \<le> ?n" "?n < 0x100" | "0x100 \<le> ?n" "?n < 0x10000"
    | "0x10000 \<le> ?n" "?n < 0x100000000"
    using s by (force simp: push_slice_def Let_def split: if_splits)
  then show ?thesis
  proof cases
    case 1
    then have "s = of_nat ?n # data" using s by (simp add: push_slice_def Let_def)
    then show ?thesis using 1 m classify_push [of "of_nat ?n"]
      by (auto simp: next_instruction_def minimal_push_def slice_def nth_append)
  next
    case 2
    then have "s = 0x4c # [of_nat ?n] @ data" using s by (simp add: push_slice_def Let_def)
    then show ?thesis using 2
      by (auto simp: next_instruction_def pushdata1_def classify_pushdata read_uint_value slice_def)
  next
    case 3
    define l :: bytes where "l = [of_nat (?n mod 256), of_nat (?n div 256)]"
    have "s = 0x4d # l @ data" using s 3 by (simp add: push_slice_def Let_def l_def)
    moreover have "le_nat l = ?n" "length l = 2" using 3 by (simp_all add: l_def)
    ultimately show ?thesis using 3
      by (simp add: next_instruction_def classify_pushdata pushdata_pushed)
  next
    case 4
    define l :: bytes where "l = map of_nat
      [?n mod 256, ?n div 256 mod 256, ?n div 65536 mod 256, ?n div 16777216]"
    have "s = 0x4e # l @ data" using s 4 by (simp add: push_slice_def Let_def l_def)
    moreover have "?n div 16777216 < 256" using 4 by (simp add: less_mult_imp_div_less)
    then have "le_nat l = ?n" unfolding l_def by (subst le_nat_bytes) (simp_all add: byte_digits [simplified])
    moreover have "length l = 4" by (simp add: l_def)
    ultimately show ?thesis using 4
      by (simp add: next_instruction_def classify_pushdata pushdata_pushed)
  qed
qed

lemma instructions_pushed:
  assumes "push_slice data [] = Ok s" "m \<Longrightarrow> minimal_push data"
  shows "instructions m (s @ rest) = IPushBytes data # instructions m rest"
  using next_instruction_pushed [OF assms] by (subst instructions.simps) simp

end
