(* ===== verification/Addresses.thy ===== *)
theory Addresses
  imports Script
begin

text \<open>
  Addresses and burnchain transactions: \<^verbatim>\<open>src/burnchains/bitcoin/address.rs\<close> (Bitcoin addresses and
  their version bytes), \<^verbatim>\<open>src/address/mod.rs\<close> (hashing public keys to address bits),
  \<^verbatim>\<open>src/chainstate/stacks/address.rs\<close> (Stacks addresses), and the signers, recipients and transactions
  of \<^verbatim>\<open>src/burnchains/mod.rs\<close> and \<^verbatim>\<open>src/burnchains/burnchain.rs\<close>. Hashes and the other byte-array
  newtypes are byte lists. The digests are those of an \<open>externals\<close> value.

  The lemmas show that the version-byte tables are inverse to each other, that converting a Bitcoin
  address never panics, and that paying a Stacks address through a Bitcoin output and reading the
  output back gives the same Stacks address.
\<close>

section \<open>Bitcoin addresses\<close>

datatype BitcoinNetworkType = Mainnet | Testnet | Regtest
datatype BitcoinAddressType = PublicKeyHash | ScriptHash
datatype btc_error = InvalidByteSequence

record BitcoinAddress =
  addrtype :: BitcoinAddressType
  network_id :: BitcoinNetworkType
  btc_bytes :: bytes

fun address_type_to_version_byte :: "BitcoinAddressType \<Rightarrow> BitcoinNetworkType \<Rightarrow> u8" where
  "address_type_to_version_byte PublicKeyHash Mainnet = 0"
| "address_type_to_version_byte ScriptHash Mainnet = 5"
| "address_type_to_version_byte PublicKeyHash Testnet = 111"
| "address_type_to_version_byte PublicKeyHash Regtest = 111"
| "address_type_to_version_byte ScriptHash Testnet = 196"
| "address_type_to_version_byte ScriptHash Regtest = 196"

definition version_byte_to_address_type :: "u8 \<Rightarrow> (BitcoinAddressType \<times> BitcoinNetworkType) option" where
  "version_byte_to_address_type version =
     (if version = 0 then Some (PublicKeyHash, Mainnet)
      else if version = 5 then Some (ScriptHash, Mainnet)
      else if version = 111 then Some (PublicKeyHash, Testnet)
      else if version = 196 then Some (ScriptHash, Testnet)
      else None)"

definition to_c32_version_byte :: "u8 \<Rightarrow> u8 option" where
  "to_c32_version_byte version =
     (if version = 0 then Some 22
      else if version = 5 then Some 20
      else if version = 111 then Some 26
      else if version = 196 then Some 21
      else None)"

definition to_b52_version_byte :: "u8 \<Rightarrow> u8 option" where
  "to_b52_version_byte version =
     (if version = 22 then Some 0
      else if version = 20 then Some 5
      else if version = 26 then Some 111
      else if version = 21 then Some 196
      else None)"

definition btc_from_bytes :: "BitcoinNetworkType \<Rightarrow> BitcoinAddressType \<Rightarrow> bytes \<Rightarrow> (btc_error, BitcoinAddress) res" where
  "btc_from_bytes net t bs =
     (if length bs \<noteq> 20 then Err InvalidByteSequence
      else Ok \<lparr>addrtype = t, network_id = net, btc_bytes = bs\<rparr>)"

text \<open>\<^verbatim>\<open>from_b58\<close> after the base58check decoding: the payload of the decoded string.\<close>

definition btc_from_versioned_bytes :: "bytes \<Rightarrow> (btc_error, BitcoinAddress) res" where
  "btc_from_versioned_bytes bs =
     (if length bs \<noteq> 21 then Err InvalidByteSequence
      else case version_byte_to_address_type (bs ! 0) of
        None \<Rightarrow> Err InvalidByteSequence
      | Some (t, net) \<Rightarrow> Ok \<lparr>addrtype = t, network_id = net, btc_bytes = slice 1 21 bs\<rparr>)"

definition from_scriptpubkey :: "BitcoinNetworkType \<Rightarrow> bytes \<Rightarrow> BitcoinAddress option" where
  "from_scriptpubkey net s =
     (if length s = 25 \<and> slice 0 3 s = [0x76, 0xa9, 0x14] \<and> slice 23 25 s = [0x88, 0xac]
      then Some \<lparr>addrtype = PublicKeyHash, network_id = net, btc_bytes = slice 3 23 s\<rparr>
      else if length s = 23 \<and> slice 0 2 s = [0xa9, 0x14] \<and> s ! 22 = 0x87
      then Some \<lparr>addrtype = ScriptHash, network_id = net, btc_bytes = slice 2 22 s\<rparr>
      else None)"

definition to_versioned_bytes :: "BitcoinAddress \<Rightarrow> bytes" where
  "to_versioned_bytes a = address_type_to_version_byte (addrtype a) (network_id a) # map (\<lambda>i. btc_bytes a ! i) [0..<20]"

record TxOut =
  txout_value :: u64
  script_pubkey :: bytes

definition to_p2pkh_tx_out :: "bytes \<Rightarrow> u64 \<Rightarrow> ('e, TxOut) res" where
  "to_p2pkh_tx_out bs value =
     and_then (push_slice bs (push_opcode 0xa9 (push_opcode 0x76 [])))
       (\<lambda>b. Ok \<lparr>txout_value = value, script_pubkey = push_opcode 0xac (push_opcode 0x88 b)\<rparr>)"

definition to_p2sh_tx_out :: "bytes \<Rightarrow> u64 \<Rightarrow> ('e, TxOut) res" where
  "to_p2sh_tx_out bs value =
     and_then (push_slice bs (push_opcode 0xa9 []))
       (\<lambda>b. Ok \<lparr>txout_value = value, script_pubkey = push_opcode 0x87 b\<rparr>)"

section \<open>Public keys to address bits\<close>

datatype AddressHashMode = SerializeP2PKH | SerializeP2SH | SerializeP2WPKH | SerializeP2WSH

text \<open>A public key is the byte string \<^verbatim>\<open>to_bytes\<close> returns for it, with its compression flag.\<close>

record StacksPublicKey =
  pk_bytes :: bytes
  pk_compressed :: bool

text \<open>The error type of the address module (\<^verbatim>\<open>src/address/mod.rs\<close>).\<close>

datatype address_error = InvalidCrockford32 | InvalidVersion u8 | EmptyData | BadByte u8 | BadChecksum u32 u32
  | InvalidLength nat | TooShort nat | OtherError string

definition hash_mode_try_from :: "u8 \<Rightarrow> (address_error, AddressHashMode) res" where
  "hash_mode_try_from value =
     (if value = 0 then Ok SerializeP2PKH
      else if value = 1 then Ok SerializeP2SH
      else if value = 2 then Ok SerializeP2WPKH
      else if value = 3 then Ok SerializeP2WSH
      else Err (InvalidVersion value))"

definition to_version_mainnet :: "AddressHashMode \<Rightarrow> u8" where
  "to_version_mainnet m = (case m of SerializeP2PKH \<Rightarrow> 22 | _ \<Rightarrow> 20)"

definition to_version_testnet :: "AddressHashMode \<Rightarrow> u8" where
  "to_version_testnet m = (case m of SerializeP2PKH \<Rightarrow> 26 | _ \<Rightarrow> 21)"

definition to_bits_p2pkh :: "externals \<Rightarrow> StacksPublicKey \<Rightarrow> bytes" where
  "to_bits_p2pkh X pubk = hash160 X (pk_bytes pubk)"

text \<open>The redeem script that \<^verbatim>\<open>to_bits_p2sh\<close> and \<^verbatim>\<open>to_bits_p2sh_p2wsh\<close> both build.\<close>

definition multisig_script :: "u64 \<Rightarrow> StacksPublicKey list \<Rightarrow> ('e, bytes) res" where
  "multisig_script num_sigs pubkeys =
     and_then (push_int (sint num_sigs) []) (\<lambda>b0.
     and_then (fold_res (\<lambda>pubk b. push_slice (pk_bytes pubk) b) pubkeys b0) (\<lambda>b1.
     and_then (push_int (int (length pubkeys)) b1) (\<lambda>b2.
     Ok (push_opcode 0xae b2))))"

definition to_bits_p2sh :: "externals \<Rightarrow> u64 \<Rightarrow> StacksPublicKey list \<Rightarrow> ('e, bytes) res" where
  "to_bits_p2sh X num_sigs pubkeys =
     and_then (multisig_script num_sigs pubkeys) (\<lambda>script. Ok (hash160 X script))"

definition to_bits_p2sh_p2wpkh :: "externals \<Rightarrow> StacksPublicKey \<Rightarrow> ('e, bytes) res" where
  "to_bits_p2sh_p2wpkh X pubk =
     and_then (push_int 0 []) (\<lambda>b.
     and_then (push_slice (hash160 X (pk_bytes pubk)) b) (\<lambda>script. Ok (hash160 X script)))"

definition to_bits_p2sh_p2wsh :: "externals \<Rightarrow> u64 \<Rightarrow> StacksPublicKey list \<Rightarrow> ('e, bytes) res" where
  "to_bits_p2sh_p2wsh X num_sigs pubkeys =
     and_then (multisig_script num_sigs pubkeys) (\<lambda>script.
     and_then (push_int 0 []) (\<lambda>b.
     and_then (push_slice (sha256 X script) b) (\<lambda>ws. Ok (hash160 X ws))))"

definition public_keys_to_address_hash ::
    "externals \<Rightarrow> AddressHashMode \<Rightarrow> u64 \<Rightarrow> StacksPublicKey list \<Rightarrow> ('e, bytes) res" where
  "public_keys_to_address_hash X hash_flag num_sigs pubkeys =
     (case hash_flag of
        SerializeP2PKH \<Rightarrow> and_then (nth_res pubkeys 0) (\<lambda>k. Ok (to_bits_p2pkh X k))
      | SerializeP2SH \<Rightarrow> to_bits_p2sh X num_sigs pubkeys
      | SerializeP2WPKH \<Rightarrow> and_then (nth_res pubkeys 0) (to_bits_p2sh_p2wpkh X)
      | SerializeP2WSH \<Rightarrow> to_bits_p2sh_p2wsh X num_sigs pubkeys)"

section \<open>Stacks addresses\<close>

record StacksAddress =
  addr_version :: u8
  addr_bytes :: bytes

datatype net_error = SerializeError | DeserializeError | ReadError | WriteError | OverflowError | UnderflowError

definition stacks_address_serialize :: "StacksAddress \<Rightarrow> bytes" where
  "stacks_address_serialize a = to_be_bytes 1 (addr_version a) @ addr_bytes a"

text \<open>Reading from a stream returns the value and the bytes that are left; \<^verbatim>\<open>read_exact\<close> fails on a
  short stream.\<close>

definition read_exact :: "nat \<Rightarrow> bytes \<Rightarrow> (net_error, bytes \<times> bytes) res" where
  "read_exact n fd = (if length fd < n then Err ReadError else Ok (take n fd, drop n fd))"

definition stacks_address_deserialize :: "bytes \<Rightarrow> (net_error, StacksAddress \<times> bytes) res" where
  "stacks_address_deserialize fd =
     and_then (read_exact 1 fd) (\<lambda>(v, fd1).
     and_then (read_exact 20 fd1) (\<lambda>(h, fd2).
     and_then (expect (array_from_bytes 20 h)) (\<lambda>hash160.
     Ok (\<lparr>addr_version = from_be_bytes v, addr_bytes = hash160\<rparr>, fd2))))"

definition burn_address :: "bool \<Rightarrow> StacksAddress" where
  "burn_address mainnet = \<lparr>addr_version = (if mainnet then 22 else 26), addr_bytes = replicate 20 0\<rparr>"

definition from_public_keys ::
    "externals \<Rightarrow> u8 \<Rightarrow> AddressHashMode \<Rightarrow> u64 \<Rightarrow> StacksPublicKey list \<Rightarrow> ('e, StacksAddress option) res" where
  "from_public_keys X version hash_mode num_sigs pubkeys =
     (if of_nat (length pubkeys) < num_sigs then Ok None
      else if hash_mode \<in> {SerializeP2PKH, SerializeP2WPKH} \<and> (num_sigs \<noteq> 1 \<or> length pubkeys \<noteq> 1) then Ok None
      else if hash_mode \<in> {SerializeP2WPKH, SerializeP2WSH} \<and> list_ex (\<lambda>pubkey. \<not> pk_compressed pubkey) pubkeys then Ok None
      else and_then (public_keys_to_address_hash X hash_mode num_sigs pubkeys)
        (\<lambda>hash_bits. Ok (Some \<lparr>addr_version = version, addr_bytes = hash_bits\<rparr>)))"

definition from_bitcoin_address :: "BitcoinAddress \<Rightarrow> ('e, StacksAddress) res" where
  "from_bitcoin_address addr =
     (let btc_version = address_type_to_version_byte (addrtype addr) (network_id addr) in
      and_then (expect (to_c32_version_byte btc_version)) (\<lambda>version.
      Ok \<lparr>addr_version = version, addr_bytes = btc_bytes addr\<rparr>))"

definition to_bitcoin_tx_out :: "StacksAddress \<Rightarrow> u64 \<Rightarrow> ('e, TxOut) res" where
  "to_bitcoin_tx_out self value =
     and_then (expect (to_b52_version_byte (addr_version self))) (\<lambda>btc_version.
     and_then (expect (version_byte_to_address_type btc_version)) (\<lambda>(btc_addr_type, _).
     case btc_addr_type of
       PublicKeyHash \<Rightarrow> to_p2pkh_tx_out (addr_bytes self) value
     | ScriptHash \<Rightarrow> to_p2sh_tx_out (addr_bytes self) value))"

definition is_burn :: "StacksAddress \<Rightarrow> bool" where
  "is_burn a \<longleftrightarrow> addr_bytes a = replicate 20 0"

section \<open>Burnchain transactions\<close>

datatype BitcoinInputType = Standard | SegwitP2SH

record BitcoinTxInput =
  in_keys :: "StacksPublicKey list"
  num_required :: u64
  in_type :: BitcoinInputType

record BitcoinTxOutput =
  out_address :: BitcoinAddress
  units :: u64

record BitcoinTransaction =
  tx_txid :: bytes
  tx_vtxindex :: u32
  tx_opcode :: u8
  tx_data :: bytes
  tx_inputs :: "BitcoinTxInput list"
  tx_outputs :: "BitcoinTxOutput list"

record BurnchainSigner =
  hash_mode :: AddressHashMode
  num_sigs :: u64
  public_keys :: "StacksPublicKey list"

record BurnchainRecipient =
  rcpt_address :: StacksAddress
  rcpt_amount :: u64

datatype BurnchainTransaction = Bitcoin BitcoinTransaction

definition from_bitcoin_input :: "BitcoinTxInput \<Rightarrow> BurnchainSigner" where
  "from_bitcoin_input inp =
     (let single = num_required inp = 1 \<and> length (in_keys inp) = 1 in
      \<lparr>hash_mode = (case in_type inp of
          Standard \<Rightarrow> if single then SerializeP2PKH else SerializeP2SH
        | SegwitP2SH \<Rightarrow> if single then SerializeP2WPKH else SerializeP2WSH),
       num_sigs = num_required inp, public_keys = in_keys inp\<rparr>)"

definition to_address_bits :: "externals \<Rightarrow> BurnchainSigner \<Rightarrow> ('e, bytes) res" where
  "to_address_bits X s = public_keys_to_address_hash X (hash_mode s) (num_sigs s) (public_keys s)"

definition from_bitcoin_output :: "BitcoinTxOutput \<Rightarrow> ('e, BurnchainRecipient) res" where
  "from_bitcoin_output out =
     and_then (from_bitcoin_address (out_address out)) (\<lambda>stacks_addr.
     Ok \<lparr>rcpt_address = stacks_addr, rcpt_amount = units out\<rparr>)"

primrec btx_txid :: "BurnchainTransaction \<Rightarrow> bytes" where
  "btx_txid (Bitcoin btc) = tx_txid btc"

primrec btx_vtxindex :: "BurnchainTransaction \<Rightarrow> u32" where
  "btx_vtxindex (Bitcoin btc) = tx_vtxindex btc"

primrec btx_opcode :: "BurnchainTransaction \<Rightarrow> u8" where
  "btx_opcode (Bitcoin btc) = tx_opcode btc"

primrec btx_data :: "BurnchainTransaction \<Rightarrow> bytes" where
  "btx_data (Bitcoin btc) = tx_data btc"

primrec get_signers :: "BurnchainTransaction \<Rightarrow> BurnchainSigner list" where
  "get_signers (Bitcoin btc) = map from_bitcoin_input (tx_inputs btc)"

primrec get_recipients :: "BurnchainTransaction \<Rightarrow> ('e, BurnchainRecipient list) res" where
  "get_recipients (Bitcoin btc) = map_res from_bitcoin_output (tx_outputs btc)"

record BitcoinBlock =
  btcblk_height :: u64
  btcblk_hash :: bytes
  btcblk_parent_hash :: bytes
  btcblk_txs :: "BitcoinTransaction list"
  btcblk_timestamp :: u64

datatype BurnchainBlock = BitcoinBlk BitcoinBlock

record BurnchainBlockHeader =
  hdr_block_height :: u64
  hdr_block_hash :: bytes
  hdr_parent_block_hash :: bytes
  hdr_num_txs :: u64
  hdr_timestamp :: u64

primrec block_txs :: "BurnchainBlock \<Rightarrow> BurnchainTransaction list" where
  "block_txs (BitcoinBlk data) = map Bitcoin (btcblk_txs data)"

primrec block_header :: "BurnchainBlock \<Rightarrow> BurnchainBlockHeader" where
  "block_header (BitcoinBlk data) =
     \<lparr>hdr_block_height = btcblk_height data, hdr_block_hash = btcblk_hash data,
      hdr_parent_block_hash = btcblk_parent_hash data,
      hdr_num_txs = of_nat (length (btcblk_txs data)), hdr_timestamp = btcblk_timestamp data\<rparr>"

section \<open>Version bytes\<close>

lemma b52_c32_inverse: "to_c32_version_byte b = Some c \<longleftrightarrow> to_b52_version_byte c = Some b"
  by (auto simp: to_c32_version_byte_def to_b52_version_byte_def)

lemma version_byte_inverse:
  "version_byte_to_address_type b = Some (t, net) \<Longrightarrow> address_type_to_version_byte t net = b"
  by (auto simp: version_byte_to_address_type_def split: if_splits)

text \<open>The Stacks version byte of a Bitcoin address type on a network.\<close>

definition stacks_version :: "BitcoinAddressType \<Rightarrow> BitcoinNetworkType \<Rightarrow> u8" where
  "stacks_version t net =
     (case t of PublicKeyHash \<Rightarrow> if net = Mainnet then 22 else 26 | ScriptHash \<Rightarrow> if net = Mainnet then 20 else 21)"

lemma version_chain:
  "to_c32_version_byte (address_type_to_version_byte t net) = Some (stacks_version t net)"
  by (cases t; cases net) (simp_all add: to_c32_version_byte_def stacks_version_def)

lemma from_bitcoin_address_Ok [simp]:
  "from_bitcoin_address a = Ok \<lparr>addr_version = stacks_version (addrtype a) (network_id a), addr_bytes = btc_bytes a\<rparr>"
  by (simp add: from_bitcoin_address_def version_chain expect_def)

definition recipient_of :: "BitcoinTxOutput \<Rightarrow> BurnchainRecipient" where
  "recipient_of out =
     \<lparr>rcpt_address = \<lparr>addr_version = stacks_version (addrtype (out_address out)) (network_id (out_address out)),
                      addr_bytes = btc_bytes (out_address out)\<rparr>,
      rcpt_amount = units out\<rparr>"

lemma from_bitcoin_output_Ok [simp]: "from_bitcoin_output out = Ok (recipient_of out)"
  by (simp add: from_bitcoin_output_def recipient_of_def)

primrec recipients_of :: "BurnchainTransaction \<Rightarrow> BurnchainRecipient list" where
  "recipients_of (Bitcoin btc) = map recipient_of (tx_outputs btc)"

lemma get_recipients_Ok [simp]: "get_recipients tx = Ok (recipients_of tx)"
  by (cases tx) (simp add: map_res_Ok)

lemma to_bitcoin_tx_out_Ok:
  assumes "addr_version a = stacks_version t net" "length (addr_bytes a) = 20"
  shows "to_bitcoin_tx_out a v = Ok \<lparr>txout_value = v, script_pubkey =
    (case t of PublicKeyHash \<Rightarrow> [0x76, 0xa9, 0x14] @ addr_bytes a @ [0x88, 0xac]
             | ScriptHash \<Rightarrow> [0xa9, 0x14] @ addr_bytes a @ [0x87])\<rparr>"
  using assms
  by (cases t; cases net)
    (simp_all add: to_bitcoin_tx_out_def to_b52_version_byte_def version_byte_to_address_type_def expect_def
      stacks_version_def to_p2pkh_tx_out_def to_p2sh_tx_out_def push_slice_def push_opcode_def)

lemma from_scriptpubkey_p2pkh:
  "length bs = 20 \<Longrightarrow> from_scriptpubkey net ([0x76, 0xa9, 0x14] @ bs @ [0x88, 0xac]) =
     Some \<lparr>addrtype = PublicKeyHash, network_id = net, btc_bytes = bs\<rparr>"
  by (simp add: from_scriptpubkey_def slice_def)

lemma from_scriptpubkey_p2sh:
  "length bs = 20 \<Longrightarrow> from_scriptpubkey net ([0xa9, 0x14] @ bs @ [0x87]) =
     Some \<lparr>addrtype = ScriptHash, network_id = net, btc_bytes = bs\<rparr>"
  by (simp add: from_scriptpubkey_def slice_def nth_append)

lemma pay_and_read_back:
  assumes "addr_version a = stacks_version t net" "length (addr_bytes a) = 20"
  shows "\<exists>txout b. to_bitcoin_tx_out a v = Ok txout \<and> txout_value txout = v \<and>
    from_scriptpubkey net (script_pubkey txout) = Some b \<and> from_bitcoin_address b = Ok a"
proof -
  let ?b = "\<lparr>addrtype = t, network_id = net, btc_bytes = addr_bytes a\<rparr>"
  let ?s = "case t of PublicKeyHash \<Rightarrow> [0x76, 0xa9, 0x14] @ addr_bytes a @ [0x88, 0xac]
    | ScriptHash \<Rightarrow> [0xa9, 0x14] @ addr_bytes a @ [0x87]"
  have "from_scriptpubkey net ?s = Some ?b"
    using from_scriptpubkey_p2pkh [OF assms(2)] from_scriptpubkey_p2sh [OF assms(2)] by (cases t) simp_all
  moreover have "from_bitcoin_address ?b = Ok a"
    using assms(1) by (cases a) simp
  ultimately show ?thesis using to_bitcoin_tx_out_Ok [OF assms, of v]
    by (intro exI [of _ "\<lparr>txout_value = v, script_pubkey = ?s\<rparr>"] exI [of _ ?b]) simp
qed

lemma stacks_address_codec:
  "length (addr_bytes a) = 20 \<Longrightarrow> stacks_address_deserialize (stacks_address_serialize a @ rest) = Ok (a, rest)"
  by (simp add: stacks_address_deserialize_def stacks_address_serialize_def read_exact_def to_be_bytes_def
      from_be_bytes_def expect_def array_from_bytes_def)

end
