(* ===== verification/BurnOps.thy ===== *)
theory BurnOps
  imports Addresses
begin

text \<open>
  The three burnchain operations (\<^verbatim>\<open>src/chainstate/burn/operations/\<close>): their data, the wire formats
  (\<^verbatim>\<open>parse_data\<close>, \<^verbatim>\<open>consensus_serialize\<close>) and the recognition of an operation in a burnchain
  transaction (\<^verbatim>\<open>parse_from_tx\<close>). The \<^verbatim>\<open>unwrap\<close> and \<^verbatim>\<open>expect\<close> calls of the parsers are kept as possible
  panics. The checks against the sortition database are in theory \<open>OpChecks\<close>.

  The lemmas show that the parsers never panic, what an accepted operation satisfies, and that
  parsing the serialized payload of an operation gives its fields back (up to the 25 bytes of memo
  and the 19 bytes of consensus hash that the wire formats carry), and that parsing is canonical.
\<close>

section \<open>Errors\<close>

datatype db_error =
  NotImplemented | NoDBError | ReadOnly | TypeError | Corruption | SerializationError | DBParseError
  | Overflow | NotFoundError | ExistsError | InvalidPoxSortition | SqliteError | IOError | IndexError | Other

datatype op_error =
  ParseError | InvalidInput | DBError db_error
  | BlockCommitPredatesGenesis | BlockCommitAlreadyExists | BlockCommitNoLeaderKey
  | BlockCommitNoParent | BlockCommitBadInput | BlockCommitBadOutputs | BlockCommitAnchorCheck
  | LeaderKeyAlreadyRegistered | LeaderKeyBadConsensusHash
  | UserBurnSupportBadConsensusHash | UserBurnSupportNoLeaderKey

section \<open>Operations\<close>

record LeaderBlockCommitOp =
  bc_block_header_hash :: bytes
  bc_new_seed :: bytes
  bc_parent_block_ptr :: u32
  bc_parent_vtxindex :: u16
  bc_key_block_ptr :: u32
  bc_key_vtxindex :: u16
  bc_memo :: bytes
  bc_burn_fee :: u64
  bc_input :: BurnchainSigner
  bc_commit_outs :: "StacksAddress list"
  bc_txid :: bytes
  bc_vtxindex :: u32
  bc_block_height :: u64
  bc_burn_header_hash :: bytes

record LeaderKeyRegisterOp =
  lk_consensus_hash :: bytes
  lk_public_key :: bytes
  lk_memo :: bytes
  lk_address :: StacksAddress
  lk_txid :: bytes
  lk_vtxindex :: u32
  lk_block_height :: u64
  lk_burn_header_hash :: bytes

record UserBurnSupportOp =
  ub_address :: StacksAddress
  ub_consensus_hash :: bytes
  ub_public_key :: bytes
  ub_key_block_ptr :: u32
  ub_key_vtxindex :: u16
  ub_block_header_hash_160 :: bytes
  ub_burn_fee :: u64
  ub_txid :: bytes
  ub_vtxindex :: u32
  ub_block_height :: u64
  ub_burn_header_hash :: bytes

datatype BlockstackOperationType =
  LeaderKeyRegister LeaderKeyRegisterOp
  | LeaderBlockCommit LeaderBlockCommitOp
  | UserBurnSupport UserBurnSupportOp

datatype Opcodes = LeaderBlockCommitOpcode | LeaderKeyRegisterOpcode | UserBurnSupportOpcode

primrec opcode_byte :: "Opcodes \<Rightarrow> u8" where
  "opcode_byte LeaderBlockCommitOpcode = 91"
| "opcode_byte LeaderKeyRegisterOpcode = 94"
| "opcode_byte UserBurnSupportOpcode = 95"

primrec op_opcode :: "BlockstackOperationType \<Rightarrow> Opcodes" where
  "op_opcode (LeaderKeyRegister _) = LeaderKeyRegisterOpcode"
| "op_opcode (LeaderBlockCommit _) = LeaderBlockCommitOpcode"
| "op_opcode (UserBurnSupport _) = UserBurnSupportOpcode"

primrec op_txid :: "BlockstackOperationType \<Rightarrow> bytes" where
  "op_txid (LeaderKeyRegister data) = lk_txid data"
| "op_txid (LeaderBlockCommit data) = bc_txid data"
| "op_txid (UserBurnSupport data) = ub_txid data"

primrec op_vtxindex :: "BlockstackOperationType \<Rightarrow> u32" where
  "op_vtxindex (LeaderKeyRegister data) = lk_vtxindex data"
| "op_vtxindex (LeaderBlockCommit data) = bc_vtxindex data"
| "op_vtxindex (UserBurnSupport data) = ub_vtxindex data"

primrec op_block_height :: "BlockstackOperationType \<Rightarrow> u64" where
  "op_block_height (LeaderKeyRegister data) = lk_block_height data"
| "op_block_height (LeaderBlockCommit data) = bc_block_height data"
| "op_block_height (UserBurnSupport data) = ub_block_height data"

primrec op_burn_header_hash :: "BlockstackOperationType \<Rightarrow> bytes" where
  "op_burn_header_hash (LeaderKeyRegister data) = lk_burn_header_hash data"
| "op_burn_header_hash (LeaderBlockCommit data) = bc_burn_header_hash data"
| "op_burn_header_hash (UserBurnSupport data) = ub_burn_header_hash data"

definition parse_u32_from_be :: "bytes \<Rightarrow> u32 option" where
  "parse_u32_from_be bs = map_option from_be_bytes (array_from_bytes 4 bs)"

definition parse_u16_from_be :: "bytes \<Rightarrow> u16 option" where
  "parse_u16_from_be bs = map_option from_be_bytes (array_from_bytes 2 bs)"

definition VRFPublicKey_from_bytes :: "externals \<Rightarrow> bytes \<Rightarrow> bytes option" where
  "VRFPublicKey_from_bytes X pubkey_bytes =
     (if length pubkey_bytes = 32 then
        if \<not> edwards_decompresses X pubkey_bytes then None
        else if ed25519_accepts X pubkey_bytes then Some pubkey_bytes else None
      else None)"

section \<open>Leader block commits\<close>

record CommitParsedData =
  cd_block_header_hash :: bytes
  cd_new_seed :: bytes
  cd_parent_block_ptr :: u32
  cd_parent_vtxindex :: u16
  cd_key_block_ptr :: u32
  cd_key_vtxindex :: u16
  cd_memo :: bytes

definition commit_parse_data :: "bytes \<Rightarrow> ('e, CommitParsedData option) res" where
  "commit_parse_data data =
     (if length data < 77 then Ok None
      else and_then (expect (array_from_bytes 32 (slice 0 32 data))) (\<lambda>block_header_hash.
        and_then (expect (array_from_bytes 32 (slice 32 64 data))) (\<lambda>new_seed.
        and_then (expect (parse_u32_from_be (slice 64 68 data))) (\<lambda>parent_block_ptr.
        and_then (expect (parse_u16_from_be (slice 68 70 data))) (\<lambda>parent_vtxindex.
        and_then (expect (parse_u32_from_be (slice 70 74 data))) (\<lambda>key_block_ptr.
        and_then (expect (parse_u16_from_be (slice 74 76 data))) (\<lambda>key_vtxindex.
        Ok (Some \<lparr>cd_block_header_hash = block_header_hash, cd_new_seed = new_seed,
                   cd_parent_block_ptr = parent_block_ptr, cd_parent_vtxindex = parent_vtxindex,
                   cd_key_block_ptr = key_block_ptr, cd_key_vtxindex = key_vtxindex,
                   cd_memo = slice 76 77 data\<rparr>))))))))"

definition OUTPUTS_PER_COMMIT :: nat where
  "OUTPUTS_PER_COMMIT = 1"

text \<open>The loop over the outputs of a commit: the state is \<open>(commit_outs, pox_fee, burn_fee)\<close>.\<close>

fun commit_outputs_loop :: "nat \<Rightarrow> BurnchainRecipient list \<Rightarrow> StacksAddress list \<Rightarrow> u64 option \<Rightarrow> u64 option
    \<Rightarrow> (op_error, StacksAddress list \<times> u64 option \<times> u64 option) res" where
  "commit_outputs_loop ix [] commit_outs pox_fee burn_fee = Ok (commit_outs, pox_fee, burn_fee)"
| "commit_outputs_loop ix (out # outs) commit_outs pox_fee burn_fee =
     (if ix \<ge> OUTPUTS_PER_COMMIT then Ok (commit_outs, pox_fee, burn_fee)
      else if is_burn (rcpt_address out) then Ok (commit_outs, pox_fee, Some (rcpt_amount out))
      else case pox_fee of
        Some fee \<Rightarrow>
          if rcpt_amount out \<noteq> fee then Err ParseError
          else commit_outputs_loop (ix + 1) outs (commit_outs @ [rcpt_address out]) pox_fee burn_fee
      | None \<Rightarrow>
          commit_outputs_loop (ix + 1) outs (commit_outs @ [rcpt_address out]) (Some (rcpt_amount out)) burn_fee)"

definition commit_total_fee :: "StacksAddress list \<Rightarrow> u64 option \<Rightarrow> u64 option \<Rightarrow> (op_error, u64) res" where
  "commit_total_fee commit_outs pox_fee burn_fee =
     (case (burn_fee, pox_fee) of
        (Some burned_amount, Some pox_amount) \<Rightarrow>
          and_then (ok_or (checked_mul pox_amount (of_nat (OUTPUTS_PER_COMMIT - length commit_outs))) ParseError)
            (\<lambda>expected_burn_amount.
             if expected_burn_amount \<noteq> burned_amount then Err ParseError
             else ok_or (checked_mul pox_amount (of_nat OUTPUTS_PER_COMMIT)) ParseError)
      | (Some burned_amount, None) \<Rightarrow> Ok burned_amount
      | (None, Some pox_amount) \<Rightarrow> ok_or (checked_mul pox_amount (of_nat OUTPUTS_PER_COMMIT)) ParseError
      | (None, None) \<Rightarrow> Panic)"

definition commit_parse_from_tx :: "u64 \<Rightarrow> bytes \<Rightarrow> BurnchainTransaction \<Rightarrow> (op_error, LeaderBlockCommitOp) res" where
  "commit_parse_from_tx block_height block_hash tx =
     and_then (get_recipients tx) (\<lambda>outputs.
     let inputs = get_signers tx in
     if length inputs = 0 then Err InvalidInput
     else if length outputs = 0 then Err InvalidInput
     else if btx_opcode tx \<noteq> opcode_byte LeaderBlockCommitOpcode then Err InvalidInput
     else and_then (commit_parse_data (btx_data tx)) (\<lambda>parsed.
       and_then (ok_or parsed ParseError) (\<lambda>data.
       if cd_parent_block_ptr data = 0 \<and> cd_parent_vtxindex data \<noteq> 0 then Err ParseError
       else if (ucast (cd_parent_block_ptr data) :: u64) \<ge> block_height then Err ParseError
       else if cd_key_block_ptr data = 0 then Err ParseError
       else if (ucast (cd_key_block_ptr data) :: u64) \<ge> block_height then Err ParseError
       else and_then (commit_outputs_loop 0 outputs [] None None) (\<lambda>(commit_outs, pox_fee, burn_fee).
         if burn_fee = None \<and> length commit_outs \<noteq> OUTPUTS_PER_COMMIT then Err ParseError
         else and_then (commit_total_fee commit_outs pox_fee burn_fee) (\<lambda>burn_fee.
           if burn_fee = 0 then Err ParseError
           else and_then (nth_res inputs 0) (\<lambda>input.
             Ok \<lparr>bc_block_header_hash = cd_block_header_hash data, bc_new_seed = cd_new_seed data,
                 bc_parent_block_ptr = cd_parent_block_ptr data, bc_parent_vtxindex = cd_parent_vtxindex data,
                 bc_key_block_ptr = cd_key_block_ptr data, bc_key_vtxindex = cd_key_vtxindex data,
                 bc_memo = cd_memo data, bc_burn_fee = burn_fee, bc_input = input,
                 bc_commit_outs = commit_outs, bc_txid = btx_txid tx, bc_vtxindex = btx_vtxindex tx,
                 bc_block_height = block_height, bc_burn_header_hash = block_hash\<rparr>))))))"

definition commit_serialize :: "LeaderBlockCommitOp \<Rightarrow> bytes" where
  "commit_serialize op =
     to_be_bytes 1 (opcode_byte LeaderBlockCommitOpcode) @ bc_block_header_hash op @ bc_new_seed op
     @ to_be_bytes 4 (bc_parent_block_ptr op) @ to_be_bytes 2 (bc_parent_vtxindex op)
     @ to_be_bytes 4 (bc_key_block_ptr op) @ to_be_bytes 2 (bc_key_vtxindex op)
     @ to_be_bytes 1 (if length (bc_memo op) > 0 then bc_memo op ! 0 else 0)"

definition commit_from_tx :: "BurnchainBlockHeader \<Rightarrow> BurnchainTransaction \<Rightarrow> (op_error, LeaderBlockCommitOp) res" where
  "commit_from_tx header tx = commit_parse_from_tx (hdr_block_height header) (hdr_block_hash header) tx"

section \<open>Leader key registrations\<close>

record KeyParsedData =
  kd_consensus_hash :: bytes
  kd_public_key :: bytes
  kd_memo :: bytes

definition key_parse_data :: "externals \<Rightarrow> bytes \<Rightarrow> ('e, KeyParsedData option) res" where
  "key_parse_data X data =
     (if length data < 52 then Ok None
      else and_then (expect (array_from_bytes 20 (slice 0 20 data))) (\<lambda>consensus_hash.
        case VRFPublicKey_from_bytes X (slice 20 52 data) of
          None \<Rightarrow> Ok None
        | Some pubkey \<Rightarrow> Ok (Some \<lparr>kd_consensus_hash = consensus_hash, kd_public_key = pubkey, kd_memo = drop 52 data\<rparr>)))"

definition key_parse_from_tx :: "externals \<Rightarrow> u64 \<Rightarrow> bytes \<Rightarrow> BurnchainTransaction \<Rightarrow> (op_error, LeaderKeyRegisterOp) res" where
  "key_parse_from_tx X block_height block_hash tx =
     and_then (get_recipients tx) (\<lambda>outputs.
     let inputs = get_signers tx in
     if length inputs = 0 then Err InvalidInput
     else if length outputs < 1 then Err InvalidInput
     else if btx_opcode tx \<noteq> opcode_byte LeaderKeyRegisterOpcode then Err InvalidInput
     else and_then (key_parse_data X (btx_data tx)) (\<lambda>parsed.
       case parsed of None \<Rightarrow> Err ParseError
       | Some data \<Rightarrow> and_then (nth_res outputs 0) (\<lambda>out0.
           Ok \<lparr>lk_consensus_hash = kd_consensus_hash data, lk_public_key = kd_public_key data,
               lk_memo = kd_memo data, lk_address = rcpt_address out0, lk_txid = btx_txid tx,
               lk_vtxindex = btx_vtxindex tx, lk_block_height = block_height,
               lk_burn_header_hash = block_hash\<rparr>)))"

definition key_serialize :: "LeaderKeyRegisterOp \<Rightarrow> bytes" where
  "key_serialize op =
     to_be_bytes 1 (opcode_byte LeaderKeyRegisterOpcode) @ lk_consensus_hash op @ lk_public_key op
     @ (if length (lk_memo op) \<le> 25 then lk_memo op else slice 0 25 (lk_memo op))"

definition key_from_tx :: "externals \<Rightarrow> BurnchainBlockHeader \<Rightarrow> BurnchainTransaction \<Rightarrow> (op_error, LeaderKeyRegisterOp) res" where
  "key_from_tx X header tx = key_parse_from_tx X (hdr_block_height header) (hdr_block_hash header) tx"

section \<open>User burn supports\<close>

record BurnParsedData =
  ud_consensus_hash :: bytes
  ud_public_key :: bytes
  ud_key_block_ptr :: u32
  ud_key_vtxindex :: u16
  ud_block_header_hash_160 :: bytes

definition burn_parse_data :: "externals \<Rightarrow> bytes \<Rightarrow> ('e, BurnParsedData option) res" where
  "burn_parse_data X data =
     (if length data < 77 then Ok None
      else and_then (expect (array_from_bytes 20 (slice 0 19 data @ [0]))) (\<lambda>consensus_hash.
        case VRFPublicKey_from_bytes X (slice 19 51 data) of
          None \<Rightarrow> Ok None
        | Some pubkey \<Rightarrow>
            and_then (expect (array_from_bytes 20 (slice 51 71 data))) (\<lambda>block_header_hash_160.
            and_then (expect (parse_u32_from_be (slice 71 75 data))) (\<lambda>key_block_ptr.
            and_then (expect (parse_u16_from_be (slice 75 77 data))) (\<lambda>key_vtxindex.
            Ok (Some \<lparr>ud_consensus_hash = consensus_hash, ud_public_key = pubkey,
                       ud_key_block_ptr = key_block_ptr, ud_key_vtxindex = key_vtxindex,
                       ud_block_header_hash_160 = block_header_hash_160\<rparr>))))))"

definition burn_parse_from_tx :: "externals \<Rightarrow> u64 \<Rightarrow> bytes \<Rightarrow> BurnchainTransaction \<Rightarrow> (op_error, UserBurnSupportOp) res" where
  "burn_parse_from_tx X block_height block_hash tx =
     and_then (get_recipients tx) (\<lambda>outputs.
     let inputs = get_signers tx in
     if length inputs = 0 \<or> length outputs = 0 then Err InvalidInput
     else if length outputs < 2 then Err InvalidInput
     else if btx_opcode tx \<noteq> opcode_byte UserBurnSupportOpcode then Err InvalidInput
     else and_then (nth_res outputs 0) (\<lambda>out0.
       if \<not> is_burn (rcpt_address out0) then Err ParseError
       else and_then (burn_parse_data X (btx_data tx)) (\<lambda>parsed.
         case parsed of None \<Rightarrow> Err ParseError
         | Some data \<Rightarrow>
             if ud_key_block_ptr data = 0 then Err ParseError
             else if (ucast (ud_key_block_ptr data) :: u64) > block_height then Err ParseError
             else and_then (nth_res outputs 1) (\<lambda>out1.
               Ok \<lparr>ub_address = rcpt_address out1, ub_consensus_hash = ud_consensus_hash data,
                   ub_public_key = ud_public_key data, ub_key_block_ptr = ud_key_block_ptr data,
                   ub_key_vtxindex = ud_key_vtxindex data,
                   ub_block_header_hash_160 = ud_block_header_hash_160 data,
                   ub_burn_fee = rcpt_amount out0, ub_txid = btx_txid tx, ub_vtxindex = btx_vtxindex tx,
                   ub_block_height = block_height, ub_burn_header_hash = block_hash\<rparr>))))"

definition burn_serialize :: "UserBurnSupportOp \<Rightarrow> bytes" where
  "burn_serialize op =
     to_be_bytes 1 (opcode_byte UserBurnSupportOpcode) @ slice 0 19 (ub_consensus_hash op) @ ub_public_key op
     @ ub_block_header_hash_160 op @ to_be_bytes 4 (ub_key_block_ptr op) @ to_be_bytes 2 (ub_key_vtxindex op)"

definition burn_from_tx :: "externals \<Rightarrow> BurnchainBlockHeader \<Rightarrow> BurnchainTransaction \<Rightarrow> (op_error, UserBurnSupportOp) res" where
  "burn_from_tx X header tx = burn_parse_from_tx X (hdr_block_height header) (hdr_block_hash header) tx"

section \<open>The wire formats\<close>

lemma to_from_be_bytes_length:
  "length bs = n \<Longrightarrow> 8 * n \<le> LENGTH('a::len) \<Longrightarrow> to_be_bytes n (from_be_bytes bs :: 'a word) = bs"
  using to_from_be_bytes [of bs, where 'a = 'a] by simp

lemma to_be_bytes_1 [simp]: "to_be_bytes 1 (b :: u8) = [b]" "to_be_bytes (Suc 0) (b :: u8) = [b]"
  by (simp_all add: to_be_bytes_def)

lemmas parse_simps = parse_u32_from_be_def parse_u16_from_be_def array_from_bytes_def expect_def

lemma commit_parse_data_eq:
  "commit_parse_data data =
     Ok (if length data < 77 then None
         else Some \<lparr>cd_block_header_hash = slice 0 32 data, cd_new_seed = slice 32 64 data,
                cd_parent_block_ptr = from_be_bytes (slice 64 68 data),
                cd_parent_vtxindex = from_be_bytes (slice 68 70 data),
                cd_key_block_ptr = from_be_bytes (slice 70 74 data),
                cd_key_vtxindex = from_be_bytes (slice 74 76 data), cd_memo = slice 76 77 data\<rparr>)"
  by (simp add: commit_parse_data_def parse_simps)

lemma key_parse_data_eq:
  "key_parse_data X data =
     Ok (if length data < 52 then None
         else map_option (\<lambda>k. \<lparr>kd_consensus_hash = slice 0 20 data, kd_public_key = k, kd_memo = drop 52 data\<rparr>)
                (VRFPublicKey_from_bytes X (slice 20 52 data)))"
  by (simp add: key_parse_data_def parse_simps split: option.split)

lemma burn_parse_data_eq:
  "burn_parse_data X data =
     Ok (if length data < 77 then None
         else map_option (\<lambda>k. \<lparr>ud_consensus_hash = slice 0 19 data @ [0], ud_public_key = k,
                  ud_key_block_ptr = from_be_bytes (slice 71 75 data),
                  ud_key_vtxindex = from_be_bytes (slice 75 77 data),
                  ud_block_header_hash_160 = slice 51 71 data\<rparr>)
                (VRFPublicKey_from_bytes X (slice 19 51 data)))"
  by (simp add: burn_parse_data_def parse_simps split: option.split)

lemma commit_payload_parse:
  assumes "length (bc_block_header_hash op) = 32" "length (bc_new_seed op) = 32"
  shows "commit_parse_data (tl (commit_serialize op)) =
    Ok (Some \<lparr>cd_block_header_hash = bc_block_header_hash op, cd_new_seed = bc_new_seed op,
               cd_parent_block_ptr = bc_parent_block_ptr op, cd_parent_vtxindex = bc_parent_vtxindex op,
               cd_key_block_ptr = bc_key_block_ptr op, cd_key_vtxindex = bc_key_vtxindex op,
               cd_memo = [if bc_memo op = [] then 0 else hd (bc_memo op)]\<rparr>)"
  using assms
  by (simp add: commit_parse_data_eq commit_serialize_def slice_def hd_conv_nth)

lemma commit_parse_canonical:
  assumes "commit_parse_data data = Ok (Some d)"
    and "bc_block_header_hash op = cd_block_header_hash d" "bc_new_seed op = cd_new_seed d"
    and "bc_parent_block_ptr op = cd_parent_block_ptr d" "bc_parent_vtxindex op = cd_parent_vtxindex d"
    and "bc_key_block_ptr op = cd_key_block_ptr d" "bc_key_vtxindex op = cd_key_vtxindex d"
    and "bc_memo op = cd_memo d"
  shows "commit_serialize op = opcode_byte LeaderBlockCommitOpcode # take 77 data"
proof -
  have len: "77 \<le> length data" and d: "d = \<lparr>cd_block_header_hash = slice 0 32 data, cd_new_seed = slice 32 64 data,
                cd_parent_block_ptr = from_be_bytes (slice 64 68 data),
                cd_parent_vtxindex = from_be_bytes (slice 68 70 data),
                cd_key_block_ptr = from_be_bytes (slice 70 74 data),
                cd_key_vtxindex = from_be_bytes (slice 74 76 data), cd_memo = slice 76 77 data\<rparr>"
    using assms(1) by (auto simp: commit_parse_data_eq split: if_splits)
  have "[slice 76 77 data ! 0] = slice 76 77 data"
    using len by (auto simp: slice_def take_Suc hd_conv_nth)
  moreover have "take 77 data = slice 0 77 data" by (simp add: slice_def)
  moreover have "slice 0 32 data @ slice 32 64 data @ slice 64 68 data @ slice 68 70 data @ slice 70 74 data
      @ slice 74 76 data @ slice 76 77 data = slice 0 77 data"
    by (simp add: slice_cat)
  ultimately show ?thesis
    using len by (simp add: commit_serialize_def assms(2-) d to_from_be_bytes_length)
qed

lemma VRFPublicKey_from_bytes_Some:
  "VRFPublicKey_from_bytes X bs = Some k \<longleftrightarrow>
     k = bs \<and> length bs = 32 \<and> edwards_decompresses X bs \<and> ed25519_accepts X bs"
  by (auto simp: VRFPublicKey_from_bytes_def)

lemma key_payload_parse:
  assumes "length (lk_consensus_hash op) = 20" "VRFPublicKey_from_bytes X (lk_public_key op) = Some (lk_public_key op)"
  shows "key_parse_data X (tl (key_serialize op)) =
    Ok (Some \<lparr>kd_consensus_hash = lk_consensus_hash op, kd_public_key = lk_public_key op,
               kd_memo = take 25 (lk_memo op)\<rparr>)"
  using assms by (auto simp: key_parse_data_eq key_serialize_def slice_def VRFPublicKey_from_bytes_Some)

lemma burn_payload_parse:
  assumes "length (ub_consensus_hash op) = 20" "length (ub_block_header_hash_160 op) = 20"
    and "VRFPublicKey_from_bytes X (ub_public_key op) = Some (ub_public_key op)"
  shows "burn_parse_data X (tl (burn_serialize op)) =
    Ok (Some \<lparr>ud_consensus_hash = take 19 (ub_consensus_hash op) @ [0], ud_public_key = ub_public_key op,
               ud_key_block_ptr = ub_key_block_ptr op, ud_key_vtxindex = ub_key_vtxindex op,
               ud_block_header_hash_160 = ub_block_header_hash_160 op\<rparr>)"
  using assms by (auto simp: burn_parse_data_eq burn_serialize_def slice_def VRFPublicKey_from_bytes_Some)

section \<open>What an accepted transaction satisfies\<close>

lemma commit_outputs_eq:
  "commit_outputs_loop 0 (out # outs) [] None None =
     (if is_burn (rcpt_address out) then Ok ([], None, Some (rcpt_amount out))
      else Ok ([rcpt_address out], Some (rcpt_amount out), None))"
  by (cases outs) (simp_all add: OUTPUTS_PER_COMMIT_def)

lemma checked_mul_1 [simp]: "checked_mul a 1 = Some a"
  by (simp add: checked_mul_Some_iff)

text \<open>The outcome of \<^verbatim>\<open>parse_from_tx\<close> on every path.\<close>

lemma commit_parse_from_tx_eq:
  "commit_parse_from_tx height hash tx =
     (if get_signers tx = [] \<or> recipients_of tx = [] \<or> btx_opcode tx \<noteq> 91 then Err InvalidInput
      else case (commit_parse_data (btx_data tx) :: (op_error, _) res) of
        Ok (Some d) \<Rightarrow>
          if (cd_parent_block_ptr d = 0 \<and> cd_parent_vtxindex d \<noteq> 0)
             \<or> height \<le> ucast (cd_parent_block_ptr d) \<or> cd_key_block_ptr d = 0 \<or> height \<le> ucast (cd_key_block_ptr d)
             \<or> rcpt_amount (hd (recipients_of tx)) = 0
          then Err ParseError
          else Ok \<lparr>bc_block_header_hash = cd_block_header_hash d, bc_new_seed = cd_new_seed d,
                 bc_parent_block_ptr = cd_parent_block_ptr d, bc_parent_vtxindex = cd_parent_vtxindex d,
                 bc_key_block_ptr = cd_key_block_ptr d, bc_key_vtxindex = cd_key_vtxindex d,
                 bc_memo = cd_memo d, bc_burn_fee = rcpt_amount (hd (recipients_of tx)),
                 bc_input = hd (get_signers tx),
                 bc_commit_outs = (let a = rcpt_address (hd (recipients_of tx)) in if is_burn a then [] else [a]),
                 bc_txid = btx_txid tx, bc_vtxindex = btx_vtxindex tx,
                 bc_block_height = height, bc_burn_header_hash = hash\<rparr>
      | _ \<Rightarrow> Err ParseError)"
proof (cases "get_signers tx = [] \<or> recipients_of tx = []")
  case False
  then obtain s ss r rs where "get_signers tx = s # ss" "recipients_of tx = r # rs"
    by (meson list.exhaust)
  then show ?thesis
    by (auto simp: commit_parse_from_tx_def commit_parse_data_eq ok_or_def Let_def commit_outputs_eq commit_total_fee_def
        nth_res_def OUTPUTS_PER_COMMIT_def simp del: commit_outputs_loop.simps)
qed (auto simp: commit_parse_from_tx_def Let_def)

lemma commit_parse_from_tx_no_panic: "commit_parse_from_tx height hash tx \<noteq> Panic"
  by (simp add: commit_parse_from_tx_eq commit_parse_data_eq)

lemma key_parse_from_tx_no_panic: "key_parse_from_tx X height hash tx \<noteq> Panic"
  by (auto simp: key_parse_from_tx_def key_parse_data_eq Let_def nth_res_def split: option.splits)

lemma burn_parse_from_tx_no_panic: "burn_parse_from_tx X height hash tx \<noteq> Panic"
  by (auto simp: burn_parse_from_tx_def burn_parse_data_eq Let_def nth_res_def split: option.splits)

lemma commit_parse_from_tx_Ok:
  assumes "commit_parse_from_tx height hash tx = Ok op"
  shows "btx_opcode tx = 91" "0 < bc_burn_fee op" "bc_block_height op = height" "bc_burn_header_hash op = hash"
    "bc_txid op = btx_txid tx" "bc_vtxindex op = btx_vtxindex tx"
    "ucast (bc_parent_block_ptr op) < height" "0 < bc_key_block_ptr op" "ucast (bc_key_block_ptr op) < height"
    "bc_parent_block_ptr op = 0 \<Longrightarrow> bc_parent_vtxindex op = 0"
    "length (bc_commit_outs op) \<le> OUTPUTS_PER_COMMIT" "list_all (\<lambda>a. \<not> is_burn a) (bc_commit_outs op)"
    "length (bc_block_header_hash op) = 32" "length (bc_new_seed op) = 32" "length (bc_memo op) = 1"
  using assms
  by (auto simp: commit_parse_from_tx_eq commit_parse_data_eq OUTPUTS_PER_COMMIT_def Let_def word_gt_0
      split: if_splits)

lemma key_parse_from_tx_Ok:
  assumes "key_parse_from_tx X height hash tx = Ok op"
  shows "btx_opcode tx = 94" "lk_block_height op = height" "lk_burn_header_hash op = hash"
    "lk_txid op = btx_txid tx" "lk_vtxindex op = btx_vtxindex tx"
    "length (lk_consensus_hash op) = 20" "VRFPublicKey_from_bytes X (lk_public_key op) = Some (lk_public_key op)"
    "lk_address op = rcpt_address (hd (recipients_of tx))"
  using assms
  by (auto simp: key_parse_from_tx_def key_parse_data_eq Let_def nth_res_def VRFPublicKey_from_bytes_Some hd_conv_nth
      split: if_splits option.splits)

lemma burn_parse_from_tx_Ok:
  assumes "burn_parse_from_tx X height hash tx = Ok op"
  shows "btx_opcode tx = 95" "ub_block_height op = height" "ub_burn_header_hash op = hash"
    "ub_txid op = btx_txid tx" "ub_vtxindex op = btx_vtxindex tx"
    "0 < ub_key_block_ptr op" "ucast (ub_key_block_ptr op) \<le> height"
    "is_burn (rcpt_address (recipients_of tx ! 0))" "ub_burn_fee op = rcpt_amount (recipients_of tx ! 0)"
    "ub_address op = rcpt_address (recipients_of tx ! 1)"
    "length (ub_consensus_hash op) = 20" "last (ub_consensus_hash op) = 0"
    "VRFPublicKey_from_bytes X (ub_public_key op) = Some (ub_public_key op)"
  using assms
  by (auto simp: burn_parse_from_tx_def burn_parse_data_eq Let_def nth_res_def VRFPublicKey_from_bytes_Some word_gt_0
      split: if_splits option.splits)

section \<open>Properties\<close>

text \<open>C6. The payload that \<^verbatim>\<open>consensus_serialize\<close> writes for a block commit after the opcode byte parses
  back to the commit's fields; of the memo, the first byte (0 when there is none) is carried.\<close>

theorem commit_wire_round_trip:
  assumes "length (bc_block_header_hash op) = 32" "length (bc_new_seed op) = 32"
  shows "(commit_parse_data (tl (commit_serialize op)) :: (op_error, _) res) =
    Ok (Some \<lparr>cd_block_header_hash = bc_block_header_hash op, cd_new_seed = bc_new_seed op,
               cd_parent_block_ptr = bc_parent_block_ptr op, cd_parent_vtxindex = bc_parent_vtxindex op,
               cd_key_block_ptr = bc_key_block_ptr op, cd_key_vtxindex = bc_key_vtxindex op,
               cd_memo = [if bc_memo op = [] then 0 else hd (bc_memo op)]\<rparr>)"
  using assms by (rule commit_payload_parse)

definition example_commit :: LeaderBlockCommitOp where
  "example_commit = \<lparr>bc_block_header_hash = replicate 32 7, bc_new_seed = replicate 32 9,
     bc_parent_block_ptr = 0x01020304, bc_parent_vtxindex = 5, bc_key_block_ptr = 120, bc_key_vtxindex = 3,
     bc_memo = [31], bc_burn_fee = 10000,
     bc_input = \<lparr>hash_mode = SerializeP2PKH, num_sigs = 1, public_keys = []\<rparr>,
     bc_commit_outs = [], bc_txid = replicate 32 1, bc_vtxindex = 2, bc_block_height = 0x02000000,
     bc_burn_header_hash = replicate 32 2\<rparr>"

theorem commit_wire_round_trip_witness:
  "(commit_parse_data (tl (commit_serialize example_commit)) :: (op_error, _) res) =
    Ok (Some \<lparr>cd_block_header_hash = replicate 32 7, cd_new_seed = replicate 32 9,
               cd_parent_block_ptr = 0x01020304, cd_parent_vtxindex = 5,
               cd_key_block_ptr = 120, cd_key_vtxindex = 3, cd_memo = [31]\<rparr>)"
  using commit_wire_round_trip [of example_commit] by (simp add: example_commit_def)

end
