(* ===== verification/Uint_Arith.thy ===== *)
theory Uint_Arith
  imports Uint
begin

unbundle bit_operations_syntax

text \<open>
  What the limb-array code of \<^verbatim>\<open>src/util/uint.rs\<close> computes, stated on the natural number \<open>uval xs\<close>
  that a limb list stands for: every arithmetic operation of the theory \<open>Uint\<close> refines the
  operation on numbers, and the long division terminates with the exact quotient.
\<close>

section \<open>The value of a limb list\<close>

lemma uval_less: "uval xs < 2 ^ (64 * length xs)"
proof (induction xs)
  case (Cons x xs)
  have "unat x < 2 ^ 64" using unsigned_less [of x] by simp
  moreover have "uval xs + 1 \<le> 2 ^ (64 * length xs)" using Cons by simp
  then have "2 ^ 64 * (uval xs + 1) \<le> 2 ^ 64 * 2 ^ (64 * length xs)"
    by (rule mult_left_mono) simp
  ultimately show ?case by (simp add: power_add algebra_simps)
qed simp

lemma uval_append: "uval (xs @ ys) = uval xs + 2 ^ (64 * length xs) * uval ys"
  by (induction xs) (auto simp: algebra_simps power_add)

lemma uval_replicate_0 [simp]: "uval (replicate n 0) = 0"
  by (induction n) auto

lemma uval_take: "uval (take k xs) = uval xs mod 2 ^ (64 * k)"
proof (cases "k \<le> length xs")
  case True
  have "uval xs = uval (take k xs) + 2 ^ (64 * k) * uval (drop k xs)"
    using uval_append [of "take k xs" "drop k xs"] True by (simp add: min_absorb2)
  moreover have "uval (take k xs) < 2 ^ (64 * k)"
    using uval_less [of "take k xs"] True by (simp add: min_absorb2)
  ultimately show ?thesis by simp
next
  case False
  then have "uval xs < 2 ^ (64 * k)"
    by (intro less_le_trans [OF uval_less [of xs]] power_increasing) auto
  with False show ?thesis by simp
qed

lemma uval_drop: "uval (drop k xs) = uval xs div 2 ^ (64 * k)"
proof (cases "k \<le> length xs")
  case True
  have "uval xs = uval (take k xs) + 2 ^ (64 * k) * uval (drop k xs)"
    using uval_append [of "take k xs" "drop k xs"] True by (simp add: min_absorb2)
  moreover have "uval (take k xs) < 2 ^ (64 * k)"
    using uval_less [of "take k xs"] True by (simp add: min_absorb2)
  ultimately show ?thesis by simp
next
  case False
  then have "uval xs < 2 ^ (64 * k)"
    by (intro less_le_trans [OF uval_less [of xs]] power_increasing) auto
  with False show ?thesis by simp
qed

lemma uval_take_Suc:
  assumes "m < length xs"
  shows "uval (take (Suc m) xs) = uval (take m xs) + 2 ^ (64 * m) * unat (xs ! m)"
  using assms by (simp add: take_Suc_conv_app_nth uval_append min_absorb2)

lemma uval_inject: "length xs = length ys \<Longrightarrow> uval xs = uval ys \<Longrightarrow> xs = ys"
proof (induction xs ys rule: list_induct2)
  case (Cons x xs y ys)
  have "unat x < 2 ^ 64" "unat y < 2 ^ 64" using unsigned_less [of x] unsigned_less [of y] by simp_all
  moreover have e: "unat x + 2 ^ 64 * uval xs = unat y + 2 ^ 64 * uval ys" using Cons by simp
  ultimately have "unat x = unat y" by (metis mod_less mod_mult_self2)
  with e Cons show ?case by (simp add: word_unat_eq_iff)
qed simp

lemma bit_add_shifted:
  fixes a b :: nat
  assumes "a < 2 ^ k"
  shows "bit (a + 2 ^ k * b) j = (if j < k then bit a j else bit b (j - k))"
proof (cases "j < k")
  case True
  have "take_bit k (a + 2 ^ k * b) = a" using assms by (simp add: take_bit_eq_mod)
  with True show ?thesis by (metis bit_take_bit_iff)
next
  case False
  have "drop_bit k (a + 2 ^ k * b) = b" using assms by (simp add: drop_bit_eq_div)
  with False show ?thesis by (metis bit_drop_bit_eq comp_apply le_add_diff_inverse not_less)
qed

lemma bit_uval: "bit (uval xs) j \<longleftrightarrow> j div 64 < length xs \<and> bit (xs ! (j div 64)) (j mod 64)"
proof (induction xs arbitrary: j)
  case (Cons x xs)
  have x: "unat x < 2 ^ 64" using unsigned_less [of x] by simp
  show ?case
  proof (cases "j < 64")
    case True
    then show ?thesis using bit_add_shifted [OF x, of "uval xs" j]
      by (simp add: bit_unsigned_iff)
  next
    case False
    then have "j div 64 = Suc ((j - 64) div 64)" "(j - 64) mod 64 = j mod 64"
      by (auto simp: le_div_geq le_mod_geq)
    with False show ?thesis using bit_add_shifted [OF x, of "uval xs" j] Cons.IH [of "j - 64"]
      by simp
  qed
qed simp

section \<open>Addition and subtraction\<close>

lemma unat_add_carry:
  fixes x y :: u64
  shows "unat (x + y) + 2 ^ 64 * (if x + y < x then 1 else 0) = unat x + unat y"
proof (cases "unat x + unat y < 2 ^ 64")
  case True
  then have "unat (x + y) = unat x + unat y" using unat_add_lem [of x y] by simp
  then show ?thesis by (simp add: word_less_nat_alt)
next
  case False
  have "unat x < 2 ^ 64" "unat y < 2 ^ 64" using unsigned_less [of x] unsigned_less [of y] by simp_all
  with False have "unat (x + y) = unat x + unat y - 2 ^ 64"
    by (simp add: unat_word_ariths mod_if)
  moreover from this have "x + y < x"
    using False \<open>unat y < 2 ^ 64\<close> by (simp add: word_less_nat_alt)
  ultimately show ?thesis using False by simp
qed

definition carries :: "uint \<Rightarrow> uint \<Rightarrow> uint" where
  "carries me you = map2 (\<lambda>x y. if x + y < x then 1 else 0) me you"

lemma uval_map2_add:
  assumes "length you = length me"
  shows "uval (map2 (+) me you) + 2 ^ 64 * uval (carries me you) = uval me + uval you"
  using assms [symmetric]
proof (induction me you rule: list_induct2)
  case (Cons x xs y ys)
  have "uval (map2 (+) (x # xs) (y # ys)) + 2 ^ 64 * uval (carries (x # xs) (y # ys)) =
     unat (x + y) + 2 ^ 64 * (if x + y < x then 1 else 0)
       + 2 ^ 64 * (uval (map2 (+) xs ys) + 2 ^ 64 * uval (carries xs ys))"
    by (simp add: carries_def algebra_simps)
  also have "\<dots> = unat x + unat y + 2 ^ 64 * (uval xs + uval ys)"
    by (simp only: unat_add_carry Cons.IH)
  finally show ?case by (simp add: algebra_simps)
qed (simp add: carries_def)

lemma add_loop_full:
  assumes "length you = length me"
  shows "add_loop me you (length me) =
    (map2 (+) me you, take (length me) (0 # carries me you),
     \<exists>i<length me - 1. carries me you ! i \<noteq> 0)"
proof -
  have 1: "map (\<lambda>i. if i < length me then me ! i + you ! i else 0) [0..<length me] = map2 (+) me you"
    using assms by (intro nth_equalityI) auto
  have 2: "map (\<lambda>i. if 0 < i \<and> i \<le> length me \<and> me ! (i - 1) + you ! (i - 1) < me ! (i - 1) then 1 else 0)
        [0..<length me] = take (length me) (0 # carries me you)"
    using assms by (intro nth_equalityI) (auto simp: carries_def nth_Cons split: nat.splits)
  have 3: "(\<exists>i<length me. i < length me - 1 \<and> me ! i + you ! i < me ! i) \<longleftrightarrow>
     (\<exists>i<length me - 1. carries me you ! i \<noteq> 0)"
  proof (rule ex_cong1)
    fix i show "(i < length me \<and> i < length me - 1 \<and> me ! i + you ! i < me ! i) =
       (i < length me - 1 \<and> carries me you ! i \<noteq> 0)"
      using assms by (auto simp: carries_def split: if_splits)
  qed
  show ?thesis unfolding add_loop_closed [OF order.refl] 1 2 3 ..
qed

lemma length_uint_add [simp]: "length you = length me \<Longrightarrow> length (uint_add me you) = length me"
proof (induction me you rule: uint_add.induct)
  case (1 me you)
  then show ?case
    by (subst uint_add.simps) (auto simp: add_loop_full carries_def)
qed

lemma uval_add:
  "length you = length me \<Longrightarrow>
   uval (uint_add me you) = (uval me + uval you) mod 2 ^ (64 * length me)"
proof (induction me you rule: uint_add.induct)
  case (1 me you)
  let ?n = "length me" and ?M = "2 ^ (64 * length me) :: nat"
  let ?c = "take ?n (0 # carries me you)"
  have len: "length you = length me" by (rule "1.prems")
  have sum: "uval (map2 (+) me you) + 2 ^ 64 * uval (carries me you) = uval me + uval you"
    by (rule uval_map2_add [OF len])
  have c: "uval ?c = (2 ^ 64 * uval (carries me you)) mod ?M"
    unfolding uval_take by simp
  show ?case
  proof (cases "\<exists>i<?n - 1. carries me you ! i \<noteq> 0")
    case True
    have loop: "add_loop me you ?n = (map2 (+) me you, ?c, True)"
      unfolding add_loop_full [OF len] using True by blast
    have "uint_add me you = uint_add (map2 (+) me you) ?c"
      using len by (subst uint_add.simps) (simp add: loop)
    also have "uval \<dots> = (uval (map2 (+) me you) + uval ?c) mod ?M"
      using "1.IH" [of "map2 (+) me you" "(?c, True)" ?c True] len loop
      by (simp add: carries_def)
    also have "\<dots> = (uval me + uval you) mod ?M"
      unfolding c by (simp only: mod_add_right_eq sum)
    finally show ?thesis .
  next
    case False
    have loop: "add_loop me you ?n = (map2 (+) me you, ?c, False)"
      unfolding add_loop_full [OF len] using False by blast
    have add: "uint_add me you = map2 (+) me you"
      using len by (subst uint_add.simps) (simp add: loop)
    have "?c = replicate ?n 0"
      using False len by (intro nth_equalityI) (auto simp: carries_def nth_Cons split: nat.splits)
    then have z: "(2 ^ 64 * uval (carries me you)) mod ?M = 0" using c by simp
    have "(uval me + uval you) mod ?M = (uval (map2 (+) me you) + 2 ^ 64 * uval (carries me you)) mod ?M"
      by (simp only: sum)
    also have "\<dots> = (uval (map2 (+) me you) + (2 ^ 64 * uval (carries me you)) mod ?M) mod ?M"
      by (rule mod_add_right_eq [symmetric])
    also have "\<dots> = uval (map2 (+) me you) mod ?M"
      by (simp only: z add_0_right)
    finally show ?thesis unfolding add using uval_less [of "map2 (+) me you"] len by simp
  qed
qed

lemma uval_not: "uval (uint_not xs) = 2 ^ (64 * length xs) - 1 - uval xs"
proof -
  have "uint_not xs = map (\<lambda>x. NOT x) xs"
    by (intro nth_equalityI) (auto simp: uint_not_def)
  moreover have "uval (map (\<lambda>x. NOT x) xs) + uval xs = 2 ^ (64 * length xs) - 1"
  proof (induction xs)
    case (Cons x xs)
    have "unat (NOT x) + unat x = 2 ^ 64 - 1"
    proof -
      have "unat x < 2 ^ 64" using unsigned_less [of x, where 'a = nat] by simp
      moreover have "NOT x = - 1 - x" by (simp add: not_eq_complement)
      moreover have "unat (- 1 - x) = unat (- 1 :: u64) - unat x"
        by (rule unat_sub) simp
      moreover have "unat (- 1 :: u64) = 2 ^ 64 - 1"
        by (simp add: unsigned_minus_1_eq_mask mask_eq_exp_minus_1)
      ultimately show ?thesis by simp
    qed
    then have x: "unat (NOT x) + unat x + 1 = 2 ^ 64" by simp
    have "1 \<le> (2::nat) ^ (64 * length xs)" by simp
    then have xs: "uval (map (\<lambda>x. NOT x) xs) + uval xs + 1 = 2 ^ (64 * length xs)"
      using Cons by linarith
    have "uval (map (\<lambda>x. NOT x) (x # xs)) + uval (x # xs) + 1 =
        (unat (NOT x) + unat x + 1) + 2 ^ 64 * (uval (map (\<lambda>x. NOT x) xs) + uval xs)"
      by (simp add: algebra_simps)
    also have "\<dots> = 2 ^ 64 * (uval (map (\<lambda>x. NOT x) xs) + uval xs + 1)"
      unfolding x by (simp add: algebra_simps)
    also have "\<dots> = 2 ^ (64 * length (x # xs))"
      unfolding xs by (simp add: power_add)
    finally show ?case by simp
  qed simp
  ultimately show ?thesis by simp
qed

lemma length_uint_not [simp]: "length (uint_not xs) = length xs"
  by (simp add: uint_not_def)

lemma length_one [simp]: "length (one n) = n"
  by (simp add: one_def)

lemma uval_one: "0 < n \<Longrightarrow> uval (one n) = 1"
  by (cases n) (auto simp: one_def)

lemma length_uint_sub [simp]: "length b = length a \<Longrightarrow> length (uint_sub a b) = length a"
  by (simp add: uint_sub_def)

lemma uval_sub:
  assumes len: "length b = length a"
  shows "uval (uint_sub a b) =
    (if uval b \<le> uval a then uval a - uval b else 2 ^ (64 * length a) + uval a - uval b)"
proof (cases a)
  case Nil
  then have "b = []" using len by simp
  then show ?thesis using Nil length_uint_sub [of "[]" "[]"] by (simp del: length_uint_sub)
next
  case (Cons x xs)
  let ?M = "2 ^ (64 * length a) :: nat"
  have lt: "uval a < ?M" "uval b < ?M" using uval_less [of a] uval_less [of b] len by simp_all
  have "uval (uint_sub a b) = ((uval a + (?M - 1 - uval b)) mod ?M + 1) mod ?M"
    using len Cons by (simp add: uint_sub_def uval_add uval_not uval_one del: uval.simps)
  also have "\<dots> = (uval a + (?M - 1 - uval b) + 1) mod ?M" by (simp add: mod_simps)
  also have "\<dots> = (uval a + ?M - uval b) mod ?M"
    using lt by (intro arg_cong [where f = "\<lambda>x. x mod ?M"]) linarith
  also have "\<dots> = (if uval b \<le> uval a then uval a - uval b else ?M + uval a - uval b)"
  proof (cases "uval b \<le> uval a")
    case True
    then have "uval a + ?M - uval b = (uval a - uval b) + ?M" by simp
    then have "(uval a + ?M - uval b) mod ?M = (uval a - uval b) mod ?M" by simp
    with True lt show ?thesis by simp
  qed (use lt in simp)
  finally show ?thesis .
qed

section \<open>Comparison\<close>

lemma cmp_loop_take:
  assumes len: "length you = length me" and "k \<le> length me"
  shows "cmp_loop me you [k..<length me] =
    (let m = length me - k in
     if uval (take m me) < uval (take m you) then Less
     else if uval (take m me) > uval (take m you) then Greater else Equal)"
  using assms(2)
proof (induction k rule: inc_induct)
  case base
  show ?case by simp
next
  case (step k)
  let ?m = "length me - Suc k"
  have m: "?m < length me" "?m < length you" "length me - k = Suc ?m" "length me - 1 - k = ?m"
    using step len by auto
  have bnd: "uval (take ?m me) < 2 ^ (64 * ?m)" "uval (take ?m you) < 2 ^ (64 * ?m)"
    using uval_less [of "take ?m me"] uval_less [of "take ?m you"] m by (simp_all add: min_absorb2)
  have less: "uval (take ?m xs) + 2 ^ (64 * ?m) * unat (xs ! ?m) < uval (take ?m ys) + 2 ^ (64 * ?m) * unat (ys ! ?m)"
    if "unat (xs ! ?m) < unat (ys ! ?m)" "uval (take ?m xs) < 2 ^ (64 * ?m)" for xs ys
  proof -
    have "2 ^ (64 * ?m) * (unat (xs ! ?m) + 1) \<le> 2 ^ (64 * ?m) * unat (ys ! ?m)"
      using that(1) by (intro mult_left_mono) auto
    with that(2) show ?thesis by (simp add: algebra_simps)
  qed
  consider (lt) "unat (me ! ?m) < unat (you ! ?m)" | (gt) "unat (you ! ?m) < unat (me ! ?m)"
    | (eq) "me ! ?m = you ! ?m"
    by (metis linorder_neqE_nat word_unat_eq_iff)
  then show ?case
  proof cases
    case lt
    with less [OF this bnd(1)] step m show ?thesis
      by (simp add: upt_conv_Cons Let_def uval_take_Suc word_less_nat_alt)
  next
    case gt
    with less [OF this bnd(2)] step m show ?thesis
      by (simp add: upt_conv_Cons Let_def uval_take_Suc word_less_nat_alt)
  next
    case eq
    with step m show ?thesis
      by (simp add: upt_conv_Cons Let_def uval_take_Suc)
  qed
qed

lemma uint_cmp_uval:
  "length you = length me \<Longrightarrow> uint_cmp me you =
     (if uval me < uval you then Less else if uval me > uval you then Greater else Equal)"
  unfolding uint_cmp_def by (subst cmp_loop_take) auto

lemma uint_le_uval: "length b = length a \<Longrightarrow> uint_le a b \<longleftrightarrow> uval a \<le> uval b"
  by (auto simp: uint_le_def uint_cmp_uval)

lemma uint_less_uval: "length b = length a \<Longrightarrow> uint_less a b \<longleftrightarrow> uval a < uval b"
  by (auto simp: uint_less_def uint_cmp_uval)

section \<open>Shifts\<close>

text \<open>The two array writes of a round of \<^verbatim>\<open>shl\<close>, seen from the limb that receives them.\<close>

lemma nth_shl_step:
  assumes "length r = length xs" "bs < 64" "k < length xs"
  shows "shl_step xs ws bs j r ! k = r ! k + (if k = j + ws then push_bit bs (xs ! j) else 0) +
    (if 0 < bs \<and> k = j + ws + 1 then drop_bit (64 - bs) (xs ! j) else 0)"
  using assms by (auto simp: shl_step_def Let_def nth_list_update)

lemma length_shl_fold: "length (fold (shl_step xs ws bs) is r) = length r"
  by (induction "is" arbitrary: r) (auto simp: shl_step_def Let_def)

lemma shl_fold:
  assumes "bs < 64" "k < length xs"
  shows "fold (shl_step xs ws bs) [0..<j] (replicate (length xs) 0) ! k =
      (if ws \<le> k \<and> k < j + ws then push_bit bs (xs ! (k - ws)) else 0) +
      (if 0 < bs \<and> ws < k \<and> k < j + ws + 1 then drop_bit (64 - bs) (xs ! (k - ws - 1)) else 0)"
proof (induction j)
  case 0
  then show ?case using assms by auto
next
  case (Suc j)
  let ?r = "fold (shl_step xs ws bs) [0..<j] (replicate (length xs) 0)"
  have "fold (shl_step xs ws bs) [0..<Suc j] (replicate (length xs) 0) ! k = shl_step xs ws bs j ?r ! k"
    by simp
  also have "\<dots> = ?r ! k + (if k = j + ws then push_bit bs (xs ! j) else 0) +
    (if 0 < bs \<and> k = j + ws + 1 then drop_bit (64 - bs) (xs ! j) else 0)"
    using assms by (intro nth_shl_step) (auto simp: length_shl_fold)
  finally have eq: "fold (shl_step xs ws bs) [0..<Suc j] (replicate (length xs) 0) ! k =
    ?r ! k + (if k = j + ws then push_bit bs (xs ! j) else 0) +
    (if 0 < bs \<and> k = j + ws + 1 then drop_bit (64 - bs) (xs ! j) else 0)" .
  consider "k < j + ws" | "k = j + ws" | "k = j + ws + 1" | "k > j + ws + 1" by linarith
  then show ?case unfolding eq Suc.IH by cases (auto simp: less_Suc_eq)
qed

lemma length_uint_shl [simp]: "length (uint_shl xs s) = length xs"
  by (simp add: uint_shl_def length_shl_fold)

lemma nth_uint_shl:
  assumes "k < length xs"
  shows "uint_shl xs s ! k =
    (if s div 64 \<le> k then push_bit (s mod 64) (xs ! (k - s div 64)) else 0) +
    (if 0 < s mod 64 \<and> s div 64 < k then drop_bit (64 - s mod 64) (xs ! (k - s div 64 - 1)) else 0)"
  using shl_fold [of "s mod 64" k xs "s div 64" "length xs"] assms by (auto simp: uint_shl_def)

lemma bit_shifted_sum:
  fixes a b :: u64
  assumes "bs < 64" "t < 64"
  shows "bit (push_bit bs a + (if 0 < bs then drop_bit (64 - bs) b else 0)) t \<longleftrightarrow>
    (if bs \<le> t then bit a (t - bs) else bit b (t + 64 - bs))"
proof -
  let ?b = "if 0 < bs then drop_bit (64 - bs) b else 0"
  have "push_bit bs a AND ?b = 0"
    using assms by (intro bit_eqI) (auto simp: bit_simps dest: bit_imp_le_length)
  then have "push_bit bs a + ?b = push_bit bs a OR ?b"
    by (rule disjunctive_add_eq_or)
  then have "bit (push_bit bs a + ?b) t \<longleftrightarrow> bit (push_bit bs a OR ?b) t" by (rule arg_cong)
  also have "\<dots> \<longleftrightarrow> (if bs \<le> t then bit a (t - bs) else bit b (t + 64 - bs))"
    using assms by (auto simp: bit_simps add.commute dest: bit_imp_le_length)
  finally show ?thesis .
qed

lemma limb_sub:
  fixes k t ws bs :: nat
  assumes "64 * ws + bs \<le> 64 * k + t" "t < 64" "bs < 64"
  shows "bs \<le> t \<Longrightarrow> 64 * k + t - (64 * ws + bs) = (t - bs) + 64 * (k - ws) \<and> ws \<le> k"
    and "t < bs \<Longrightarrow> 64 * k + t - (64 * ws + bs) = (t + 64 - bs) + 64 * (k - ws - 1) \<and> ws < k"
  using assms by linarith+

lemma div_mod_sub:
  fixes j s :: nat
  assumes "s \<le> j"
  shows "s mod 64 \<le> j mod 64 \<Longrightarrow>
      (j - s) div 64 = j div 64 - s div 64 \<and> (j - s) mod 64 = j mod 64 - s mod 64"
    and "\<not> s mod 64 \<le> j mod 64 \<Longrightarrow> (j - s) div 64 = j div 64 - s div 64 - 1 \<and>
      (j - s) mod 64 = j mod 64 + 64 - s mod 64 \<and> s div 64 < j div 64"
proof -
  have le: "64 * (s div 64) + s mod 64 \<le> 64 * (j div 64) + j mod 64" using assms by simp
  have eq: "j - s = 64 * (j div 64) + j mod 64 - (64 * (s div 64) + s mod 64)" by simp
  note sub = limb_sub [OF le mod_less_divisor mod_less_divisor, OF zero_less_numeral zero_less_numeral]
  {
    assume a: "s mod 64 \<le> j mod 64"
    have e: "j - s = (j mod 64 - s mod 64) + 64 * (j div 64 - s div 64)"
      unfolding eq using sub(1) [OF a] by (rule conjunct1)
    have lt: "j mod 64 - s mod 64 < 64" by (rule le_less_trans [OF diff_le_self]) simp
    show "(j - s) div 64 = j div 64 - s div 64 \<and> (j - s) mod 64 = j mod 64 - s mod 64"
      unfolding e using lt by (simp only: div_mult_self2 mod_mult_self2 div_less mod_less) simp
  }
  {
    assume "\<not> s mod 64 \<le> j mod 64"
    then have a: "j mod 64 < s mod 64" by simp
    have e: "j - s = (j mod 64 + 64 - s mod 64) + 64 * (j div 64 - s div 64 - 1)"
      unfolding eq using sub(2) [OF a] by (rule conjunct1)
    have lt: "j mod 64 + 64 - s mod 64 < 64" using a by simp
    show "(j - s) div 64 = j div 64 - s div 64 - 1 \<and>
      (j - s) mod 64 = j mod 64 + 64 - s mod 64 \<and> s div 64 < j div 64"
      unfolding e using lt sub(2) [OF a] by (simp only: div_mult_self2 mod_mult_self2 div_less mod_less) simp
  }
qed

lemma div_mod_64_less_128:
  fixes x :: nat
  assumes "x < 128"
  shows "x div 64 = (if x < 64 then 0 else 1)" and "x mod 64 = (if x < 64 then x else x - 64)"
proof -
  have "x div 64 = Suc ((x - 64) div 64)" "x mod 64 = (x - 64) mod 64" if "\<not> x < 64"
    using that by (simp_all add: le_div_geq le_mod_geq)
  moreover have "x - 64 < 64" using assms by simp
  ultimately show "x div 64 = (if x < 64 then 0 else 1)" "x mod 64 = (if x < 64 then x else x - 64)"
    by simp_all
qed

lemma div_mod_add:
  fixes j s :: nat
  shows "(j + s) div 64 = j div 64 + s div 64 + (if j mod 64 + s mod 64 < 64 then 0 else 1)"
    and "(j + s) mod 64 = (if j mod 64 + s mod 64 < 64 then j mod 64 + s mod 64 else j mod 64 + s mod 64 - 64)"
proof -
  have lt: "j mod 64 + s mod 64 < 128"
    by (rule less_le_trans [OF add_strict_mono [OF mod_less_divisor mod_less_divisor]]) auto
  show "(j + s) div 64 = j div 64 + s div 64 + (if j mod 64 + s mod 64 < 64 then 0 else 1)"
    by (simp only: div_add1_eq [of j s] div_mod_64_less_128(1) [OF lt])
  show "(j + s) mod 64 = (if j mod 64 + s mod 64 < 64 then j mod 64 + s mod 64 else j mod 64 + s mod 64 - 64)"
    by (simp only: mod_add_eq [of j 64 s, symmetric] div_mod_64_less_128(2) [OF lt])
qed

lemma uval_shl: "uval (uint_shl xs s) = (uval xs * 2 ^ s) mod 2 ^ (64 * length xs)"
proof -
  have "uval (uint_shl xs s) = take_bit (64 * length xs) (push_bit s (uval xs))"
  proof (rule bit_eqI)
    fix j :: nat
    let ?k = "j div 64" and ?t = "j mod 64" and ?ws = "s div 64" and ?bs = "s mod 64"
    show "bit (uval (uint_shl xs s)) j \<longleftrightarrow> bit (take_bit (64 * length xs) (push_bit s (uval xs))) j"
    proof (cases "?k < length xs")
      case False
      then have "\<not> j < 64 * length xs" by linarith
      with False show ?thesis by (simp add: bit_uval bit_take_bit_iff)
    next
      case True
      then have jn: "j < 64 * length xs" by linarith
      have lhs: "bit (uval (uint_shl xs s)) j \<longleftrightarrow> bit (uint_shl xs s ! ?k) ?t"
        using True by (simp add: bit_uval)
      have rhs: "bit (take_bit (64 * length xs) (push_bit s (uval xs))) j \<longleftrightarrow>
          s \<le> j \<and> (j - s) div 64 < length xs \<and> bit (xs ! ((j - s) div 64)) ((j - s) mod 64)"
        using jn by (simp add: bit_take_bit_iff bit_push_bit_iff bit_uval)
      consider (below) "?k < ?ws" | (at) "?k = ?ws" | (above) "?ws < ?k" by linarith
      then show ?thesis
      proof cases
        case below
        then have "\<not> s \<le> j" by (metis div_le_mono not_less)
        with below True show ?thesis unfolding lhs rhs by (simp add: nth_uint_shl)
      next
        case at
        have "bit (uint_shl xs s ! ?k) ?t \<longleftrightarrow> ?bs \<le> ?t \<and> bit (xs ! 0) (?t - ?bs)"
          using True at by (auto simp: nth_uint_shl bit_simps)
        moreover have "s \<le> j \<longleftrightarrow> ?bs \<le> ?t"
          using at mult_div_mod_eq [of 64 s] mult_div_mod_eq [of 64 j] by linarith
        ultimately show ?thesis unfolding lhs rhs
          using div_mod_sub(1) [of s j] at True by auto
      next
        case above
        have sj: "s \<le> j"
        proof (rule ccontr)
          assume "\<not> s \<le> j"
          then have "j div 64 \<le> s div 64" by (intro div_le_mono) simp
          with above show False by simp
        qed
        have "uint_shl xs s ! ?k = push_bit ?bs (xs ! (?k - ?ws)) +
            (if 0 < ?bs then drop_bit (64 - ?bs) (xs ! (?k - ?ws - 1)) else 0)"
          using True above by (simp add: nth_uint_shl)
        then have "bit (uint_shl xs s ! ?k) ?t \<longleftrightarrow>
            (if ?bs \<le> ?t then bit (xs ! (?k - ?ws)) (?t - ?bs) else bit (xs ! (?k - ?ws - 1)) (?t + 64 - ?bs))"
          by (simp only: bit_shifted_sum [of ?bs ?t] mod_less_divisor zero_less_numeral)
        then show ?thesis unfolding lhs rhs
          using div_mod_sub [OF sj] sj True by auto
      qed
    qed
  qed
  then show ?thesis by (simp add: take_bit_eq_mod push_bit_eq_mult)
qed

lemma length_shr_fold: "length (fold (shr_step xs ws bs) is r) = length r"
  by (induction "is" arbitrary: r) (auto simp: shr_step_def Let_def)

lemma length_uint_shr [simp]: "length (uint_shr xs s) = length xs"
  by (simp add: uint_shr_def length_shr_fold)

lemma nth_shr_step:
  assumes "length r = length xs" "k < length xs" "ws \<le> i" "i < length xs"
  shows "shr_step xs ws bs i r ! k = (if k = i - ws then r ! k + drop_bit bs (xs ! i) +
    (if 0 < bs \<and> i < length xs - 1 then push_bit (64 - bs) (xs ! (i + 1)) else 0) else r ! k)"
  using assms by (auto simp: shr_step_def Let_def nth_list_update)

lemma shr_fold:
  assumes "k < length xs" "ws \<le> j" "j \<le> length xs"
  shows "fold (shr_step xs ws bs) [ws..<j] (replicate (length xs) 0) ! k =
     (if k + ws < j then drop_bit bs (xs ! (k + ws)) +
       (if 0 < bs \<and> k + ws < length xs - 1 then push_bit (64 - bs) (xs ! (k + ws + 1)) else 0) else 0)"
  using assms(2,3)
proof (induction j rule: dec_induct)
  case base
  then show ?case using assms by simp
next
  case (step j)
  let ?r = "fold (shr_step xs ws bs) [ws..<j] (replicate (length xs) 0)"
  have "fold (shr_step xs ws bs) [ws..<Suc j] (replicate (length xs) 0) ! k = shr_step xs ws bs j ?r ! k"
    using step by simp
  also have "\<dots> = (if k = j - ws then ?r ! k + drop_bit bs (xs ! j) +
    (if 0 < bs \<and> j < length xs - 1 then push_bit (64 - bs) (xs ! (j + 1)) else 0) else ?r ! k)"
    using assms step by (intro nth_shr_step) (auto simp: length_shr_fold)
  finally show ?case using step assms by (auto simp: less_Suc_eq)
qed

lemma nth_uint_shr:
  assumes "k < length xs"
  shows "uint_shr xs s ! k =
     (if k + s div 64 < length xs then drop_bit (s mod 64) (xs ! (k + s div 64)) +
       (if 0 < s mod 64 \<and> k + s div 64 < length xs - 1
        then push_bit (64 - s mod 64) (xs ! (k + s div 64 + 1)) else 0) else 0)"
proof (cases "s div 64 \<le> length xs")
  case True
  then show ?thesis using shr_fold [OF assms True order.refl, of "s mod 64"]
    by (simp add: uint_shr_def)
qed (use assms in \<open>simp add: uint_shr_def\<close>)

lemma bit_shifted_sum_right:
  fixes a b :: u64
  assumes "bs < 64" "t < 64"
  shows "bit (drop_bit bs a + (if 0 < bs then push_bit (64 - bs) b else 0)) t \<longleftrightarrow>
    (if t + bs < 64 then bit a (t + bs) else bit b (t + bs - 64))"
proof (cases "bs = 0")
  case False
  then have "drop_bit bs a + push_bit (64 - bs) b =
    push_bit (64 - bs) b + (if 0 < 64 - bs then drop_bit (64 - (64 - bs)) a else 0)"
    using assms by simp
  also have "bit \<dots> t \<longleftrightarrow> (if 64 - bs \<le> t then bit b (t - (64 - bs)) else bit a (t + 64 - (64 - bs)))"
    using False assms by (intro bit_shifted_sum) auto
  finally show ?thesis using False assms by (auto simp: not_less)
qed (use assms in simp)

lemma uval_shr: "uval (uint_shr xs s) = uval xs div 2 ^ s"
proof -
  have "uval (uint_shr xs s) = drop_bit s (uval xs)"
  proof (rule bit_eqI)
    fix j :: nat
    let ?k = "j div 64" and ?t = "j mod 64" and ?ws = "s div 64" and ?bs = "s mod 64"
    have idx: "(j + s) div 64 = ?k + ?ws + (if ?t + ?bs < 64 then 0 else 1)"
      "(j + s) mod 64 = (if ?t + ?bs < 64 then ?t + ?bs else ?t + ?bs - 64)"
      by (rule div_mod_add)+
    have rhs: "bit (drop_bit s (uval xs)) j \<longleftrightarrow>
        (j + s) div 64 < length xs \<and> bit (xs ! ((j + s) div 64)) ((j + s) mod 64)"
      by (simp add: bit_drop_bit_eq bit_uval add.commute)
    show "bit (uval (uint_shr xs s)) j \<longleftrightarrow> bit (drop_bit s (uval xs)) j"
    proof (cases "?k + ?ws < length xs")
      case False
      then show ?thesis unfolding rhs unfolding idx bit_uval
        by (auto simp: nth_uint_shr)
    next
      case True
      define b where "b = (if ?k + ?ws + 1 < length xs then xs ! (?k + ?ws + 1) else 0)"
      have "uint_shr xs s ! ?k = drop_bit ?bs (xs ! (?k + ?ws)) +
          (if 0 < ?bs then push_bit (64 - ?bs) b else 0)"
        using True by (auto simp: nth_uint_shr b_def)
      then have "bit (uint_shr xs s ! ?k) ?t \<longleftrightarrow>
          (if ?t + ?bs < 64 then bit (xs ! (?k + ?ws)) (?t + ?bs) else bit b (?t + ?bs - 64))"
        by (simp only: bit_shifted_sum_right [of ?bs ?t] mod_less_divisor zero_less_numeral)
      with True show ?thesis unfolding rhs unfolding idx bit_uval
        by (auto simp: b_def)
    qed
  qed
  then show ?thesis by (simp add: drop_bit_eq_div)
qed

section \<open>Multiplication\<close>

definition limb_sum :: "u32 \<Rightarrow> u64 \<Rightarrow> u64" where
  "limb_sum c x = ucast c * (x AND 0xFFFFFFFF) + push_bit 32 (ucast c * drop_bit 32 x)"

definition limb_carry :: "u32 \<Rightarrow> u64 \<Rightarrow> u64" where
  "limb_carry c x = drop_bit 32 (ucast c * drop_bit 32 x) +
     (if limb_sum c x < ucast c * (x AND 0xFFFFFFFF) then 1 else 0)"

lemma unat_mult_bound:
  fixes a b :: u64
  assumes "unat a < 2 ^ 32" "unat b < 2 ^ 32"
  shows "unat (a * b) = unat a * unat b" "unat a * unat b < 2 ^ 64"
proof -
  have "unat a * unat b \<le> (2 ^ 32 - 1) * (2 ^ 32 - 1)"
    using assms by (intro mult_le_mono) auto
  then show lt: "unat a * unat b < 2 ^ 64" by simp
  then show "unat (a * b) = unat a * unat b" using unat_mult_lem [of a b] by simp
qed

lemma shift_split: "u * k mod (k * k) + k * k * (u div k) = u * k" for u k :: nat
proof -
  have "u * k mod (k * k) = (u mod k) * k" by (rule mult_mod_left [symmetric])
  then have "u * k mod (k * k) + k * k * (u div k) = (u mod k) * k + k * (u div k) * k"
    by (simp only: ac_simps)
  also have "\<dots> = (u mod k + k * (u div k)) * k" by (simp only: distrib_right)
  finally show ?thesis by (simp only: mod_mult_div_eq)
qed

lemma shift32_split: "u * 2 ^ 32 mod 2 ^ 64 + 2 ^ 64 * (u div 2 ^ 32) = u * 2 ^ 32" for u :: nat
proof -
  have "(2::nat) ^ 64 = 2 ^ 32 * 2 ^ 32" by simp
  then show ?thesis by (simp only: shift_split)
qed

lemma limb_mul: "unat (limb_sum c x) + 2 ^ 64 * unat (limb_carry c x) = unat c * unat x"
proof -
  let ?c = "ucast c :: u64" and ?lo = "x AND 0xFFFFFFFF" and ?hi = "drop_bit 32 x"
  have cc: "unat c < 2 ^ 32" using unsigned_less [of c, where 'a = nat] by simp
  then have c: "unat ?c = unat c" by (simp add: unsigned_ucast_eq take_bit_eq_mod)
  have c32: "unat ?c < 2 ^ 32" using cc by (simp only: c)
  have x64: "unat x < 2 ^ 64" using unsigned_less [of x, where 'a = nat] by simp
  have lo: "unat ?lo = unat x mod 2 ^ 32"
  proof -
    have "?lo = take_bit 32 x" by (simp add: take_bit_eq_mask mask_eq_exp_minus_1)
    then have "unat ?lo = take_bit 32 (unat x)" by (simp only: unsigned_take_bit_eq)
    then show ?thesis by (simp only: take_bit_eq_mod)
  qed
  have hi: "unat ?hi = unat x div 2 ^ 32" by (simp only: unat_drop_bit_eq) (rule drop_bit_eq_div)
  have hi32: "unat ?hi < 2 ^ 32" unfolding hi using x64 by (simp add: div_less_iff_less_mult)
  have lo32: "unat ?lo < 2 ^ 32" unfolding lo by simp
  let ?u = "unat c * (unat x div 2 ^ 32)"
  have up: "unat (?c * ?hi) = ?u" "?u < 2 ^ 64"
    using unat_mult_bound [OF c32 hi32] by (simp_all only: c hi)
  have low: "unat (?c * ?lo) = unat c * (unat x mod 2 ^ 32)"
    using unat_mult_bound [OF c32 lo32] by (simp only: c lo)
  have push: "unat (push_bit 32 (?c * ?hi)) = ?u * 2 ^ 32 mod 2 ^ 64"
  proof -
    have "unat (push_bit 32 (?c * ?hi)) = take_bit LENGTH(64) (push_bit 32 (unat (?c * ?hi)))"
      by (rule unsigned_push_bit_eq)
    then show ?thesis by (simp only: up push_bit_eq_mult take_bit_eq_mod len_num1 len_bit0) simp
  qed
  have "unat (drop_bit 32 (?c * ?hi)) = ?u div 2 ^ 32"
    by (simp only: unat_drop_bit_eq up) (rule drop_bit_eq_div)
  moreover from up(2) have "?u div 2 ^ 32 < 2 ^ 32" by (simp add: div_less_iff_less_mult)
  ultimately have carry: "unat (limb_carry c x) = ?u div 2 ^ 32 +
      (if limb_sum c x < ?c * ?lo then 1 else 0)"
    by (auto simp: limb_carry_def unat_word_ariths)
  have "unat (limb_sum c x) + 2 ^ 64 * (if limb_sum c x < ?c * ?lo then 1 else 0)
      = unat (?c * ?lo) + unat (push_bit 32 (?c * ?hi))"
    unfolding limb_sum_def by (rule unat_add_carry)
  then have "unat (limb_sum c x) + 2 ^ 64 * unat (limb_carry c x) =
      unat c * (unat x mod 2 ^ 32) + (?u * 2 ^ 32 mod 2 ^ 64 + 2 ^ 64 * (?u div 2 ^ 32))"
    unfolding carry low push by (simp only: distrib_left ac_simps)
  also have "\<dots> = unat c * (unat x mod 2 ^ 32 + 2 ^ 32 * (unat x div 2 ^ 32))"
    unfolding shift32_split by (simp only: distrib_left ac_simps)
  finally show ?thesis by (simp only: mod_mult_div_eq)
qed

lemma uval_limbs:
  "uval (map (limb_sum c) xs) + 2 ^ 64 * uval (map (limb_carry c) xs) = unat c * uval xs"
proof (induction xs)
  case (Cons x xs)
  have "uval (map (limb_sum c) (x # xs)) + 2 ^ 64 * uval (map (limb_carry c) (x # xs)) =
    (unat (limb_sum c x) + 2 ^ 64 * unat (limb_carry c x)) +
    2 ^ 64 * (uval (map (limb_sum c) xs) + 2 ^ 64 * uval (map (limb_carry c) xs))"
    by (simp add: algebra_simps)
  also have "\<dots> = unat c * unat x + 2 ^ 64 * (unat c * uval xs)"
    by (simp only: limb_mul Cons.IH)
  finally show ?case by (simp add: algebra_simps)
qed simp

lemma overflow_iff: "2 ^ 64 \<le> unat a + unat b \<longleftrightarrow> a + b < a" for a b :: u64
  using unat_add_carry [of a b] unsigned_less [of "a + b", where 'a = nat] by (auto split: if_splits)

lemma mul_u32_step_eq:
  assumes "length carry = length arr" "i < length arr"
  shows "mul_u32_step arr c i (carry, ret) =
    (if i < length arr - 1 then carry[i + 1 := carry ! (i + 1) + limb_carry c (arr ! i)] else carry,
     ret[i := limb_sum c (arr ! i)])"
  using assms
  by (auto simp: mul_u32_step_def Let_def u64_overflowing_add_def overflow_iff [simplified] limb_carry_def
      limb_sum_def [symmetric] add.assoc)

lemma mul_u32_fold:
  assumes "k \<le> length arr"
  shows "fold (mul_u32_step arr c) [0..<k] (replicate (length arr) 0, replicate (length arr) 0) =
    (map (\<lambda>i. if 0 < i \<and> i \<le> k then limb_carry c (arr ! (i - 1)) else 0) [0..<length arr],
     map (\<lambda>i. if i < k then limb_sum c (arr ! i) else 0) [0..<length arr])"
  using assms
proof (induction k)
  case 0
  then show ?case by (auto intro!: nth_equalityI)
next
  case (Suc k)
  then have k: "k < length arr" by simp
  have IH: "fold (mul_u32_step arr c) [0..<k] (replicate (length arr) 0, replicate (length arr) 0) =
    (map (\<lambda>i. if 0 < i \<and> i \<le> k then limb_carry c (arr ! (i - 1)) else 0) [0..<length arr],
     map (\<lambda>i. if i < k then limb_sum c (arr ! i) else 0) [0..<length arr])"
    using Suc by simp
  have 1: "(map (\<lambda>i. if i < k then limb_sum c (arr ! i) else 0) [0..<length arr])[k := limb_sum c (arr ! k)]
     = map (\<lambda>i. if i < Suc k then limb_sum c (arr ! i) else 0) [0..<length arr]"
    unfolding map_upt_update [OF k] by (rule map_cong) auto
  have 2: "(let carry = map (\<lambda>i. if 0 < i \<and> i \<le> k then limb_carry c (arr ! (i - 1)) else 0) [0..<length arr] in
      if k < length arr - 1 then carry[k + 1 := carry ! (k + 1) + limb_carry c (arr ! k)] else carry) =
      map (\<lambda>i. if 0 < i \<and> i \<le> Suc k then limb_carry c (arr ! (i - 1)) else 0) [0..<length arr]"
  proof (cases "k < length arr - 1")
    case True
    then have k1: "k + 1 < length arr" by linarith
    show ?thesis using True k1
      by (simp only: Let_def map_upt_update [OF k1] if_True)
         (rule map_cong, auto simp: le_Suc_eq)
  next
    case False
    with k show ?thesis by (simp only: Let_def if_False) (rule map_cong, auto simp: le_Suc_eq)
  qed
  show ?case
    using 1 2 k by (simp add: IH mul_u32_step_eq Let_def del: upt_Suc add: upt_Suc_append)
qed

lemma mul_u32_eq:
  "mul_u32 arr c = uint_add (map (limb_sum c) arr) (take (length arr) (0 # map (limb_carry c) arr))"
proof -
  have "map (\<lambda>i. if i < length arr then limb_sum c (arr ! i) else 0) [0..<length arr] = map (limb_sum c) arr"
    by (intro nth_equalityI) auto
  moreover have "map (\<lambda>i. if 0 < i \<and> i \<le> length arr then limb_carry c (arr ! (i - 1)) else 0) [0..<length arr]
    = take (length arr) (0 # map (limb_carry c) arr)"
    by (intro nth_equalityI) (auto simp: nth_Cons split: nat.splits)
  ultimately show ?thesis unfolding mul_u32_def mul_u32_fold [OF order.refl] by simp
qed

lemma length_mul_u32 [simp]: "length (mul_u32 arr c) = length arr"
  by (simp add: mul_u32_eq)

lemma uval_mul_u32: "uval (mul_u32 arr c) = (uval arr * unat c) mod 2 ^ (64 * length arr)"
proof -
  have "uval (mul_u32 arr c) = (uval (map (limb_sum c) arr) +
      (2 ^ 64 * uval (map (limb_carry c) arr)) mod 2 ^ (64 * length arr)) mod 2 ^ (64 * length arr)"
    unfolding mul_u32_eq by (simp add: uval_add uval_take)
  also have "\<dots> = (uval (map (limb_sum c) arr) + 2 ^ 64 * uval (map (limb_carry c) arr)) mod 2 ^ (64 * length arr)"
    by (rule mod_add_right_eq)
  finally show ?thesis unfolding uval_limbs by (simp only: mult.commute)
qed

lemma unat_low_u32: "xs \<noteq> [] \<Longrightarrow> unat (low_u32 xs) = uval xs mod 2 ^ 32"
proof (cases xs)
  case (Cons x ys)
  have "uval xs mod 2 ^ 32 = (unat x + 2 ^ 32 * (2 ^ 32 * uval ys)) mod 2 ^ 32"
    using Cons by (simp add: algebra_simps)
  also have "\<dots> = unat x mod 2 ^ 32" by (rule mod_mult_self2)
  finally show ?thesis using Cons
    by (simp add: low_u32_def unsigned_ucast_eq take_bit_eq_mod)
qed simp

lemma mul_fold:
  assumes "length other = length self" "self \<noteq> []"
  shows "length (fold (mul_step self other) [0..<j] (zero (length self))) = length self \<and>
    uval (fold (mul_step self other) [0..<j] (zero (length self))) =
    (uval self * (uval other mod 2 ^ (32 * j))) mod 2 ^ (64 * length self)"
proof (induction j)
  case 0
  then show ?case by (simp add: zero_def)
next
  case (Suc j)
  let ?M = "2 ^ (64 * length self) :: nat" and ?a = "uval self" and ?b = "uval other"
  let ?me = "fold (mul_step self other) [0..<j] (zero (length self))"
  let ?d = "(?b div 2 ^ (32 * j)) mod 2 ^ 32"
  have d: "unat (low_u32 (uint_shr other (32 * j))) = ?d"
  proof -
    have "uint_shr other (32 * j) \<noteq> []" using assms by (metis length_0_conv length_uint_shr)
    then show ?thesis by (simp add: unat_low_u32 uval_shr)
  qed
  have step: "fold (mul_step self other) [0..<Suc j] (zero (length self)) = mul_step self other j ?me"
    by simp
  have "uval (mul_step self other j ?me) =
     ((?a * (?b mod 2 ^ (32 * j))) mod ?M + (?a * ?d mod ?M * 2 ^ (32 * j)) mod ?M) mod ?M"
  proof -
    have "mul_step self other j ?me =
        uint_add ?me (uint_shl (mul_u32 self (low_u32 (uint_shr other (32 * j)))) (32 * j))"
      by (simp only: mul_step_def [of self other j] Let_def)
    then have "uval (mul_step self other j ?me) = (uval ?me +
        uval (uint_shl (mul_u32 self (low_u32 (uint_shr other (32 * j)))) (32 * j))) mod ?M"
      using Suc.IH by (simp only: uval_add length_uint_shl length_mul_u32)
    then show ?thesis using Suc.IH by (simp only: uval_shl uval_mul_u32 d length_mul_u32)
  qed
  also have "\<dots> = (?a * (?b mod 2 ^ (32 * j)) + ?a * ?d * 2 ^ (32 * j)) mod ?M"
    by (simp only: mod_add_eq mod_add_left_eq mod_add_right_eq mod_mult_left_eq)
  also have "?a * (?b mod 2 ^ (32 * j)) + ?a * ?d * 2 ^ (32 * j) = ?a * (?b mod 2 ^ (32 * Suc j))"
  proof -
    have "?b mod (2 ^ (32 * j) * 2 ^ 32) = 2 ^ (32 * j) * ?d + ?b mod 2 ^ (32 * j)"
      by (rule mod_mult2_eq)
    moreover have "(2::nat) ^ (32 * Suc j) = 2 ^ (32 * j) * 2 ^ 32"
      by (simp add: power_add)
    ultimately have "?b mod 2 ^ (32 * Suc j) = 2 ^ (32 * j) * ?d + ?b mod 2 ^ (32 * j)"
      by (simp only:)
    then show ?thesis by (simp only: distrib_left ac_simps)
  qed
  finally have "uval (mul_step self other j ?me) = (?a * (?b mod 2 ^ (32 * Suc j))) mod ?M" .
  moreover have "length (mul_step self other j ?me) = length self"
    using Suc.IH by (simp add: mul_step_def [of self other j] Let_def)
  ultimately show ?case unfolding step by blast
qed

lemma uval_mul:
  assumes "length other = length self"
  shows "uval (uint_mul self other) = (uval self * uval other) mod 2 ^ (64 * length self)"
proof (cases "self = []")
  case True
  then show ?thesis by (simp add: uint_mul_def zero_def)
next
  case False
  have "uval other mod 2 ^ (32 * (2 * length self)) = uval other"
    using uval_less [of other] assms by (simp add: mult.assoc [symmetric])
  then show ?thesis using mul_fold [OF assms False, of "2 * length self"]
    by (simp only: uint_mul_def)
qed

lemma length_uint_mul [simp]: "length other = length self \<Longrightarrow> length (uint_mul self other) = length self"
  by (cases "self = []") (auto simp: uint_mul_def zero_def mul_fold [THEN conjunct1, unfolded zero_def])

section \<open>Bit length\<close>

lemma lz_bits:
  fixes w :: u64
  shows "u64_leading_zeros w \<le> 64"
    and "64 - u64_leading_zeros w \<le> i \<Longrightarrow> \<not> bit w i"
    and "u64_leading_zeros w < 64 \<Longrightarrow> bit w (63 - u64_leading_zeros w)"
proof -
  let ?P = "\<lambda>i. \<not> bit w i" and ?L = "u64_leading_zeros w"
  have len: "?L = length (takeWhile ?P (rev [0..<64]))" by (simp add: u64_leading_zeros_def)
  show le: "?L \<le> 64" unfolding len using length_takeWhile_le [of ?P "rev [0..<64]"] by simp
  show "\<not> bit w i" if "64 - ?L \<le> i"
  proof (cases "i < 64")
    case True
    then have "63 - i < ?L" using that le by linarith
    then have "takeWhile ?P (rev [0..<64]) ! (63 - i) \<in> set (takeWhile ?P (rev [0..<64]))"
      unfolding len by (rule nth_mem)
    moreover have "takeWhile ?P (rev [0..<64]) ! (63 - i) = rev [0..<64] ! (63 - i)"
      using \<open>63 - i < ?L\<close> unfolding len by (rule takeWhile_nth)
    moreover have "rev [0..<64] ! (63 - i) = i"
      using True by (subst rev_nth) (auto simp: nth_upt)
    ultimately show ?thesis by (auto dest: set_takeWhileD)
  qed (auto dest: bit_imp_le_length)
  show "bit w (63 - ?L)" if "?L < 64"
  proof -
    have "\<not> ?P (rev [0..<64] ! ?L)"
      using that unfolding len by (intro nth_length_takeWhile) simp
    moreover have "rev [0..<64] ! ?L = 63 - ?L"
      using that by (subst rev_nth) (auto simp: nth_upt)
    ultimately show ?thesis by simp
  qed
qed

definition is_bit_length :: "nat \<Rightarrow> nat \<Rightarrow> bool" where
  "is_bit_length b v \<longleftrightarrow> v < 2 ^ b \<and> (b = 0 \<or> 2 ^ (b - 1) \<le> v)"

lemma bit_le_nat: "bit (v::nat) n \<Longrightarrow> 2 ^ n \<le> v"
proof -
  assume "bit v n"
  then have "odd (v div 2 ^ n)" by (simp add: bit_iff_odd)
  then have "v div 2 ^ n \<noteq> 0" by (metis even_zero)
  then show ?thesis by (metis div_less not_less)
qed

lemma lz_bit_length: "is_bit_length (64 - u64_leading_zeros w) (unat w)"
proof -
  let ?L = "u64_leading_zeros w"
  have "unat w = take_bit (64 - ?L) (unat w)"
  proof (rule bit_eqI)
    fix n :: nat
    show "bit (unat w) n = bit (take_bit (64 - ?L) (unat w)) n"
      using lz_bits(2) [of w n] by (cases "n < 64 - ?L") (auto simp: bit_take_bit_iff bit_unsigned_iff)
  qed
  moreover have "take_bit (64 - ?L) (unat w) < 2 ^ (64 - ?L)" by (rule take_bit_nat_less_exp)
  ultimately have "unat w < 2 ^ (64 - ?L)" by simp
  moreover have "2 ^ (64 - ?L - 1) \<le> unat w" if "64 - ?L \<noteq> 0"
  proof -
    from that have "bit w (63 - ?L)" by (intro lz_bits(3)) simp
    then have "bit (unat w) (63 - ?L)" by (simp add: bit_unsigned_iff)
    then show ?thesis using bit_le_nat by fastforce
  qed
  ultimately show ?thesis by (auto simp: is_bit_length_def)
qed

lemma is_bit_length_top_limb:
  assumes "v < 2 ^ (64 * m)" "0 < w" "is_bit_length (64 - L) w" "L \<le> 64"
  shows "is_bit_length (64 * (m + 1) - L) (v + 2 ^ (64 * m) * w)"
proof -
  from assms have "64 - L \<noteq> 0" unfolding is_bit_length_def by (cases "64 - L = 0") auto
  with assms have w: "w < 2 ^ (64 - L)" "2 ^ (63 - L) \<le> w" "L < 64"
    by (auto simp: is_bit_length_def)
  have "v + 2 ^ (64 * m) * w < 2 ^ (64 * m) * (w + 1)" using assms(1) by simp
  also have "\<dots> \<le> 2 ^ (64 * m) * 2 ^ (64 - L)" using w(1) by (intro mult_left_mono) auto
  also have "\<dots> = 2 ^ (64 * (m + 1) - L)"
    using w(3) by (simp add: power_add [symmetric])
  finally have "v + 2 ^ (64 * m) * w < 2 ^ (64 * (m + 1) - L)" .
  moreover have "2 ^ (64 * (m + 1) - L - 1) \<le> v + 2 ^ (64 * m) * w"
  proof -
    have "(2::nat) ^ (64 * (m + 1) - L - 1) = 2 ^ (64 * m) * 2 ^ (63 - L)"
      using w(3) by (simp add: power_add [symmetric])
    also have "\<dots> \<le> 2 ^ (64 * m) * w" using w(2) by (intro mult_left_mono) auto
    finally show ?thesis by simp
  qed
  ultimately show ?thesis by (simp add: is_bit_length_def)
qed

lemma bits_loop_take:
  assumes "1 \<le> k" "k \<le> length arr"
  shows "is_bit_length (bits_loop arr [k..<length arr]) (uval (take (length arr - k + 1) arr))"
  using assms(2,1)
proof (induction k rule: inc_induct)
  case base
  then have "arr \<noteq> []" by auto
  then have "take 1 arr = [arr ! 0]" by (cases arr) auto
  then show ?case using lz_bit_length [of "arr ! 0"] by simp
next
  case (step k)
  let ?m = "length arr - k"
  have m: "?m < length arr" "length arr - Suc k + 1 = ?m" using step by auto
  have tk: "uval (take (?m + 1) arr) = uval (take ?m arr) + 2 ^ (64 * ?m) * unat (arr ! ?m)"
    using uval_take_Suc [OF m(1)] by simp
  have upt: "[k..<length arr] = k # [Suc k..<length arr]"
    using step by (simp add: upt_conv_Cons)
  show ?case
  proof (cases "arr ! ?m > 0")
    case True
    have "uval (take ?m arr) < 2 ^ (64 * ?m)"
      using uval_less [of "take ?m arr"] m by simp
    moreover have "0 < unat (arr ! ?m)" using True by (simp add: word_less_nat_alt)
    ultimately have "is_bit_length (64 * (?m + 1) - u64_leading_zeros (arr ! ?m)) (uval (take (?m + 1) arr))"
      unfolding tk by (intro is_bit_length_top_limb lz_bit_length lz_bits(1))
    with True show ?thesis by (simp add: upt Let_def)
  next
    case False
    then have "arr ! ?m = 0" by (simp add: word_gt_0)
    then have "uval (take (?m + 1) arr) = uval (take ?m arr)" unfolding tk by simp
    with False step m show ?thesis by (simp add: upt Let_def)
  qed
qed

lemma bits_uval: "arr \<noteq> [] \<Longrightarrow> is_bit_length (bits arr) (uval arr)"
  using bits_loop_take [of 1 arr] by (cases arr) (auto simp: bits_def)

section \<open>Division\<close>

lemma uval_set_bit:
  assumes "s div 64 < length xs"
  shows "uval (xs[s div 64 := xs ! (s div 64) OR push_bit (s mod 64) 1]) = uval xs OR push_bit s 1"
proof (rule bit_eqI)
  fix j :: nat
  have "j = s \<longleftrightarrow> j div 64 = s div 64 \<and> j mod 64 = s mod 64"
    by (metis mult_div_mod_eq)
  then show "bit (uval (xs[s div 64 := xs ! (s div 64) OR push_bit (s mod 64) 1])) j =
      bit (uval xs OR push_bit s 1) j"
    using assms
    by (auto simp: bit_uval nth_list_update bit_or_iff bit_exp_iff)
qed

lemma or_power_add:
  assumes "2 ^ Suc s dvd (q :: nat)"
  shows "q OR push_bit s 1 = q + 2 ^ s"
proof -
  have "q AND push_bit s 1 = 0"
  proof (rule bit_eqI)
    fix j :: nat
    have "\<not> bit q s" using assms
      by (metis bit_iff_odd dvd_div_iff_mult dvd_mult_right mult.commute power_Suc power_eq_0_iff zero_neq_numeral)
    then show "bit (q AND push_bit s 1) j = bit 0 j"
      by (auto simp: bit_and_iff bit_exp_iff)
  qed
  then show ?thesis by (simp add: disjunctive_add_eq_or [symmetric] push_bit_eq_mult)
qed

lemma div_loop_spec:
  assumes "length sub = n" "length sc = n" "length ret = n" "shift < 64 * n"
    and "uval sc = D * 2 ^ shift" "N = uval ret * D + uval sub" "uval sub < D * 2 ^ Suc shift"
    and "2 ^ Suc shift dvd uval ret"
  shows "length (div_loop shift sub sc ret) = n \<and> uval (div_loop shift sub sc ret) = N div D"
  using assms
proof (induction shift arbitrary: sub sc ret)
  case (0 sub sc ret)
  let ?set = "ret[0 := ret ! 0 OR 1]"
  have set: "uval ?set = uval ret + 1"
    using uval_set_bit [of 0 ret] or_power_add [of 0 "uval ret"] 0 by simp
  show ?case
  proof (cases "uval sc \<le> uval sub")
    case True
    have "N = (uval sub - D) + (uval ret + 1) * D"
      using 0 True by (simp add: algebra_simps)
    moreover have "uval sub - D < D" using 0 True by simp
    ultimately have "N div D = uval ret + 1" by (simp del: mult_Suc)
    with True 0 set show ?thesis
      by (simp add: div_loop.simps [of 0] Let_def uint_le_uval)
  next
    case False
    have "N = uval sub + uval ret * D" using 0 by simp
    moreover have "uval sub < D" using 0 False by simp
    ultimately have "N div D = uval ret" by simp
    with False 0 show ?thesis by (simp add: div_loop.simps [of 0] Let_def uint_le_uval)
  qed
next
  case (Suc s sub sc ret)
  let ?i = "Suc s div 64"
  let ?set = "ret[?i := ret ! ?i OR push_bit (Suc s mod 64) 1]"
  have i: "?i < length ret" using Suc.prems by (simp add: div_less_iff_less_mult)
  have set: "uval ?set = uval ret + 2 ^ Suc s"
    using uval_set_bit [OF i] or_power_add [OF Suc.prems(8)] by (simp only:)
  have sc': "uval (uint_shr sc 1) = D * 2 ^ s" using Suc.prems by (simp add: uval_shr)
  have dvd: "2 ^ Suc s dvd uval ret"
    using Suc.prems(8) by (meson dvd_trans le_imp_power_dvd lessI less_imp_le)
  show ?case
  proof (cases "uval sc \<le> uval sub")
    case True
    have "length (div_loop s (uint_sub sub sc) (uint_shr sc 1) ?set) = n \<and>
        uval (div_loop s (uint_sub sub sc) (uint_shr sc 1) ?set) = N div D"
    proof (rule Suc.IH)
      show "N = uval ?set * D + uval (uint_sub sub sc)"
        using Suc.prems True unfolding set by (simp add: uval_sub algebra_simps)
      show "uval (uint_sub sub sc) < D * 2 ^ Suc s"
        using Suc.prems True by (simp add: uval_sub)
      show "2 ^ Suc s dvd uval ?set" unfolding set using dvd by (intro dvd_add) auto
    qed (use Suc.prems sc' in auto)
    then show ?thesis using True Suc.prems
      by (simp add: div_loop.simps [of "Suc s"] Let_def uint_le_uval)
  next
    case False
    have "length (div_loop s sub (uint_shr sc 1) ret) = n \<and>
        uval (div_loop s sub (uint_shr sc 1) ret) = N div D"
    proof (rule Suc.IH)
      show "uval sub < D * 2 ^ Suc s" using Suc.prems False by simp
    qed (use Suc.prems sc' dvd in auto)
    then show ?thesis using False Suc.prems
      by (simp add: div_loop.simps [of "Suc s"] Let_def uint_le_uval)
  qed
qed

lemma is_bit_length_0: "is_bit_length b 0 \<longleftrightarrow> b = 0"
  by (auto simp: is_bit_length_def)

lemma is_bit_length_nonzero: "is_bit_length b v \<Longrightarrow> b = 0 \<longleftrightarrow> v = 0"
  by (auto simp: is_bit_length_def)

lemma uint_div_uval:
  assumes len: "length other = length self" and nz: "uval other \<noteq> 0"
  shows "\<exists>q. uint_div self other = Ok q \<and> length q = length self \<and> uval q = uval self div uval other"
proof -
  let ?n = "length self" and ?N = "uval self" and ?D = "uval other"
  let ?mb = "bits self" and ?yb = "bits other"
  have "other \<noteq> []" using nz by (cases other) auto
  moreover from this len have ne: "self \<noteq> []" by (cases self) auto
  ultimately have mb: "is_bit_length ?mb ?N" and yb: "is_bit_length ?yb ?D"
    by (simp_all only: bits_uval not_False_eq_True)
  have yb0: "?yb \<noteq> 0" using is_bit_length_nonzero [OF yb] nz by simp
  have N: "?N < 2 ^ ?mb" and D: "?D < 2 ^ ?yb" "2 ^ (?yb - 1) \<le> ?D"
    using mb yb yb0 by (auto simp: is_bit_length_def)
  show ?thesis
  proof (cases "?mb < ?yb")
    case True
    have "?N < 2 ^ ?mb" by (rule N)
    also have "(2::nat) ^ ?mb \<le> 2 ^ (?yb - 1)" using True by (intro power_increasing) auto
    also have "\<dots> \<le> ?D" by (rule D(2))
    finally have "?N div ?D = 0" by simp
    with True yb0 show ?thesis by (simp add: uint_div_def Let_def)
  next
    case False
    let ?s = "?mb - ?yb"
    have mbn: "?mb \<le> 64 * ?n"
    proof (rule ccontr)
      assume "\<not> ?mb \<le> 64 * ?n"
      then have "(2::nat) ^ (64 * ?n) \<le> 2 ^ (?mb - 1)" by (intro power_increasing) auto
      also have "\<dots> \<le> ?N" using mb False yb0 by (auto simp: is_bit_length_def)
      finally show False using uval_less [of self] by simp
    qed
    have "?D * 2 ^ ?s < 2 ^ ?yb * 2 ^ ?s" using D(1) by simp
    also have "\<dots> = 2 ^ ?mb" using False by (simp add: power_add [symmetric])
    also have "\<dots> \<le> 2 ^ (64 * ?n)" using mbn by (intro power_increasing) auto
    finally have sc: "uval (uint_shl other ?s) = ?D * 2 ^ ?s" using len by (simp add: uval_shl)
    have "length (div_loop ?s self (uint_shl other ?s) (replicate ?n 0)) = ?n \<and>
        uval (div_loop ?s self (uint_shl other ?s) (replicate ?n 0)) = ?N div ?D"
    proof (rule div_loop_spec [OF _ _ _ _ sc])
      show "?s < 64 * ?n" using mbn yb0 False ne by (cases self) auto
      have "(2::nat) ^ ?mb = 2 ^ (?yb - 1) * 2 ^ Suc ?s"
        using False yb0 by (simp add: power_add [symmetric] del: power_Suc)
      also have "\<dots> \<le> ?D * 2 ^ Suc ?s" using D(2) by (intro mult_right_mono) auto
      finally show "?N < ?D * 2 ^ Suc ?s" using N by simp
    qed (use len in auto)
    with False yb0 show ?thesis by (simp add: uint_div_def Let_def)
  qed
qed

lemma uint_div_panics_iff:
  "self \<noteq> [] \<Longrightarrow> length other = length self \<Longrightarrow> uint_div self other = Panic \<longleftrightarrow> uval other = 0"
proof
  assume ne: "self \<noteq> []" and len: "length other = length self"
  have "is_bit_length (bits other) (uval other)" using ne len by (intro bits_uval) auto
  then have iff: "bits other = 0 \<longleftrightarrow> uval other = 0" by (rule is_bit_length_nonzero)
  show "uval other = 0" if "uint_div self other = Panic"
    using that uint_div_uval [OF len] by (metis res.distinct(3))
  show "uint_div self other = Panic" if "uval other = 0"
    using that iff by (simp add: uint_div_def)
qed

section \<open>Conversions and bit operations\<close>

lemma uval_zero [simp]: "uval (zero n) = 0"
  by (simp add: zero_def)

lemma uval_max: "uval (max_uint n) = 2 ^ (64 * n) - 1"
proof -
  have "max_uint n = uint_not (zero n)"
    by (intro nth_equalityI) (auto simp: max_uint_def uint_not_def zero_def)
  then show ?thesis by (simp add: uval_not zero_def)
qed

lemma uval_from_u64: "0 < n \<Longrightarrow> uval (from_u64 n w) = unat w"
  by (cases n) (auto simp: from_u64_def)

lemma uval_from_u128:
  assumes "2 \<le> n"
  shows "uval (from_u128 n w) = unat w"
proof -
  obtain m where n: "n = Suc (Suc m)"
    using assms by (metis add_2_eq_Suc le_Suc_ex)
  have w: "unat w < 2 ^ 128" using unsigned_less [of w, where 'a = nat] by simp
  have "w AND 0xffffffffffffffffffffffffffffffff = w"
  proof -
    have "(0xffffffffffffffffffffffffffffffff :: u128) = mask 128" by (simp add: mask_eq_exp_minus_1)
    then show ?thesis by (simp only: take_bit_eq_mask [symmetric]) (simp add: take_bit_length_eq [where 'a = 128, simplified])
  qed
  then have lo: "unat (ucast (w AND 0xffffffffffffffffffffffffffffffff) :: u64) = unat w mod 2 ^ 64"
    by (simp only: unsigned_ucast_eq take_bit_eq_mod) simp
  have "unat (drop_bit 64 w) = unat w div 2 ^ 64"
    by (simp only: unat_drop_bit_eq) (rule drop_bit_eq_div)
  moreover have "unat w div 2 ^ 64 < 2 ^ 64" using w by (simp add: div_less_iff_less_mult)
  ultimately have hi: "unat (ucast (drop_bit 64 w) :: u64) = unat w div 2 ^ 64"
    by (simp only: unsigned_ucast_eq take_bit_eq_mod) simp
  have "from_u128 n w = ucast (w AND 0xffffffffffffffffffffffffffffffff) # ucast (drop_bit 64 w) # replicate m 0"
    by (simp add: from_u128_def n)
  then have "uval (from_u128 n w) = unat w mod 2 ^ 64 + 2 ^ 64 * (unat w div 2 ^ 64)"
    by (simp only: uval.simps lo hi uval_replicate_0 mult_0_right add_0_right)
  then show ?thesis by (simp only: mod_mult_div_eq)
qed

lemma from_uint256_eq: "length n = 4 \<Longrightarrow> from_uint256 n = n @ replicate 4 0"
  by (auto simp: from_uint256_def length_Suc_conv eval_nat_numeral)

lemma to_uint256_eq: "4 \<le> length n \<Longrightarrow> to_uint256 n = take 4 n"
proof -
  assume "4 \<le> length n"
  then obtain a b c d r where "n = a # b # c # d # r"
    by (auto simp: eval_nat_numeral Suc_le_length_iff)
  then show ?thesis by (simp add: to_uint256_def eval_nat_numeral)
qed

lemma uval_from_uint256: "length n = 4 \<Longrightarrow> uval (from_uint256 n) = uval n"
  by (simp add: from_uint256_eq uval_append)

lemma uval_to_uint256: "4 \<le> length n \<Longrightarrow> uval (to_uint256 n) = uval n mod 2 ^ 256"
  by (simp add: to_uint256_eq uval_take)

lemma length_conversions [simp]:
  "length (zero n) = n" "length (max_uint n) = n" "length (from_u128 n w) = n"
  "length (from_u64 n w64) = n" "length (uint_bitand a b) = length a"
  "length (uint_bitor a b) = length a" "length (uint_bitxor a b) = length a"
  by (simp_all add: zero_def max_uint_def from_u128_def from_u64_def uint_bitand_def
      uint_bitor_def uint_bitxor_def)

lemma length_from_uint256 [simp]: "length (from_uint256 n) = 8"
proof -
  have "length (fold (\<lambda>i tmp. tmp[i := n ! i]) is tmp) = length tmp" for "is" and tmp :: uint
    by (induction "is" arbitrary: tmp) auto
  then show ?thesis by (simp add: from_uint256_def)
qed

lemma length_to_uint256 [simp]: "length (to_uint256 n) = 4"
proof -
  have "length (fold (\<lambda>i tmp. tmp[i := n ! i]) is tmp) = length tmp" for "is" and tmp :: uint
    by (induction "is" arbitrary: tmp) auto
  then show ?thesis by (simp add: to_uint256_def)
qed

lemma uval_bitwise:
  assumes "length b = length a"
  shows "uval (uint_bitand a b) = uval a AND uval b"
    and "uval (uint_bitor a b) = uval a OR uval b"
    and "uval (uint_bitxor a b) = uval a XOR uval b"
  using assms
  by (auto intro!: bit_eqI simp: bit_uval bit_and_iff bit_or_iff bit_xor_iff
      uint_bitand_def uint_bitor_def uint_bitxor_def)

lemma uint_bit_uval:
  assumes "i div 64 < length arr"
  shows "uint_bit arr i = Ok (bit (uval arr) i)"
proof -
  have "(w AND push_bit k 1 \<noteq> 0) = bit w k" for w :: u64 and k :: nat
    by (simp add: and_exp_eq_0_iff_not_bit push_bit_eq_mult)
  then show ?thesis using assms by (simp add: uint_bit_def nth_res_def bit_uval)
qed

lemma nth_mask_loop:
  assumes "length ret = length arr" "j \<le> length arr" "k < length arr" "64 * j \<le> n"
  shows "mask_loop arr n [j..<length arr] ret ! k =
    (if k < j then ret ! k else if 64 * (k + 1) \<le> n then arr ! k
     else if 64 * k \<le> n then arr ! k AND (push_bit (n - 64 * k) 1 - 1) else ret ! k)"
  using assms(2,1,4)
proof (induction j arbitrary: ret rule: inc_induct)
  case base
  then show ?case using assms(3) by simp
next
  case (step j)
  have upt: "[j..<length arr] = j # [Suc j..<length arr]" using step by (simp add: upt_conv_Cons)
  show ?case
  proof (cases "n \<ge> 64 * (j + 1)")
    case True
    then show ?thesis using step.IH [of "ret[j := arr ! j]"] step.prems step.hyps
      by (auto simp: upt nth_list_update less_Suc_eq)
  next
    case False
    consider "k < j" | "k = j" | "j < k" by linarith
    then show ?thesis using False step.prems step.hyps assms(3)
      by cases (auto simp: upt nth_list_update not_le)
  qed
qed

lemma length_mask_loop: "length (mask_loop arr n is ret) = length ret"
  by (induction arr n "is" ret rule: mask_loop.induct) auto

lemma length_uint_mask [simp]: "length (uint_mask arr n) = length arr"
  by (simp add: uint_mask_def length_mask_loop)

lemma bit_low_mask:
  fixes w :: u64
  shows "bit (w AND (push_bit m 1 - 1)) t \<longleftrightarrow> t < m \<and> bit w t"
proof -
  have "push_bit m 1 - 1 = (mask m :: u64)" by (simp add: mask_eq_exp_minus_1)
  then show ?thesis by (auto simp: bit_and_iff bit_mask_iff dest: bit_imp_possible_bit)
qed

lemma uval_mask: "uval (uint_mask arr n) = uval arr mod 2 ^ n"
proof -
  have "uval (uint_mask arr n) = take_bit n (uval arr)"
  proof (rule bit_eqI)
    fix j :: nat
    define k where "k = j div 64"
    define t where "t = j mod 64"
    have j: "j = 64 * k + t" by (simp add: k_def t_def)
    have t: "t < 64" by (simp add: t_def)
    note bit_j = bit_uval [of _ j, folded k_def t_def]
    show "bit (uval (uint_mask arr n)) j = bit (take_bit n (uval arr)) j"
    proof (cases "k < length arr")
      case True
      have nth: "uint_mask arr n ! k = (if 64 * (k + 1) \<le> n then arr ! k
          else if 64 * k \<le> n then arr ! k AND (push_bit (n - 64 * k) 1 - 1) else 0)"
        using nth_mask_loop [of "replicate (length arr) 0" arr 0 k n] True
        by (simp only: uint_mask_def) simp
      consider "64 * (k + 1) \<le> n" | "\<not> 64 * (k + 1) \<le> n" "64 * k \<le> n" | "\<not> 64 * k \<le> n"
        by blast
      then show ?thesis
      proof cases
        case 1
        then have "j < n" using j t by simp
        with 1 True nth show ?thesis by (simp add: bit_j bit_take_bit_iff)
      next
        case 2
        have "j < n \<longleftrightarrow> t < n - 64 * k" using 2 j by arith
        moreover have "uint_mask arr n ! k = arr ! k AND (push_bit (n - 64 * k) 1 - 1)"
          unfolding nth using 2 by (simp only: if_True if_False)
        ultimately show ?thesis using True
          by (simp only: bit_j bit_take_bit_iff length_uint_mask bit_low_mask simp_thms)
      next
        case 3
        then have "\<not> j < n" using j by simp
        with 3 True nth show ?thesis by (simp add: bit_j bit_take_bit_iff)
      qed
    qed (auto simp: bit_j bit_take_bit_iff)
  qed
  then show ?thesis by (simp add: take_bit_eq_mod)
qed

lemma uval_bit_slice: "uval (uint_bit_slice a i j) = (uval a div 2 ^ i) mod 2 ^ (j - i)"
  by (simp add: uint_bit_slice_def uval_mask uval_shr)

lemma unat_plus_one: "unat (x + 1) = (if x + 1 = 0 then 0 else unat x + 1)" for x :: u64
  using unatSuc [of x] by (simp add: add.commute)

lemma uval_increment:
  assumes "length a = 4"
  shows "uval (increment a) = (uval a + 1) mod 2 ^ 256"
proof -
  obtain w x y z where a: "a = [w, x, y, z]"
    using assms by (auto simp: length_Suc_conv eval_nat_numeral)
  have max: "unat v = 2 ^ 64 - 1" if "v + 1 = 0" for v :: u64
  proof -
    from that have "v = - 1" by (simp add: eq_neg_iff_add_eq_0)
    then show ?thesis by (simp add: unsigned_minus_1_eq_mask mask_eq_exp_minus_1)
  qed
  have lt: "uval (increment a) < 2 ^ 256"
  proof -
    have "length (increment a) = 4" using assms by (simp add: increment_def Let_def)
    then show ?thesis using uval_less [of "increment a"] by simp
  qed
  have "uval (increment a) = uval a + 1 \<or> uval (increment a) + 2 ^ 256 = uval a + 1"
    unfolding a increment_def Let_def
    by (auto simp: unat_plus_one max)
  then show ?thesis
  proof
    assume "uval (increment a) = uval a + 1"
    with lt show ?thesis by simp
  next
    assume "uval (increment a) + 2 ^ 256 = uval a + 1"
    then have "(uval a + 1) mod 2 ^ 256 = uval (increment a) mod 2 ^ 256"
      by (metis mod_add_self2)
    with lt show ?thesis by simp
  qed
qed

section \<open>Numbers as limbs\<close>

primrec nat_to_uint :: "nat \<Rightarrow> nat \<Rightarrow> uint" where
  "nat_to_uint 0 v = []"
| "nat_to_uint (Suc n) v = of_nat v # nat_to_uint n (v div 2 ^ 64)"

lemma length_nat_to_uint [simp]: "length (nat_to_uint n v) = n"
  by (induction n arbitrary: v) auto

lemma uval_nat_to_uint: "uval (nat_to_uint n v) = v mod 2 ^ (64 * n)"
proof (induction n arbitrary: v)
  case (Suc n)
  have "v mod 2 ^ (64 * Suc n) = v mod 2 ^ 64 + 2 ^ 64 * (v div 2 ^ 64 mod 2 ^ (64 * n))"
    using mod_mult2_eq [of v "2 ^ 64" "2 ^ (64 * n)"] by (simp add: power_add)
  then show ?case using Suc by (simp add: unsigned_of_nat take_bit_eq_mod)
qed simp

lemma uint_eq_nat_to_uint: "length x = n \<Longrightarrow> uval x = v \<Longrightarrow> x = nat_to_uint n v"
  using uval_less [of x] by (intro uval_inject) (simp_all add: uval_nat_to_uint)

section \<open>Properties\<close>

text \<open>C5. Addition, subtraction, multiplication and left shift of the limb arrays are arithmetic modulo
  \<open>2 ^ (64 * n)\<close>, right shift is exact division by a power of two, and comparison is comparison of the
  numbers, for every number of limbs.\<close>

theorem uint_ring_operations:
  assumes "length b = length a"
  shows "uval (uint_add a b) = (uval a + uval b) mod 2 ^ (64 * length a)
    \<and> (uval (uint_sub a b) + uval b) mod 2 ^ (64 * length a) = uval a
    \<and> uval (uint_mul a b) = (uval a * uval b) mod 2 ^ (64 * length a)
    \<and> uval (uint_shl a s) = (uval a * 2 ^ s) mod 2 ^ (64 * length a)
    \<and> uval (uint_shr a s) = uval a div 2 ^ s
    \<and> (uint_cmp a b = Less \<longleftrightarrow> uval a < uval b) \<and> (uint_cmp a b = Equal \<longleftrightarrow> a = b)"
proof (intro conjI)
  have lt: "uval a < 2 ^ (64 * length a)" "uval b < 2 ^ (64 * length a)"
    using uval_less [of a] uval_less [of b] assms by simp_all
  show "(uval (uint_sub a b) + uval b) mod 2 ^ (64 * length a) = uval a"
    using lt by (simp add: uval_sub assms)
  show "uint_cmp a b = Equal \<longleftrightarrow> a = b"
    using uval_inject [OF assms [symmetric]] by (auto simp: uint_cmp_uval assms)
qed (use assms in \<open>simp_all add: uval_add uval_mul uval_shl uval_shr uint_cmp_uval\<close>)

theorem uint_ring_operations_witness:
  "uval (uint_add [0xffffffffffffffff, 0] [1, 0]) = 2 ^ 64"
  using uint_ring_operations [of "[1, 0]" "[0xffffffffffffffff, 0]" 0] by simp

text \<open>C4. Division of limb arrays of the same length returns the exact quotient for every nonzero divisor
  and panics exactly on a zero divisor.\<close>

theorem uint_division:
  assumes "a \<noteq> []" "length b = length a"
  shows "if uval b = 0 then uint_div a b = (Panic :: (unit, _) res)
    else \<exists>q. uint_div a b = (Ok q :: (unit, _) res) \<and> length q = length a \<and> uval q = uval a div uval b"
proof (cases "uval b = 0")
  case True
  then show ?thesis using uint_div_panics_iff [OF assms] by simp
next
  case False
  then show ?thesis using uint_div_uval [OF assms(2) False] by simp
qed

theorem uint_division_witness:
  "\<exists>q. uint_div [0, 1] [10, 0] = (Ok q :: (unit, _) res) \<and> uval q = 2 ^ 64 div 10"
  using uint_division [of "[0, 1]" "[10, 0]"] by auto

end
