(* ===== verification/Distribution.thy ===== *)
theory Distribution
  imports BurnOps Uint_Arith
begin

text \<open>
  The burn distribution of a block (\<^verbatim>\<open>src/chainstate/burn/distribution.rs\<close>): block commits are paired
  with the leader keys they consume, user burns are credited to the commit they support, and the
  space of 256-bit hashes is divided among the commits in proportion to their burns. A \<^verbatim>\<open>BTreeMap\<close> is a
  partial function, a panicking assertion is \<open>Panic\<close>.

  The lemmas give a closed form for each stage: the first commit of every key survives, user burns
  are summed on the commit they name, and the ranges are contiguous, cover the whole space and are
  the exact floor of the proportional share.
\<close>

record BurnSamplePoint =
  burns :: u128
  range_start :: uint
  range_end :: uint
  candidate :: LeaderBlockCommitOp
  leader_key :: LeaderKeyRegisterOp
  user_burns :: "UserBurnSupportOp list"

section \<open>Definitions\<close>

fun strictly_increasing :: "u32 list \<Rightarrow> bool" where
  "strictly_increasing (x # y # ys) \<longleftrightarrow> x < y \<and> strictly_increasing (y # ys)"
| "strictly_increasing _ \<longleftrightarrow> True"

definition ops_sanity_checks :: "LeaderBlockCommitOp list \<Rightarrow> UserBurnSupportOp list \<Rightarrow> ('e, unit) res" where
  "ops_sanity_checks block_candidates us =
     (if length block_candidates > 1 \<and>
         (list_ex (\<lambda>bc. bc_block_height bc \<noteq> bc_block_height (hd block_candidates)) (tl block_candidates)
          \<or> \<not> strictly_increasing (map bc_vtxindex block_candidates)) then Panic
      else if length us > 1 \<and>
         (list_ex (\<lambda>u. ub_block_height u \<noteq> ub_block_height (hd us)) us
          \<or> \<not> strictly_increasing (map ub_vtxindex us)) then Panic
      else Ok ())"

text \<open>The position of a leader key in the burnchain, as the key has it and as a commit points to it.\<close>

definition key_loc :: "LeaderKeyRegisterOp \<Rightarrow> u64 \<times> u32" where
  "key_loc k = (lk_block_height k, lk_vtxindex k)"

definition commit_key_loc :: "LeaderBlockCommitOp \<Rightarrow> u64 \<times> u32" where
  "commit_key_loc bc = (ucast (bc_key_block_ptr bc), ucast (bc_key_vtxindex bc))"

type_synonym key_index = "u64 \<times> u32 \<Rightarrow> nat option"

definition make_key_index :: "LeaderKeyRegisterOp list \<Rightarrow> ('e, key_index) res" where
  "make_key_index keys = fold_res (index_step key_loc keys) [0..<length keys] Map.empty"

definition sample_point :: "LeaderBlockCommitOp \<Rightarrow> LeaderKeyRegisterOp \<Rightarrow> BurnSamplePoint" where
  "sample_point bc k =
     \<lparr>burns = ucast (bc_burn_fee bc), range_start = zero 4, range_end = zero 4, candidate = bc,
      leader_key = k, user_burns = []\<rparr>"

definition consume_step :: "LeaderKeyRegisterOp list \<Rightarrow> LeaderBlockCommitOp \<Rightarrow> key_index \<times> BurnSamplePoint list
    \<Rightarrow> ('e, key_index \<times> BurnSamplePoint list) res" where
  "consume_step keys bc st =
     (let (idx, burn_sample) = st in
      case idx (commit_key_loc bc) of
        None \<Rightarrow> Ok (idx, burn_sample)
      | Some i \<Rightarrow> and_then (nth_res keys i) (\<lambda>k.
          Ok (idx(commit_key_loc bc := None), burn_sample @ [sample_point bc k])))"

text \<open>The pair a user burn must name to support a sample point.\<close>

definition burn_key :: "externals \<Rightarrow> BurnSamplePoint \<Rightarrow> bytes \<times> bytes" where
  "burn_key X s = (lk_public_key (leader_key s), ripemd160 X (bc_block_header_hash (candidate s)))"

definition user_burn_key :: "UserBurnSupportOp \<Rightarrow> bytes \<times> bytes" where
  "user_burn_key u = (ub_public_key u, ub_block_header_hash_160 u)"

type_synonym burn_index = "bytes \<times> bytes \<Rightarrow> nat option"

definition apply_user_burn :: "burn_index \<Rightarrow> UserBurnSupportOp \<Rightarrow> BurnSamplePoint list \<Rightarrow> ('e, BurnSamplePoint list) res" where
  "apply_user_burn idx user_burn burn_sample =
     (case idx (user_burn_key user_burn) of
        None \<Rightarrow> Ok burn_sample
      | Some i \<Rightarrow> and_then (nth_res burn_sample i) (\<lambda>s.
          Ok (burn_sample[i := s\<lparr>burns := burns s + ucast (ub_burn_fee user_burn),
                                user_burns := user_burns s @ [user_burn]\<rparr>])))"

definition apply_user_burns :: "externals \<Rightarrow> BurnSamplePoint list \<Rightarrow> UserBurnSupportOp list \<Rightarrow> ('e, BurnSamplePoint list) res" where
  "apply_user_burns X burn_sample us =
     and_then (fold_res (index_step (burn_key X) burn_sample) [0..<length burn_sample] Map.empty) (\<lambda>idx.
     fold_res (apply_user_burn idx) us burn_sample)"

definition get_total_burns :: "BurnSamplePoint list \<Rightarrow> u64 option" where
  "get_total_burns burn_dist =
     (let total = fold (\<lambda>s burns_so_far. burns_so_far + burns s) burn_dist (0 :: u128) in
      if total \<ge> ucast (- 1 :: u64) then None else Some (ucast total))"

text \<open>\<^verbatim>\<open>((Uint512::from_uint256(&Uint256::max()) * burn_acc) / total_burns).to_uint256()\<close>\<close>

definition range_end_at :: "uint \<Rightarrow> uint \<Rightarrow> ('e, uint) res" where
  "range_end_at total_burns burn_acc =
     and_then (uint_div (uint_mul (from_uint256 (max_uint 4)) burn_acc) total_burns) (\<lambda>q. Ok (to_uint256 q))"

definition range_step :: "uint \<Rightarrow> nat \<Rightarrow> BurnSamplePoint list \<times> uint \<Rightarrow> ('e, BurnSamplePoint list \<times> uint) res" where
  "range_step total_burns i st =
     (let (bs, burn_acc) = st;
          bs = bs[i := (bs ! i)\<lparr>range_start := range_end (bs ! (i - 1))\<rparr>];
          burn_acc = uint_add burn_acc (from_u128 8 (burns (bs ! i))) in
      and_then (range_end_at total_burns burn_acc) (\<lambda>e.
      Ok (bs[i := (bs ! i)\<lparr>range_end := e\<rparr>], burn_acc)))"

definition make_sortition_ranges :: "BurnSamplePoint list \<Rightarrow> ('e, BurnSamplePoint list) res" where
  "make_sortition_ranges bs =
     (if length bs = 0 then Ok bs
      else if length bs = 1 then Ok (bs[0 := (bs ! 0)\<lparr>range_start := zero 4, range_end := max_uint 4\<rparr>])
      else and_then (expect (get_total_burns bs)) (\<lambda>total.
        let total_burns = from_u128 8 (ucast total);
            burn_acc = from_u128 8 (burns (bs ! 0)) in
        and_then (range_end_at total_burns burn_acc) (\<lambda>e.
        and_then (fold_res (range_step total_burns) [1..<length bs]
                    (bs[0 := (bs ! 0)\<lparr>range_start := zero 4, range_end := e\<rparr>], burn_acc))
          (\<lambda>(bs, _). Ok bs))))"

definition make_distribution :: "externals \<Rightarrow> LeaderBlockCommitOp list \<Rightarrow> LeaderKeyRegisterOp list
    \<Rightarrow> UserBurnSupportOp list \<Rightarrow> ('e, BurnSamplePoint list) res" where
  "make_distribution X all_block_candidates consumed_leader_keys us =
     (if length all_block_candidates = 0 then Ok []
      else and_then (ops_sanity_checks all_block_candidates us) (\<lambda>_.
        and_then (make_key_index consumed_leader_keys) (\<lambda>idx.
        if list_ex (\<lambda>bc. idx (commit_key_loc bc) = None) all_block_candidates then Panic
        else and_then (fold_res (consume_step consumed_leader_keys) all_block_candidates (idx, []))
          (\<lambda>(_, burn_sample).
           and_then (apply_user_burns X burn_sample us) make_sortition_ranges))))"

section \<open>Reference forms\<close>

text \<open>The elements whose \<open>f\<close>-value does not occur earlier in the list or in \<open>seen\<close>.\<close>

fun firsts_by :: "('a \<Rightarrow> 'b) \<Rightarrow> 'b set \<Rightarrow> 'a list \<Rightarrow> 'a list" where
  "firsts_by f seen [] = []"
| "firsts_by f seen (x # xs) =
     (if f x \<in> seen then firsts_by f seen xs else x # firsts_by f (insert (f x) seen) xs)"

definition burn_sum :: "BurnSamplePoint list \<Rightarrow> nat" where
  "burn_sum bs = (\<Sum>s\<leftarrow>bs. unat (burns s))"

definition credit_user_burns :: "UserBurnSupportOp list \<Rightarrow> BurnSamplePoint \<Rightarrow> BurnSamplePoint" where
  "credit_user_burns us s =
     s\<lparr>burns := burns s + (\<Sum>u\<leftarrow>us. ucast (ub_burn_fee u)), user_burns := user_burns s @ us\<rparr>"

text \<open>The end of the \<open>i\<close>-th range, on natural numbers.\<close>

definition share_end :: "BurnSamplePoint list \<Rightarrow> nat \<Rightarrow> nat" where
  "share_end bs i = (2 ^ 256 - 1) * burn_sum (take (Suc i) bs) div burn_sum bs"

definition ranged :: "BurnSamplePoint list \<Rightarrow> nat \<Rightarrow> BurnSamplePoint" where
  "ranged bs i = (bs ! i)\<lparr>range_start := (if i = 0 then zero 4 else nat_to_uint 4 (share_end bs (i - 1))),
                          range_end := nat_to_uint 4 (share_end bs i)\<rparr>"

text \<open>What \<^verbatim>\<open>make_sortition_ranges\<close> leaves alone.\<close>

definition core :: "BurnSamplePoint \<Rightarrow> BurnSamplePoint" where
  "core s = s\<lparr>range_start := [], range_end := []\<rparr>"

section \<open>The ranges\<close>

lemma u128_less: "unat (w :: u128) < 2 ^ 128"
  using unsigned_less [of w, where 'a = nat] by simp

lemma range_end_at_eq:
  assumes len: "length tb = 8" "length acc = 8" and T: "0 < uval tb" "uval tb < 2 ^ 128" and A: "uval acc \<le> uval tb"
  shows "(range_end_at tb acc :: ('e, uint) res) = Ok (nat_to_uint 4 ((2 ^ 256 - 1) * uval acc div uval tb))"
proof -
  define M where "M = (2 :: nat) ^ 256 - 1"
  let ?m = "uint_mul (from_uint256 (max_uint 4)) acc"
  have M: "M < 2 ^ 256" by (simp add: M_def)
  have "uval (from_uint256 (max_uint 4)) = M"
    by (simp add: uval_from_uint256 uval_max M_def)
  then have "uval ?m = (M * uval acc) mod 2 ^ 512"
    using len by (simp add: uval_mul)
  moreover have "M * uval acc < 2 ^ 256 * 2 ^ 256"
    using M T A by (intro mult_strict_mono) auto
  ultimately have m: "uval ?m = M * uval acc" by simp
  obtain q where q: "(uint_div ?m tb :: ('e, uint) res) = Ok q" "length q = 8" "uval q = M * uval acc div uval tb"
    using uint_div_uval [of tb ?m] len T m by auto
  have "M * uval acc div uval tb \<le> M * uval tb div uval tb"
    using A by (intro div_le_mono mult_le_mono2)
  then have "uval q < 2 ^ 256" using q(3) M T by simp
  then have "to_uint256 q = nat_to_uint 4 (M * uval acc div uval tb)"
    using q by (intro uint_eq_nat_to_uint) (simp_all add: uval_to_uint256)
  then show ?thesis using q(1) by (simp add: range_end_at_def M_def)
qed

lemma from_u128_eq: "from_u128 8 w = nat_to_uint 8 (unat w)"
  by (intro uint_eq_nat_to_uint) (simp_all add: uval_from_u128)

lemma uint_add_nat:
  "a + b < 2 ^ 512 \<Longrightarrow> uint_add (nat_to_uint 8 a) (nat_to_uint 8 b) = nat_to_uint 8 (a + b)"
  by (intro uint_eq_nat_to_uint) (simp_all add: uval_add uval_nat_to_uint)

lemma range_end_at_nat:
  assumes "0 < T" "T < 2 ^ 64" "A \<le> T"
  shows "(range_end_at (nat_to_uint 8 T) (nat_to_uint 8 A) :: ('e, uint) res)
    = Ok (nat_to_uint 4 ((2 ^ 256 - 1) * A div T))"
proof -
  have v: "uval (nat_to_uint 8 T) = T" "uval (nat_to_uint 8 A) = A"
    using assms by (simp_all add: uval_nat_to_uint)
  show ?thesis
    using assms range_end_at_eq [of "nat_to_uint 8 T" "nat_to_uint 8 A"] unfolding v by simp
qed

lemma burn_sum_take_Suc:
  "k < length bs \<Longrightarrow> burn_sum (take (Suc k) bs) = burn_sum (take k bs) + unat (burns (bs ! k))"
  by (simp add: burn_sum_def take_Suc_conv_app_nth)

lemma burn_sum_take_le: "burn_sum (take k bs) \<le> burn_sum bs"
proof -
  have "burn_sum (take k bs @ drop k bs) = burn_sum (take k bs) + burn_sum (drop k bs)"
    by (simp only: burn_sum_def map_append sum_list_append)
  then show ?thesis by simp
qed

lemma total_fold:
  "unat w + burn_sum bs < 2 ^ 128 \<Longrightarrow>
   unat (fold (\<lambda>s acc. acc + burns s) bs w) = unat w + burn_sum bs"
proof (induction bs arbitrary: w)
  case (Cons s bs)
  then have "unat (w + burns s) = unat w + unat (burns s)"
    by (subst unat_add_lem [symmetric]) (simp add: burn_sum_def)
  then show ?case using Cons by (simp add: burn_sum_def)
qed (simp add: burn_sum_def)

lemma get_total_burns_eq:
  assumes "burn_sum bs < 2 ^ 128"
  shows "get_total_burns bs = (if 2 ^ 64 - 1 \<le> burn_sum bs then None else Some (of_nat (burn_sum bs)))"
proof -
  let ?t = "fold (\<lambda>s acc. acc + burns s) bs 0"
  have t: "unat ?t = burn_sum bs" using total_fold [of 0 bs] assms by simp
  have m: "unat (ucast (- 1 :: u64) :: u128) = 2 ^ 64 - 1"
    by (simp add: unsigned_ucast_eq unsigned_minus_1_eq_mask mask_eq_exp_minus_1)
  have "(ucast ?t :: u64) = of_nat (burn_sum bs)" unfolding t [symmetric] by simp
  then show ?thesis unfolding get_total_burns_def Let_def word_le_nat_alt t m by simp
qed

lemma burns_range_start: "burns (s\<lparr>range_start := x\<rparr>) = burns s"
  by simp

lemma range_loop:
  assumes T: "0 < burn_sum bs" "burn_sum bs < 2 ^ 64" and k: "1 \<le> k" "k \<le> length bs"
  shows "(fold_res (range_step (nat_to_uint 8 (burn_sum bs))) [1..<k]
      (bs[0 := ranged bs 0], nat_to_uint 8 (burn_sum (take 1 bs))) :: ('e, _) res) =
    Ok (map (\<lambda>i. if i < k then ranged bs i else bs ! i) [0..<length bs], nat_to_uint 8 (burn_sum (take k bs)))"
  using k
proof (induction k rule: dec_induct)
  case base
  have "bs[0 := ranged bs 0] = map (\<lambda>i. if i < 1 then ranged bs i else bs ! i) [0..<length bs]"
  proof (cases bs)
    case (Cons s ss)
    have "ss = map (\<lambda>i. ss ! i) [0..<length ss]" by (simp add: map_nth)
    with Cons show ?thesis by (simp add: upt_conv_Cons map_Suc_upt [symmetric] comp_def del: upt_Suc)
  qed simp
  then show ?case by (simp only: upt_conv_Nil order_refl fold_res.simps)
next
  case (step k)
  let ?T = "burn_sum bs" and ?P = "burn_sum (take (Suc k) bs)"
  let ?m = "\<lambda>k. map (\<lambda>i. if i < k then ranged bs i else bs ! i) [0..<length bs]"
  have P: "?P \<le> ?T" "burn_sum (take k bs) + unat (burns (bs ! k)) = ?P"
    using step burn_sum_take_le [of "Suc k" bs] by (simp_all add: burn_sum_take_Suc)
  have acc: "uint_add (nat_to_uint 8 (burn_sum (take k bs))) (from_u128 8 (burns (bs ! k))) = nat_to_uint 8 ?P"
  proof -
    have "burn_sum (take k bs) + unat (burns (bs ! k)) < 2 ^ 512" using P T by simp
    from uint_add_nat [OF this] show ?thesis by (simp only: from_u128_eq P(2))
  qed
  have e: "(range_end_at (nat_to_uint 8 ?T) (nat_to_uint 8 ?P) :: ('e, uint) res) = Ok (nat_to_uint 4 (share_end bs k))"
    unfolding share_end_def using T P(1) by (rule range_end_at_nat)
  have upd: "(?m k)[k := (bs ! k)\<lparr>range_start := range_end (?m k ! (k - 1)), range_end := nat_to_uint 4 (share_end bs k)\<rparr>]
    = ?m (Suc k)"
  proof (rule nth_equalityI)
    have prev: "range_end (?m k ! (k - 1)) = nat_to_uint 4 (share_end bs (k - 1))"
      using step by (simp add: ranged_def)
    fix i assume "i < length ((?m k)[k := (bs ! k)\<lparr>range_start := range_end (?m k ! (k - 1)),
        range_end := nat_to_uint 4 (share_end bs k)\<rparr>])"
    then have i: "i < length bs" by simp
    show "(?m k)[k := (bs ! k)\<lparr>range_start := range_end (?m k ! (k - 1)),
        range_end := nat_to_uint 4 (share_end bs k)\<rparr>] ! i = ?m (Suc k) ! i"
    proof (cases "i = k")
      case True
      then show ?thesis using i step(1) unfolding prev by (simp add: ranged_def)
    next
      case False
      then show ?thesis using i by (simp add: less_Suc_eq)
    qed
  qed simp
  have bk: "?m k ! k = bs ! k" "k < length (?m k)" using step by simp_all
  have "(range_step (nat_to_uint 8 ?T) k (?m k, nat_to_uint 8 (burn_sum (take k bs))) :: ('e, _) res)
    = Ok (?m (Suc k), nat_to_uint 8 ?P)"
    unfolding range_step_def Let_def prod.case nth_list_update_eq [OF bk(2)] bk(1)
    by (simp only: burns_range_start acc e and_then.simps list_update_overwrite upd)
  then show ?case using step by (simp add: fold_res_append)
qed

lemma make_sortition_ranges_eq:
  assumes "2 \<le> length bs" "0 < burn_sum bs" "burn_sum bs < 2 ^ 64 - 1"
  shows "(make_sortition_ranges bs :: ('e, _) res) = Ok (map (ranged bs) [0..<length bs])"
proof -
  let ?T = "burn_sum bs"
  have t: "get_total_burns bs = Some (of_nat ?T)" using assms by (simp add: get_total_burns_eq)
  have "unat (ucast (of_nat ?T :: u64) :: u128) = ?T"
    using assms by (simp add: unsigned_ucast_eq unsigned_of_nat take_bit_eq_mod)
  then have tb: "from_u128 8 (ucast (of_nat ?T :: u64)) = nat_to_uint 8 ?T" by (simp add: from_u128_eq)
  have b0: "unat (burns (bs ! 0)) = burn_sum (take 1 bs)"
    using assms(1) by (cases bs) (simp_all add: burn_sum_def)
  then have acc: "from_u128 8 (burns (bs ! 0)) = nat_to_uint 8 (burn_sum (take 1 bs))" by (simp add: from_u128_eq)
  have "burn_sum (take 1 bs) \<le> ?T" by (rule burn_sum_take_le)
  then have e: "(range_end_at (nat_to_uint 8 ?T) (nat_to_uint 8 (burn_sum (take 1 bs))) :: ('e, uint) res)
      = Ok (nat_to_uint 4 (share_end bs 0))"
    using range_end_at_nat [of ?T "burn_sum (take 1 bs)"] assms by (simp add: share_end_def)
  have r0: "(bs ! 0)\<lparr>range_start := zero 4, range_end := nat_to_uint 4 (share_end bs 0)\<rparr> = ranged bs 0"
    by (simp add: ranged_def)
  have mm: "map (\<lambda>i. if i < length bs then ranged bs i else bs ! i) [0..<length bs] = map (ranged bs) [0..<length bs]"
    by simp
  have "1 \<le> length bs" "?T < 2 ^ 64" using assms by simp_all
  note raw = range_loop [OF assms(2) this(2) this(1) order_refl, unfolded mm take_all [OF order_refl]]
  have loop: "(fold_res (range_step (nat_to_uint 8 ?T)) [1..<length bs]
      (bs[0 := ranged bs 0], nat_to_uint 8 (burn_sum (take 1 bs))) :: ('e, _) res) =
      Ok (map (ranged bs) [0..<length bs], nat_to_uint 8 ?T)"
    by (rule raw)
  have nz: "(length bs = 0) = False" "(length bs = 1) = False" using assms(1) by auto
  have ex: "(expect (Some x) :: ('e, u64) res) = Ok x" for x by (simp add: expect_def)
  show ?thesis
    by (simp only: make_sortition_ranges_def Let_def nz if_False t ex and_then.simps tb acc e r0 loop prod.case)
qed

section \<open>Pairing commits with keys\<close>

lemma make_key_index_eq:
  "make_key_index keys = (if distinct (map key_loc keys) then Ok (index_of (map key_loc keys)) else Panic)"
  unfolding make_key_index_def by (rule index_loop_all)

lemma consume_loop:
  assumes "distinct (map key_loc keys)" "\<forall>bc\<in>set cs. commit_key_loc bc \<in> set (map key_loc keys)"
  shows "\<exists>idx'. (fold_res (consume_step keys) cs (\<lambda>l. if l \<in> seen then None else index_of (map key_loc keys) l, acc) :: ('e, _) res)
    = Ok (idx', acc @ map (\<lambda>bc. sample_point bc (keys ! the (index_of (map key_loc keys) (commit_key_loc bc))))
                  (firsts_by commit_key_loc seen cs))"
  using assms(2)
proof (induction cs arbitrary: seen acc)
  case (Cons c cs)
  let ?I = "index_of (map key_loc keys)" and ?l = "commit_key_loc c"
  show ?case
  proof (cases "?l \<in> seen")
    case True
    then show ?thesis using Cons.IH [of seen acc] Cons.prems by (simp add: consume_step_def)
  next
    case False
    have "?I ?l \<noteq> None" using Cons.prems by (auto simp: index_of_None)
    then obtain i where i: "?I ?l = Some i" by auto
    then have "i < length keys" using index_of_Some [OF assms(1)] by simp
    moreover have "(\<lambda>l. if l \<in> seen then None else ?I l)(?l := None) = (\<lambda>l. if l \<in> insert ?l seen then None else ?I l)"
      by auto
    ultimately show ?thesis
      using Cons.IH [of "insert ?l seen" "acc @ [sample_point c (keys ! i)]"] Cons.prems i False
      by (simp add: consume_step_def nth_res_def)
  qed
qed simp

lemma firsts_by_subset: "set (firsts_by f seen xs) \<subseteq> set xs"
  by (induction f seen xs rule: firsts_by.induct) auto

lemma firsts_by_distinct: "distinct (map f (firsts_by f seen xs)) \<and> f ` set (firsts_by f seen xs) \<inter> seen = {}"
  by (induction f seen xs rule: firsts_by.induct) auto

lemma firsts_by_id: "distinct (map f xs) \<Longrightarrow> f ` set xs \<inter> seen = {} \<Longrightarrow> firsts_by f seen xs = xs"
  by (induction f seen xs rule: firsts_by.induct) auto

lemma firsts_by_values: "f ` set (firsts_by f seen xs) = f ` set xs - seen"
  by (induction f seen xs rule: firsts_by.induct) auto

section \<open>Crediting user burns\<close>

lemma burn_key_credit: "burn_key X (s\<lparr>burns := b, user_burns := u\<rparr>) = burn_key X s"
  by (simp add: burn_key_def)

lemma credit_Nil [simp]: "credit_user_burns [] s = s"
  by (simp add: credit_user_burns_def)

lemma credit_Cons:
  "credit_user_burns us (s\<lparr>burns := burns s + ucast (ub_burn_fee u), user_burns := user_burns s @ [u]\<rparr>) =
   credit_user_burns (u # us) s"
  by (simp add: credit_user_burns_def algebra_simps)

lemma apply_user_burns_loop:
  assumes "distinct (map (burn_key X) bs)"
  shows "(fold_res (apply_user_burn (index_of (map (burn_key X) bs))) us bs :: ('e, _) res) =
    Ok (map (\<lambda>s. credit_user_burns (filter (\<lambda>u. user_burn_key u = burn_key X s) us) s) bs)"
  using assms
proof (induction us arbitrary: bs)
  case (Cons u us)
  let ?I = "index_of (map (burn_key X) bs)"
  show ?case
  proof (cases "?I (user_burn_key u)")
    case None
    then have "\<forall>s\<in>set bs. user_burn_key u \<noteq> burn_key X s" by (auto simp: index_of_None)
    then have "map (\<lambda>s. credit_user_burns (filter (\<lambda>u. user_burn_key u = burn_key X s) (u # us)) s) bs
      = map (\<lambda>s. credit_user_burns (filter (\<lambda>u. user_burn_key u = burn_key X s) us) s) bs"
      by (intro map_cong) auto
    then show ?thesis using None Cons by (simp add: apply_user_burn_def)
  next
    case (Some i)
    then have i: "i < length bs" "burn_key X (bs ! i) = user_burn_key u"
      using index_of_Some [OF Cons.prems] by auto
    define s' where "s' = (bs ! i)\<lparr>burns := burns (bs ! i) + ucast (ub_burn_fee u), user_burns := user_burns (bs ! i) @ [u]\<rparr>"
    have key: "burn_key X s' = burn_key X (bs ! i)" by (simp add: s'_def burn_key_credit)
    have keys: "map (burn_key X) (bs[i := s']) = map (burn_key X) bs"
      using key i(1) by (simp add: map_update list_update_same_conv)
    have "apply_user_burn ?I u bs = (Ok (bs[i := s']) :: ('e, _) res)"
      using Some i(1) by (simp add: apply_user_burn_def nth_res_def s'_def)
    moreover have "map (\<lambda>s. credit_user_burns (filter (\<lambda>u. user_burn_key u = burn_key X s) us) s) (bs[i := s'])
      = map (\<lambda>s. credit_user_burns (filter (\<lambda>u. user_burn_key u = burn_key X s) (u # us)) s) bs" (is "?l = ?r")
    proof (rule nth_equalityI)
      fix j assume "j < length ?l"
      then have j: "j < length bs" by simp
      show "?l ! j = ?r ! j"
      proof (cases "j = i")
        case True
        then show ?thesis using i key by (simp add: s'_def credit_Cons burn_key_credit)
      next
        case False
        then have "burn_key X (bs ! j) \<noteq> burn_key X (bs ! i)"
          using Cons.prems i(1) j by (metis distinct_conv_nth length_map nth_map)
        then show ?thesis using False i j by auto
      qed
    qed simp
    ultimately show ?thesis using Cons.IH [of "bs[i := s']"] Cons.prems keys by simp
  qed
qed simp

lemma apply_user_burns_eq:
  "(apply_user_burns X bs us :: ('e, _) res) =
    (if distinct (map (burn_key X) bs)
     then Ok (map (\<lambda>s. credit_user_burns (filter (\<lambda>u. user_burn_key u = burn_key X s) us) s) bs) else Panic)"
  unfolding apply_user_burns_def index_loop_all by (simp add: apply_user_burns_loop)

section \<open>The whole distribution\<close>

lemma core_simps [simp]:
  "core (s\<lparr>range_start := x\<rparr>) = core s" "core (s\<lparr>range_end := x\<rparr>) = core s"
  "candidate (core s) = candidate s" "leader_key (core s) = leader_key s" "user_burns (core s) = user_burns s"
  "burns (core s) = burns s"
  by (simp_all add: core_def)

lemma map_core_update: "core x = core (bs ! i) \<Longrightarrow> map core (bs[i := x]) = map core bs"
  by (cases "i < length bs") (simp_all add: map_update list_update_same_conv list_update_beyond)

lemma range_step_core:
  assumes "range_step tb i (bs, acc) = Ok (bs', acc')"
  shows "map core bs' = map core bs"
proof -
  from assms obtain e where "bs' = (bs[i := (bs ! i)\<lparr>range_start := range_end (bs ! (i - 1))\<rparr>])
      [i := (bs[i := (bs ! i)\<lparr>range_start := range_end (bs ! (i - 1))\<rparr>] ! i)\<lparr>range_end := e\<rparr>]"
    by (auto simp: range_step_def Let_def and_then_Ok_iff)
  then show ?thesis by (simp only: map_core_update core_simps)
qed

lemma make_sortition_ranges_core:
  assumes "make_sortition_ranges bs = (Ok bs' :: ('e, _) res)"
  shows "map core bs' = map core bs"
proof -
  consider "length bs = 0" | "length bs = 1" | "length bs \<noteq> 0" "length bs \<noteq> 1" by blast
  then show ?thesis
  proof cases
    case 3
    then obtain tb e acc acc' where
      "fold_res (range_step tb) [1..<length bs] (bs[0 := (bs ! 0)\<lparr>range_start := zero 4, range_end := e\<rparr>], acc) =
        (Ok (bs', acc') :: ('e, _) res)"
      using assms by (auto simp: make_sortition_ranges_def Let_def and_then_Ok_iff)
    then have "map core (fst (bs', acc')) = map core (bs[0 := (bs ! 0)\<lparr>range_start := zero 4, range_end := e\<rparr>])"
    proof (rule fold_res_invariant [where P = "\<lambda>st. map core (fst st) =
        map core (bs[0 := (bs ! 0)\<lparr>range_start := zero 4, range_end := e\<rparr>])"])
      fix i st st'
      assume "range_step tb i st = Ok st'" "map core (fst st) = map core (bs[0 := (bs ! 0)\<lparr>range_start := zero 4, range_end := e\<rparr>])"
      then show "map core (fst st') = map core (bs[0 := (bs ! 0)\<lparr>range_start := zero 4, range_end := e\<rparr>])"
        by (cases st; cases st') (simp add: range_step_core)
    qed simp
    then show ?thesis by (simp add: map_core_update)
  qed (use assms in \<open>auto simp: make_sortition_ranges_def map_core_update simp del: list_update.simps\<close>)
qed

lemma make_distribution_core:
  assumes "make_distribution X cs ks us = (Ok ds :: ('a, _) res)" "cs \<noteq> []"
  shows "distinct (map key_loc ks)" "\<forall>bc\<in>set cs. commit_key_loc bc \<in> set (map key_loc ks)"
    and "map core ds = map (\<lambda>bc. let s = sample_point bc (ks ! the (index_of (map key_loc ks) (commit_key_loc bc))) in
        core (credit_user_burns (filter (\<lambda>u. user_burn_key u = burn_key X s) us) s))
      (firsts_by commit_key_loc {} cs)"
proof -
  let ?s = "\<lambda>bc. sample_point bc (ks ! the (index_of (map key_loc ks) (commit_key_loc bc)))"
  let ?bs = "map ?s (firsts_by commit_key_loc {} cs)"
  from assms obtain idx st bs2 where k: "make_key_index ks = (Ok idx :: ('a, _) res)"
    and all: "\<not> list_ex (\<lambda>bc. idx (commit_key_loc bc) = None) cs"
    and l: "fold_res (consume_step ks) cs (idx, []) = (Ok st :: ('a, _) res)"
    and a: "apply_user_burns X (snd st) us = (Ok bs2 :: ('a, _) res)" and r: "make_sortition_ranges bs2 = (Ok ds :: ('a, _) res)"
    by (auto simp: make_distribution_def and_then_Ok_iff split: if_splits prod.splits)
  show d: "distinct (map key_loc ks)" and i: "\<forall>bc\<in>set cs. commit_key_loc bc \<in> set (map key_loc ks)"
    using k all by (auto simp: make_key_index_eq list_ex_iff index_of_None simp del: not_None_eq split: if_splits)
  have "idx = index_of (map key_loc ks)" using k d by (simp add: make_key_index_eq)
  moreover obtain idx' where
    "fold_res (consume_step ks) cs (index_of (map key_loc ks), []) = (Ok (idx', ?bs) :: ('a, _) res)"
    using consume_loop [OF d i, of "{}" "[]"] by auto
  ultimately have "snd st = ?bs" using l by auto
  with a have "bs2 = map (\<lambda>s. credit_user_burns (filter (\<lambda>u. user_burn_key u = burn_key X s) us) s) ?bs"
    by (simp add: apply_user_burns_eq split: if_splits)
  with make_sortition_ranges_core [OF r]
  show "map core ds = map (\<lambda>bc. let s = ?s bc in
      core (credit_user_burns (filter (\<lambda>u. user_burn_key u = burn_key X s) us) s)) (firsts_by commit_key_loc {} cs)"
    by (simp add: comp_def Let_def)
qed

lemma make_distribution_points:
  assumes "make_distribution X cs ks us = Ok ds" "i < length ds"
  defines "s \<equiv> ds ! i"
  shows "map candidate ds = firsts_by commit_key_loc {} cs"
    and "leader_key s \<in> set ks" "key_loc (leader_key s) = commit_key_loc (candidate s)"
    and "user_burns s = filter (\<lambda>u. user_burn_key u = burn_key X s) us"
    and "burns s = ucast (bc_burn_fee (candidate s)) + (\<Sum>u\<leftarrow>user_burns s. ucast (ub_burn_fee u))"
proof -
  have "cs \<noteq> []" using assms by (auto simp: make_distribution_def)
  note c = make_distribution_core [OF assms(1) this]
  let ?fs = "firsts_by commit_key_loc {} cs"
  let ?s = "\<lambda>bc. sample_point bc (ks ! the (index_of (map key_loc ks) (commit_key_loc bc)))"
  let ?c = "\<lambda>bc. core (credit_user_burns (filter (\<lambda>u. user_burn_key u = burn_key X (?s bc)) us) (?s bc))"
  have m: "map core ds = map ?c ?fs" using c(3) by (simp add: Let_def)
  have "map candidate ds = map candidate (map core ds)" by simp
  also have "\<dots> = ?fs" unfolding m by (simp add: comp_def credit_user_burns_def sample_point_def)
  finally show cand: "map candidate ds = ?fs" .
  from arg_cong [OF this, of length] have len: "length ?fs = length ds" by simp
  have "map core ds ! i = map ?c ?fs ! i" by (simp only: m)
  then have si: "core s = ?c (?fs ! i)" using assms(2) len by (simp only: nth_map s_def)
  have ci: "candidate s = ?fs ! i" unfolding cand [symmetric] using assms(2) by (simp add: s_def)
  have "i < length ?fs" using assms(2) len by simp
  from subsetD [OF firsts_by_subset nth_mem [OF this]] have "?fs ! i \<in> set cs" .
  then have "index_of (map key_loc ks) (commit_key_loc (?fs ! i)) \<noteq> None"
    using c(2) by (auto simp: index_of_None simp del: not_None_eq)
  then obtain j where j: "index_of (map key_loc ks) (commit_key_loc (?fs ! i)) = Some j" by auto
  then have jk: "j < length ks" "key_loc (ks ! j) = commit_key_loc (?fs ! i)"
    using index_of_Some [OF c(1)] by auto
  have k: "leader_key s = ks ! j"
    using arg_cong [OF si, of leader_key] by (simp add: j credit_user_burns_def sample_point_def)
  show "leader_key s \<in> set ks" "key_loc (leader_key s) = commit_key_loc (candidate s)"
    using k jk ci by auto
  have bk: "burn_key X (?s (?fs ! i)) = burn_key X s"
    using k j ci by (simp add: burn_key_def sample_point_def)
  show u: "user_burns s = filter (\<lambda>u. user_burn_key u = burn_key X s) us"
    using arg_cong [OF si, of user_burns] unfolding bk by (simp add: credit_user_burns_def sample_point_def)
  show "burns s = ucast (bc_burn_fee (candidate s)) + (\<Sum>u\<leftarrow>user_burns s. ucast (ub_burn_fee u))"
    using arg_cong [OF si, of burns] unfolding bk u ci by (simp add: credit_user_burns_def sample_point_def)
qed

section \<open>Properties of the ranges\<close>

lemma share_end_last: "bs \<noteq> [] \<Longrightarrow> 0 < burn_sum bs \<Longrightarrow> share_end bs (length bs - 1) = 2 ^ 256 - 1"
  by (simp add: share_end_def)

lemma share_end_le:
  assumes "0 < burn_sum bs"
  shows "share_end bs i \<le> 2 ^ 256 - 1"
proof -
  define M where "M = (2 :: nat) ^ 256 - 1"
  have "M * burn_sum (take (Suc i) bs) div burn_sum bs \<le> M * burn_sum bs div burn_sum bs"
    by (intro div_le_mono mult_le_mono2 burn_sum_take_le)
  then show ?thesis using assms unfolding share_end_def M_def [symmetric] by simp
qed

lemma uval_share: "0 < burn_sum bs \<Longrightarrow> uval (nat_to_uint 4 (share_end bs i)) = share_end bs i"
  using share_end_le [of bs i] by (simp add: uval_nat_to_uint)

lemma ranged_single: "length bs = 1 \<Longrightarrow> 0 < burn_sum bs \<Longrightarrow> make_sortition_ranges bs = Ok (map (ranged bs) [0..<length bs])"
proof -
  assume l: "length bs = 1" and b: "0 < burn_sum bs"
  have "bs \<noteq> []" using l by auto
  from share_end_last [OF this b] have "share_end bs 0 = 2 ^ 256 - 1" using l by simp
  moreover have "max_uint 4 = nat_to_uint 4 (2 ^ 256 - 1)"
    by (intro uint_eq_nat_to_uint) (simp_all add: uval_max)
  ultimately have "ranged bs 0 = (bs ! 0)\<lparr>range_start := zero 4, range_end := max_uint 4\<rparr>"
    by (simp only: ranged_def) simp
  then show ?thesis using l by (cases bs) (simp_all add: make_sortition_ranges_def)
qed

lemma make_sortition_ranges_ranged:
  assumes "bs \<noteq> []" "0 < burn_sum bs" "burn_sum bs < 2 ^ 64 - 1"
  shows "make_sortition_ranges bs = Ok (map (ranged bs) [0..<length bs])"
proof (cases "length bs = 1")
  case True
  then show ?thesis using assms by (intro ranged_single)
next
  case False
  moreover have "0 < length bs" using assms(1) by simp
  ultimately have "2 \<le> length bs" by linarith
  then show ?thesis using assms by (intro make_sortition_ranges_eq)
qed

lemma make_sortition_ranges_overflow:
  assumes "2 \<le> length bs" "2 ^ 64 - 1 \<le> burn_sum bs" "burn_sum bs < 2 ^ 128"
  shows "make_sortition_ranges bs = Panic"
proof -
  have "get_total_burns bs = None" using get_total_burns_eq [OF assms(3)] assms(2) by simp
  moreover have "(length bs = 0) = False" "(length bs = 1) = False" using assms(1) by auto
  ultimately show ?thesis
    by (simp only: make_sortition_ranges_def if_False expect_def option.case and_then.simps)
qed

lemma make_sortition_ranges_no_burn:
  assumes "2 \<le> length bs" "burn_sum bs = 0"
  shows "(make_sortition_ranges bs :: ('e, _) res) = Panic"
proof -
  have t: "get_total_burns bs = Some 0" using get_total_burns_eq [of bs] assms(2) by simp
  have z: "from_u128 8 (ucast (0 :: u64)) = nat_to_uint 8 0" by (simp add: from_u128_eq)
  let ?m = "uint_mul (from_uint256 (max_uint 4)) (from_u128 8 (burns (bs ! 0)))"
  have "length ?m = 8" by simp
  then have "?m \<noteq> []" by (metis list.size(3) zero_neq_numeral)
  then have "(uint_div ?m (nat_to_uint 8 0) :: ('e, _) res) = Panic"
    by (subst uint_div_panics_iff) (simp_all add: uval_nat_to_uint)
  moreover have "(length bs = 0) = False" "(length bs = 1) = False" using assms(1) by auto
  ultimately show ?thesis
    by (simp only: make_sortition_ranges_def if_False expect_def option.case and_then.simps t Let_def range_end_at_def z)
qed

section \<open>Properties\<close>

text \<open>C1. \<^verbatim>\<open>make_distribution\<close>: when it returns a distribution, the sample points are, in order, the first
  commit for every leader key location; each is paired with the registered key it points to, carries
  exactly the user burns that name its key and block, and weighs the sum of all these burns.\<close>

theorem distribution_functional:
  assumes "make_distribution X cs ks us = (Ok ds :: (op_error, _) res)" and "i < length ds"
  shows "map candidate ds = firsts_by commit_key_loc {} cs
    \<and> leader_key (ds ! i) \<in> set ks \<and> key_loc (leader_key (ds ! i)) = commit_key_loc (candidate (ds ! i))
    \<and> user_burns (ds ! i) = filter (\<lambda>u. user_burn_key u = burn_key X (ds ! i)) us
    \<and> burns (ds ! i) = ucast (bc_burn_fee (candidate (ds ! i))) + (\<Sum>u\<leftarrow>user_burns (ds ! i). ucast (ub_burn_fee u))"
  using make_distribution_points [OF assms] by blast

definition example_key :: LeaderKeyRegisterOp where
  "example_key = \<lparr>lk_consensus_hash = replicate 20 1, lk_public_key = replicate 32 3, lk_memo = [],
     lk_address = burn_address True, lk_txid = replicate 32 4, lk_vtxindex = 3, lk_block_height = 120,
     lk_burn_header_hash = replicate 32 5\<rparr>"

definition example_externals :: externals where
  "example_externals = \<lparr>sha256 = (\<lambda>d. replicate 32 (of_nat (length d))), sha512_256 = (\<lambda>d. replicate 32 (of_nat (length d))),
     ripemd160 = (\<lambda>d. replicate 20 (of_nat (length d))), edwards_decompresses = (\<lambda>_. True), ed25519_accepts = (\<lambda>_. True)\<rparr>"

lemma example_distribution:
  "make_distribution example_externals [example_commit] [example_key] [] =
     Ok [(sample_point example_commit example_key)\<lparr>range_end := max_uint 4\<rparr>]"
  by (simp add: make_distribution_def ops_sanity_checks_def make_key_index_eq index_of_def key_loc_def
      example_key_def commit_key_loc_def example_commit_def consume_step_def nth_res_def apply_user_burns_eq
      make_sortition_ranges_def sample_point_def)

theorem distribution_functional_witness:
  "\<exists>ds. make_distribution example_externals [example_commit] [example_key] [] = (Ok ds :: (op_error, _) res)
    \<and> map candidate ds = [example_commit] \<and> leader_key (ds ! 0) \<in> {example_key}"
  using distribution_functional [OF example_distribution, of 0]
  by (simp add: example_distribution sample_point_def)

text \<open>C2. \<^verbatim>\<open>make_sortition_ranges\<close>: for a nonempty sample whose burns are positive and stay below
  \<^verbatim>\<open>u64::MAX\<close>, it returns; the ranges start at 0, are contiguous, end at \<open>2 ^ 256 - 1\<close>, and the end of the
  \<open>i\<close>-th range is exactly the floor of \<open>(2 ^ 256 - 1)\<close> times the share of the burns up to \<open>i\<close>.\<close>

theorem sortition_ranges_proportional:
  assumes "bs \<noteq> []" "0 < burn_sum bs" "burn_sum bs < 2 ^ 64 - 1"
  shows "\<exists>bs'. make_sortition_ranges bs = (Ok bs' :: (op_error, _) res) \<and> length bs' = length bs
    \<and> uval (range_start (bs' ! 0)) = 0
    \<and> (\<forall>i. Suc i < length bs \<longrightarrow> range_start (bs' ! Suc i) = range_end (bs' ! i))
    \<and> (\<forall>i<length bs. uval (range_end (bs' ! i)) = (2 ^ 256 - 1) * burn_sum (take (Suc i) bs) div burn_sum bs)
    \<and> uval (range_end (bs' ! (length bs - 1))) = 2 ^ 256 - 1"
proof (intro exI conjI)
  show "make_sortition_ranges bs = (Ok (map (ranged bs) [0..<length bs]) :: (op_error, _) res)"
    using assms by (rule make_sortition_ranges_ranged)
  have v: "uval (range_end (map (ranged bs) [0..<length bs] ! i)) = share_end bs i" if "i < length bs" for i
    using that assms(2) by (simp add: ranged_def uval_share)
  show "\<forall>i<length bs. uval (range_end (map (ranged bs) [0..<length bs] ! i)) =
      (2 ^ 256 - 1) * burn_sum (take (Suc i) bs) div burn_sum bs"
    using v by (simp only: share_end_def) simp
  show "uval (range_end (map (ranged bs) [0..<length bs] ! (length bs - 1))) = 2 ^ 256 - 1"
    using v [of "length bs - 1"] share_end_last [OF assms(1,2)] assms(1) by simp
  show "uval (range_start (map (ranged bs) [0..<length bs] ! 0)) = 0"
    using assms(1) by (simp add: ranged_def zero_def)
qed (use assms in \<open>auto simp: ranged_def\<close>)

definition example_points :: "BurnSamplePoint list" where
  "example_points = [(sample_point example_commit example_key)\<lparr>burns := 1\<rparr>, (sample_point example_commit example_key)\<lparr>burns := 3\<rparr>]"

theorem sortition_ranges_proportional_witness:
  "\<exists>bs'. make_sortition_ranges example_points = (Ok bs' :: (op_error, _) res) \<and> uval (range_end (bs' ! 0)) = (2 ^ 256 - 1) div 4"
proof -
  have "example_points \<noteq> []" "burn_sum example_points = 4" "burn_sum (take 1 example_points) = 1"
    by (simp_all add: example_points_def burn_sum_def)
  then show ?thesis using sortition_ranges_proportional [of example_points] by (auto simp: example_points_def)
qed

text \<open>C3. \<^verbatim>\<open>make_sortition_ranges\<close> unwraps \<^verbatim>\<open>get_total_burns\<close>, which reports an overflow already when the
  total is exactly \<^verbatim>\<open>u64::MAX\<close>, a value that fits: two or more sample points with that total panic.\<close>

theorem sortition_ranges_panics_at_u64_max:
  assumes "2 \<le> length bs" "burn_sum bs = 2 ^ 64 - 1"
  shows "get_total_burns bs = None \<and> make_sortition_ranges bs = (Panic :: (op_error, _) res)"
proof
  have lt: "burn_sum bs < 2 ^ 128" using assms(2) by simp
  show "get_total_burns bs = None" using get_total_burns_eq [OF lt] assms(2) by simp
  show "make_sortition_ranges bs = (Panic :: (op_error, _) res)"
    using assms lt by (intro make_sortition_ranges_overflow) simp_all
qed

theorem sortition_ranges_panics_at_u64_max_witness:
  "make_sortition_ranges [(sample_point example_commit example_key)\<lparr>burns := 0xfffffffffffffffe\<rparr>,
     (sample_point example_commit example_key)\<lparr>burns := 1\<rparr>] = (Panic :: (op_error, _) res)"
  using sortition_ranges_panics_at_u64_max
    [of "[(sample_point example_commit example_key)\<lparr>burns := 0xfffffffffffffffe\<rparr>,
          (sample_point example_commit example_key)\<lparr>burns := 1\<rparr>]"]
  by (simp add: burn_sum_def)

end
