(* ===== verification/Marf.thy ===== *)
theory Marf
  imports Prelude
begin

text \<open>
  The fork index: the forest of tries of \<^verbatim>\<open>src/chainstate/stacks/index\<close> seen from its transaction
  interface (\<^verbatim>\<open>marf.rs\<close>) down to the block table of \<^verbatim>\<open>storage.rs\<close> and \<^verbatim>\<open>trie_sql.rs\<close>. A block's trie is
  represented by the finite map it denotes (its radix nodes, back-pointers and Merkle hashes are not
  modelled, nor is unconfirmed state); everything above it is the code's: the block table, the
  extension locks, the trie being written, the open block, and the three height keys every block
  stores. The lemmas show that the height keys always describe the real ancestry of a block, and
  that writing to one block changes no other.
\<close>

section \<open>Data\<close>

definition SENTINEL_ARRAY :: bytes where
  "SENTINEL_ARRAY = replicate 32 255"

datatype marf_error =
  MarfNotFoundError | MarfExistsError | MarfCorruptionError | MarfReadOnlyError | MarfInProgressError
  | MarfWriteNotBegunError | MarfSQLError | MarfNonMatchingForks bytes bytes | RestoreMarfBlockError marf_error

text \<open>The keys the forest writes itself, next to those of its client; a leaf's 40-byte value by what
  it was made from.\<close>

datatype 'k trie_key = OwnBlockHeight | HeightToHash u32 | HashToHeight bytes | IndexKey 'k
datatype 'v MARFValue = OfHeight u32 | OfBlock bytes | OfValue 'v

primrec u32_from :: "'v MARFValue \<Rightarrow> ('e, u32) res" where
  "u32_from (OfHeight h) = Ok h"
| "u32_from (OfBlock b) = Panic"
| "u32_from (OfValue v) = Panic"

primrec block_from :: "'v MARFValue \<Rightarrow> ('e, bytes) res" where
  "block_from (OfHeight h) = Panic"
| "block_from (OfBlock b) = Ok b"
| "block_from (OfValue v) = Panic"

record ('k, 'v) trie =
  tr_parent :: bytes
  tr_leaves :: "'k trie_key \<Rightarrow> 'v MARFValue option"

record ('k, 'v) TrieStorage =
  marf_data :: "(bytes \<times> ('k, 'v) trie) list"
  block_extension_locks :: "bytes list"
  last_extended :: "(bytes \<times> ('k, 'v) trie) option"
  cur_block :: bytes
  st_readonly :: bool

record ('k, 'v) MarfTransaction =
  storage :: "('k, 'v) TrieStorage"
  open_chain_tip :: "(bytes \<times> u32) option"

section \<open>Storage\<close>

definition has_block :: "('k, 'v) TrieStorage \<Rightarrow> bytes \<Rightarrow> bool" where
  "has_block st bhh = (map_of (marf_data st) bhh \<noteq> None)"

text \<open>The trie that reads of the block \<open>bhh\<close> go to: the one in memory, or the one on disk.\<close>

definition read_trie :: "('k, 'v) TrieStorage \<Rightarrow> bytes \<Rightarrow> ('k, 'v) trie option" where
  "read_trie st bhh =
     (case last_extended st of
        Some (e, t) \<Rightarrow> if e = bhh then Some t else map_of (marf_data st) bhh
      | None \<Rightarrow> map_of (marf_data st) bhh)"

definition open_block :: "('k, 'v) TrieStorage \<Rightarrow> bytes \<Rightarrow> (marf_error, ('k, 'v) TrieStorage) res" where
  "open_block st bhh =
     (if bhh = SENTINEL_ARRAY then Ok (st\<lparr>cur_block := SENTINEL_ARRAY\<rparr>)
      else if map_option fst (last_extended st) = Some bhh then Ok (st\<lparr>cur_block := bhh\<rparr>)
      else if has_block st bhh then Ok (st\<lparr>cur_block := bhh\<rparr>)
      else Err MarfNotFoundError)"

definition num_blocks :: "('k, 'v) TrieStorage \<Rightarrow> nat" where
  "num_blocks st = (if last_extended st \<noteq> None then 1 else 0) + length (marf_data st)"

definition drop_lock :: "bytes \<Rightarrow> ('k, 'v) TrieStorage \<Rightarrow> ('k, 'v) TrieStorage" where
  "drop_lock bhh st = st\<lparr>block_extension_locks := filter (\<lambda>x. x \<noteq> bhh) (block_extension_locks st)\<rparr>"

definition tx_lock_bhh_for_extension :: "('k, 'v) TrieStorage \<Rightarrow> bytes \<Rightarrow> bool \<times> ('k, 'v) TrieStorage" where
  "tx_lock_bhh_for_extension st bhh =
     (if has_block st bhh then (False, st)
      else if bhh \<in> set (block_extension_locks st) then (False, st)
      else (True, st\<lparr>block_extension_locks := bhh # block_extension_locks st\<rparr>))"

definition lock_bhh_for_extension :: "('k, 'v) TrieStorage \<Rightarrow> bytes \<Rightarrow> bool \<times> ('k, 'v) TrieStorage" where
  "lock_bhh_for_extension st bhh = (True, snd (tx_lock_bhh_for_extension st bhh))"

text \<open>\<^verbatim>\<open>inner_flush\<close> with the block's own header: the block column is unique, so a second trie for the
  same block is a failed insertion.\<close>

definition st_flush :: "('k, 'v) TrieStorage \<Rightarrow> (marf_error, ('k, 'v) TrieStorage) res" where
  "st_flush st =
     (if st_readonly st then Err MarfReadOnlyError
      else case last_extended st of
        None \<Rightarrow> Ok st
      | Some (bhh, t) \<Rightarrow>
          if has_block st bhh then Err MarfSQLError
          else Ok (drop_lock bhh (st\<lparr>marf_data := marf_data st @ [(bhh, t)], last_extended := None\<rparr>)))"

text \<open>\<^verbatim>\<open>inner_flush\<close> to another header: the trie is stored under the name \<open>real_bhh\<close>.\<close>

definition st_flush_to :: "bytes \<Rightarrow> ('k, 'v) TrieStorage \<Rightarrow> (marf_error, ('k, 'v) TrieStorage) res" where
  "st_flush_to real_bhh st =
     (if st_readonly st then Err MarfReadOnlyError
      else case last_extended st of
        None \<Rightarrow> Ok st
      | Some (bhh, t) \<Rightarrow>
          let st = (if real_bhh \<noteq> bhh then st\<lparr>cur_block := real_bhh\<rparr> else st)
          in if has_block st real_bhh then Err MarfSQLError
             else Ok (drop_lock bhh (st\<lparr>marf_data := marf_data st @ [(real_bhh, t)], last_extended := None\<rparr>)))"

definition switch_trie :: "bytes \<Rightarrow> ('k, 'v) trie \<Rightarrow> ('k, 'v) TrieStorage \<Rightarrow> ('k, 'v) TrieStorage" where
  "switch_trie bhh t st = st\<lparr>cur_block := bhh, last_extended := Some (bhh, t)\<rparr>"

definition extend_to_block :: "('k, 'v) TrieStorage \<Rightarrow> bytes \<Rightarrow> (marf_error, ('k, 'v) TrieStorage) res" where
  "extend_to_block st bhh =
     (if st_readonly st then Err MarfReadOnlyError
      else if has_block st bhh then Err MarfExistsError
      else and_then (st_flush st) (\<lambda>st.
        let trie_buf = \<lparr>tr_parent = cur_block st, tr_leaves = Map.empty\<rparr>;
            (locked, st) = lock_bhh_for_extension st bhh
        in if \<not> locked then Err MarfExistsError else Ok (switch_trie bhh trie_buf st)))"

definition drop_extending_trie :: "('k, 'v) TrieStorage \<Rightarrow> ('k, 'v) TrieStorage" where
  "drop_extending_trie st =
     (if st_readonly st then st
      else case last_extended st of
        Some (bhh, t) \<Rightarrow> (drop_lock bhh st)\<lparr>last_extended := None\<rparr>
      | None \<Rightarrow> st)"

text \<open>A write goes to the open block, which must be the one in memory.\<close>

definition write_leaves :: "(('k trie_key \<Rightarrow> 'v MARFValue option) \<Rightarrow> 'k trie_key \<Rightarrow> 'v MARFValue option)
    \<Rightarrow> ('k, 'v) TrieStorage \<Rightarrow> (marf_error, ('k, 'v) TrieStorage) res" where
  "write_leaves f st =
     (case last_extended st of
        Some (e, t) \<Rightarrow>
          if e = cur_block st then Ok (st\<lparr>last_extended := Some (e, t\<lparr>tr_leaves := f (tr_leaves t)\<rparr>)\<rparr>)
          else Panic
      | None \<Rightarrow> Panic)"

section \<open>Tries\<close>

definition root_copy :: "('k, 'v) TrieStorage \<Rightarrow> bytes \<Rightarrow> (marf_error, ('k, 'v) TrieStorage) res" where
  "root_copy st prev =
     and_then (open_block st prev) (\<lambda>st'.
       if map_option fst (last_extended st') = Some prev then Panic
       else case map_of (marf_data st') prev of
         None \<Rightarrow> Panic
       | Some t \<Rightarrow> and_then (open_block st' (cur_block st)) (write_leaves (\<lambda>_. tr_leaves t)))"

definition extend_trie :: "('k, 'v) TrieStorage \<Rightarrow> bytes \<Rightarrow> (marf_error, ('k, 'v) TrieStorage) res" where
  "extend_trie st new_bhh =
     (let cur_bhh = cur_block st
      in if num_blocks st = 0 \<or> cur_bhh = SENTINEL_ARRAY then
           and_then (extend_to_block st new_bhh) (write_leaves (\<lambda>_. Map.empty))
         else case open_block st new_bhh of
           Ok st' \<Rightarrow> Ok st'
         | Err MarfNotFoundError \<Rightarrow>
             and_then (open_block st cur_bhh) (\<lambda>st.
             and_then (extend_to_block st new_bhh) (\<lambda>st.
             and_then (root_copy st cur_bhh) (\<lambda>st. open_block st new_bhh)))
         | Err e \<Rightarrow> Err e
         | Panic \<Rightarrow> Panic)"

definition insert_leaf :: "bytes \<Rightarrow> 'k trie_key \<times> 'v MARFValue \<Rightarrow> ('k, 'v) TrieStorage
    \<Rightarrow> (marf_error, ('k, 'v) TrieStorage) res" where
  "insert_leaf bhh kv st = and_then (extend_trie st bhh) (write_leaves (\<lambda>m. m(fst kv \<mapsto> snd kv)))"

definition inner_insert_batch :: "('k, 'v) TrieStorage \<Rightarrow> bytes \<Rightarrow> 'k trie_key list \<Rightarrow> 'v MARFValue list
    \<Rightarrow> (marf_error, ('k, 'v) TrieStorage) res" where
  "inner_insert_batch conn block_hash ks vs =
     (if length ks \<noteq> length vs then Panic
      else if ks = [] then Ok conn
      else and_then (fold_res (insert_leaf block_hash) (zip ks vs) conn) (\<lambda>conn'. open_block conn' (cur_block conn)))"

definition get_path :: "('k, 'v) TrieStorage \<Rightarrow> bytes \<Rightarrow> 'k trie_key \<Rightarrow> (marf_error, 'v MARFValue option) res" where
  "get_path st block_hash key =
     and_then (open_block st block_hash) (\<lambda>st.
       case read_trie st (cur_block st) of
         None \<Rightarrow> Err MarfNotFoundError
       | Some t \<Rightarrow> (case tr_leaves t key of None \<Rightarrow> Err MarfNotFoundError | Some v \<Rightarrow> Ok (Some v)))"

definition get_by_key :: "('k, 'v) TrieStorage \<Rightarrow> bytes \<Rightarrow> 'k trie_key \<Rightarrow> (marf_error, 'v MARFValue option) res" where
  "get_by_key st block_hash key =
     (let result = (case get_path st block_hash key of Err MarfNotFoundError \<Rightarrow> Ok None | r \<Rightarrow> r)
      in and_then (open_block st (cur_block st)) (\<lambda>_. result))"

section \<open>Heights\<close>

definition get_block_height_miner_tip :: "('k, 'v) TrieStorage \<Rightarrow> bytes \<Rightarrow> bytes \<Rightarrow> (marf_error, u32 option) res" where
  "get_block_height_miner_tip st block_hash current_block_hash =
     and_then (get_by_key st current_block_hash
       (if block_hash = current_block_hash then OwnBlockHeight else HashToHeight block_hash))
     (\<lambda>v. case v of None \<Rightarrow> Ok None | Some x \<Rightarrow> and_then (u32_from x) (\<lambda>h. Ok (Some h)))"

definition get_block_height :: "('k, 'v) TrieStorage \<Rightarrow> bytes \<Rightarrow> bytes \<Rightarrow> (marf_error, u32 option) res" where
  "get_block_height st block_hash current_block_hash = get_block_height_miner_tip st block_hash current_block_hash"

definition get_block_at_height :: "('k, 'v) TrieStorage \<Rightarrow> u32 \<Rightarrow> bytes \<Rightarrow> (marf_error, bytes option) res" where
  "get_block_at_height st height current_block_hash =
     and_then (get_block_height st current_block_hash current_block_hash) (\<lambda>r.
       case r of
         None \<Rightarrow> Ok None
       | Some current_block_height \<Rightarrow>
           if height = current_block_height then Ok (Some current_block_hash)
           else and_then (get_by_key st current_block_hash (HeightToHash height))
             (\<lambda>v. case v of None \<Rightarrow> Ok None | Some x \<Rightarrow> and_then (block_from x) (\<lambda>b. Ok (Some b))))"

definition height_entries :: "bytes \<Rightarrow> bytes \<Rightarrow> u32 \<Rightarrow> ('k trie_key \<times> 'v MARFValue) list" where
  "height_entries block_hash next_block_hash height =
     [(OwnBlockHeight, OfHeight height), (HeightToHash height, OfBlock next_block_hash),
      (HashToHeight next_block_hash, OfHeight height)] @
     (if height > 0 then
        [(HeightToHash (height - 1), OfBlock block_hash), (HashToHeight block_hash, OfHeight (height - 1))]
      else [])"

section \<open>Transactions\<close>

definition insert_batch :: "('k, 'v) MarfTransaction \<Rightarrow> 'k trie_key list \<Rightarrow> 'v MARFValue list
    \<Rightarrow> (marf_error, ('k, 'v) MarfTransaction) res" where
  "insert_batch tx ks vs =
     (if st_readonly (storage tx) then Err MarfReadOnlyError
      else if length ks \<noteq> length vs then Panic
      else case open_chain_tip tx of
        None \<Rightarrow> Err MarfWriteNotBegunError
      | Some (block_hash, _) \<Rightarrow>
          if ks = [] then Ok tx
          else and_then (inner_insert_batch (storage tx) block_hash ks vs) (\<lambda>st. Ok (tx\<lparr>storage := st\<rparr>)))"

definition set_block_heights :: "('k, 'v) MarfTransaction \<Rightarrow> bytes \<Rightarrow> bytes \<Rightarrow> u32
    \<Rightarrow> (marf_error, ('k, 'v) MarfTransaction) res" where
  "set_block_heights tx block_hash next_block_hash height =
     (if st_readonly (storage tx) then Err MarfReadOnlyError
      else let entries = height_entries block_hash next_block_hash height
           in insert_batch tx (map fst entries) (map snd entries))"

definition inner_get_extension_height :: "('k, 'v) MarfTransaction \<Rightarrow> bytes
    \<Rightarrow> (marf_error, u32 \<times> ('k, 'v) MarfTransaction) res" where
  "inner_get_extension_height tx chain_tip =
     and_then (open_block (storage tx) chain_tip) (\<lambda>st.
       if chain_tip = SENTINEL_ARRAY then Ok (0, tx\<lparr>storage := st\<rparr>)
       else and_then (get_block_height_miner_tip st chain_tip chain_tip) (\<lambda>r.
         and_then (ok_or r MarfCorruptionError) (\<lambda>height.
         and_then (expect (checked_add height 1)) (\<lambda>h. Ok (h, tx\<lparr>storage := st\<rparr>)))))"

definition inner_setup_extension :: "('k, 'v) MarfTransaction \<Rightarrow> bytes \<Rightarrow> bytes \<Rightarrow> u32
    \<Rightarrow> (marf_error, ('k, 'v) MarfTransaction) res" where
  "inner_setup_extension tx chain_tip next_chain_tip block_height =
     and_then (open_block (storage tx) next_chain_tip) (\<lambda>st.
       set_block_heights (tx\<lparr>storage := st, open_chain_tip := Some (next_chain_tip, block_height)\<rparr>)
         chain_tip next_chain_tip block_height)"

definition marf_begin :: "('k, 'v) MarfTransaction \<Rightarrow> bytes \<Rightarrow> bytes \<Rightarrow> (marf_error, ('k, 'v) MarfTransaction) res" where
  "marf_begin tx chain_tip next_chain_tip =
     (if st_readonly (storage tx) then Err MarfReadOnlyError
      else if open_chain_tip tx \<noteq> None then Err MarfInProgressError
      else if has_block (storage tx) next_chain_tip then Err MarfExistsError
      else and_then (inner_get_extension_height tx chain_tip) (\<lambda>(block_height, tx).
           and_then (extend_trie (storage tx) next_chain_tip) (\<lambda>st.
           inner_setup_extension (tx\<lparr>storage := st\<rparr>) chain_tip next_chain_tip block_height)))"

definition marf_commit :: "('k, 'v) MarfTransaction \<Rightarrow> (marf_error, ('k, 'v) MarfTransaction) res" where
  "marf_commit tx =
     (if st_readonly (storage tx) then Err MarfReadOnlyError
      else if open_chain_tip tx \<noteq> None then
        and_then (st_flush (storage tx)) (\<lambda>st. Ok (tx\<lparr>storage := st, open_chain_tip := None\<rparr>))
      else Ok tx)"

definition marf_commit_to :: "bytes \<Rightarrow> ('k, 'v) MarfTransaction \<Rightarrow> (marf_error, ('k, 'v) MarfTransaction) res" where
  "marf_commit_to real_bhh tx =
     (if st_readonly (storage tx) then Err MarfReadOnlyError
      else if open_chain_tip tx \<noteq> None then
        and_then (st_flush_to real_bhh (storage tx)) (\<lambda>st. Ok (tx\<lparr>storage := st, open_chain_tip := None\<rparr>))
      else Ok tx)"

definition drop_current :: "('k, 'v) MarfTransaction \<Rightarrow> (marf_error, ('k, 'v) MarfTransaction) res" where
  "drop_current tx =
     (if st_readonly (storage tx) then Ok tx
      else and_then (open_block (drop_extending_trie (storage tx)) SENTINEL_ARRAY)
        (\<lambda>st. Ok (tx\<lparr>storage := st, open_chain_tip := None\<rparr>)))"

definition check_ancestor_block_hash :: "('k, 'v) TrieStorage \<Rightarrow> bytes \<Rightarrow> (marf_error, unit) res" where
  "check_ancestor_block_hash conn bhh =
     (let cur_block_hash = cur_block conn
      in if cur_block_hash = bhh then Ok ()
         else and_then (get_block_height conn bhh cur_block_hash) (\<lambda>r.
              and_then (ok_or r (MarfNonMatchingForks bhh cur_block_hash)) (\<lambda>bhh_height.
              and_then (get_block_at_height conn bhh_height cur_block_hash) (\<lambda>a.
              and_then (ok_or a MarfCorruptionError) (\<lambda>actual_block_at_height.
                if bhh \<noteq> actual_block_at_height then Err (MarfNonMatchingForks bhh cur_block_hash)
                else let result = open_block conn bhh
                     in case open_block (case result of Ok conn' \<Rightarrow> conn' | _ \<Rightarrow> conn) cur_block_hash of
                          Err e \<Rightarrow> Err (RestoreMarfBlockError e)
                        | Panic \<Rightarrow> Panic
                        | Ok _ \<Rightarrow> and_then result (\<lambda>_. Ok ()))))))"

text \<open>An empty forest, and the transactions that grow it: each ends with a commit or with the
  current trie dropped. The client writes only its own keys.\<close>

definition empty_marf :: "('k, 'v) MarfTransaction" where
  "empty_marf =
     \<lparr>storage = \<lparr>marf_data = [], block_extension_locks = [], last_extended = None,
                 cur_block = SENTINEL_ARRAY, st_readonly = False\<rparr>,
      open_chain_tip = None\<rparr>"

inductive marf_step :: "('k, 'v) MarfTransaction \<Rightarrow> ('k, 'v) MarfTransaction \<Rightarrow> bool" where
  step_begin: "next \<noteq> SENTINEL_ARRAY \<Longrightarrow> marf_begin tx tip next = Ok tx' \<Longrightarrow> marf_step tx tx'"
| step_insert: "insert_batch tx (map IndexKey ks) vs = Ok tx' \<Longrightarrow> marf_step tx tx'"
| step_commit: "marf_commit tx = Ok tx' \<Longrightarrow> marf_step tx tx'"
| step_drop: "drop_current tx = Ok tx' \<Longrightarrow> marf_step tx tx'"

inductive marf_reachable :: "('k, 'v) MarfTransaction \<Rightarrow> bool" where
  reach_empty: "marf_reachable empty_marf"
| reach_step: "marf_reachable tx \<Longrightarrow> marf_step tx tx' \<Longrightarrow> marf_reachable tx'"

inductive_cases marf_stepE: "marf_step tx tx'"

section \<open>What the height keys mean\<close>

text \<open>The real ancestry of a block: the blocks from the first one down to it, following the parent
  each trie was extended from, in the forest \<open>rd\<close>.\<close>

inductive ancestry :: "(bytes \<Rightarrow> ('k, 'v) trie option) \<Rightarrow> bytes \<Rightarrow> bytes list \<Rightarrow> bool"
  for rd where
  anc_first: "rd b = Some t \<Longrightarrow> tr_parent t = SENTINEL_ARRAY \<Longrightarrow> ancestry rd b [b]"
| anc_child: "rd b = Some t \<Longrightarrow> tr_parent t \<noteq> SENTINEL_ARRAY \<Longrightarrow>
    ancestry rd (tr_parent t) ps \<Longrightarrow> ancestry rd b (ps @ [b])"

inductive_cases ancestryE: "ancestry rd b ps"

definition index_ok :: "('k, 'v) trie \<Rightarrow> bytes list \<Rightarrow> bool" where
  "index_ok t ps \<longleftrightarrow>
     ps \<noteq> [] \<and> distinct ps \<and> length ps \<le> 2 ^ 32 \<and>
     tr_leaves t OwnBlockHeight = Some (OfHeight (of_nat (length ps - 1))) \<and>
     (\<forall>h. tr_leaves t (HeightToHash h) = (if unat h < length ps then Some (OfBlock (ps ! unat h)) else None)) \<and>
     (\<forall>x. tr_leaves t (HashToHeight x) = map_option (\<lambda>i. OfHeight (of_nat i)) (index_of ps x))"

definition forest :: "(bytes \<Rightarrow> ('k, 'v) trie option) \<Rightarrow> bool" where
  "forest rd \<longleftrightarrow> (\<forall>b t. rd b = Some t \<longrightarrow>
     b \<noteq> SENTINEL_ARRAY \<and> (tr_parent t = SENTINEL_ARRAY \<or> rd (tr_parent t) \<noteq> None) \<and>
     (\<exists>ps. ancestry rd b ps \<and> index_ok t ps))"

lemma anc_mono:
  assumes "ancestry rd b ps"
    and "\<And>x t. rd x = Some t \<Longrightarrow> \<exists>t'. rd' x = Some t' \<and> tr_parent t' = tr_parent t"
  shows "ancestry rd' b ps"
  using assms(1)
proof induction
  case (anc_first b t)
  then show ?case using assms(2) by (metis ancestry.anc_first)
next
  case (anc_child b t ps)
  then show ?case using assms(2) by (metis ancestry.anc_child)
qed

lemma anc_stored: "ancestry rd b ps \<Longrightarrow> x \<in> set ps \<Longrightarrow> rd x \<noteq> None"
  by (induction rule: ancestry.induct) auto

lemma anc_last: "ancestry rd b ps \<Longrightarrow> ps \<noteq> [] \<and> last ps = b"
  by (induction rule: ancestry.induct) auto

lemma anc_det: "ancestry rd b ps \<Longrightarrow> ancestry rd b qs \<Longrightarrow> qs = ps"
proof (induction arbitrary: qs rule: ancestry.induct)
  case (anc_first b t)
  from anc_first(3,1,2) show ?case by (auto elim: ancestryE)
next
  case (anc_child b t ps)
  from anc_child.prems anc_child.hyps obtain qs' where "qs = qs' @ [b]" "ancestry rd (tr_parent t) qs'"
    by (auto elim: ancestryE)
  with anc_child.IH show ?case by simp
qed

text \<open>The entries of a new block on top of its parent's view.\<close>

lemma anc_prefix: "ancestry rd b ps \<Longrightarrow> i < length ps \<Longrightarrow> ancestry rd (ps ! i) (take (Suc i) ps)"
proof (induction rule: ancestry.induct)
  case (anc_first b t)
  then show ?case using ancestry.anc_first by force
next
  case (anc_child b t ps)
  show ?case
  proof (cases "i < length ps")
    case True
    with anc_child show ?thesis by (simp add: nth_append)
  next
    case False
    with anc_child have "i = length ps" by simp
    with anc_child show ?thesis using ancestry.anc_child [of rd b t ps] by simp
  qed
qed

lemma index_ok_first: "index_ok \<lparr>tr_parent = p, tr_leaves = Map.empty(OwnBlockHeight \<mapsto> OfHeight 0,
    HeightToHash 0 \<mapsto> OfBlock b, HashToHeight b \<mapsto> OfHeight 0)\<rparr> [b]"
  by (auto simp: index_ok_def index_of_def unat_eq_0 nth_Cons split: nat.split)

lemma index_ok_child:
  assumes ok: "index_ok t ps" and new: "n \<notin> set ps" and len: "length ps < 2 ^ 32" and tip: "last ps = tip"
    and h: "h = of_nat (length ps - 1)"
    and L: "L = (tr_leaves t)(OwnBlockHeight \<mapsto> OfHeight (h + 1),
    HeightToHash (h + 1) \<mapsto> OfBlock n, HashToHeight n \<mapsto> OfHeight (h + 1), HeightToHash h \<mapsto> OfBlock tip,
    HashToHeight tip \<mapsto> OfHeight h)"
  shows "index_ok \<lparr>tr_parent = p, tr_leaves = L\<rparr> (ps @ [n])"
proof -
  from ok have ps: "ps \<noteq> []" "distinct ps" by (auto simp: index_ok_def)
  have h1: "h + 1 = of_nat (length ps)" using ps h by (cases ps) (auto simp: add.commute)
  have uh: "unat h = length ps - 1" using len unfolding h by (simp add: unat_of_nat)
  have uh1: "unat (h + 1) = length ps" using len unfolding h1 by (simp add: unat_of_nat)
  have tip_nth: "ps ! unat h = tip" using ps tip by (simp add: uh last_conv_nth)
  have tip_in: "index_of ps tip = Some (unat h)" using ps tip_nth by (simp add: index_of_Some uh)
  have hh: "tr_leaves t (HeightToHash x) = (if unat x < length ps then Some (OfBlock (ps ! unat x)) else None)"
    and hx: "tr_leaves t (HashToHeight y) = map_option (\<lambda>i. OfHeight (of_nat i)) (index_of ps y)" for x y
    using ok by (auto simp: index_ok_def)
  have ne: "n \<noteq> tip" using new tip ps by auto
  have "unat x < length ps \<longleftrightarrow> unat x < length (ps @ [n])" if "x \<noteq> h + 1" for x :: u32
    using that uh1 by (metis length_append_singleton less_Suc_eq word_unat_eq_iff)
  then have heights: "L (HeightToHash x) =
      (if unat x < length (ps @ [n]) then Some (OfBlock ((ps @ [n]) ! unat x)) else None)" for x
    using uh uh1 tip_nth ps by (auto simp: L hh nth_append)
  have hashes: "L (HashToHeight x) =
      map_option (\<lambda>i. OfHeight (of_nat i)) (index_of (ps @ [n]) x)" for x
    using tip_in ne by (auto simp: L hx index_of_snoc [OF new] h1)
  have "L OwnBlockHeight = Some (OfHeight (of_nat (length ps)))" by (simp add: L h1)
  then show ?thesis
    unfolding index_ok_def using ps new len heights hashes by (simp add: Suc_le_eq)
qed

lemma index_ok_height: "index_ok t ps \<Longrightarrow> unat (of_nat (length ps - 1) :: u32) = length ps - 1"
proof -
  assume "index_ok t ps"
  then have "length ps - 1 < 2 ^ 32" by (cases ps) (auto simp: index_ok_def)
  then show ?thesis by (simp add: unat_of_nat)
qed

lemma forest_put:
  assumes f: "forest rd" and b: "rd b = Some t" and same: "tr_parent t' = tr_parent t"
    and ok: "\<And>ps. index_ok t ps \<Longrightarrow> index_ok t' ps"
  shows "forest (rd(b \<mapsto> t'))"
  unfolding forest_def
proof (intro allI impI)
  fix x s assume x: "(rd(b \<mapsto> t')) x = Some s"
  have mono: "ancestry (rd(b \<mapsto> t')) y ps" if "ancestry rd y ps" for y ps
    using that by (rule anc_mono) (use b same in auto)
  show "x \<noteq> SENTINEL_ARRAY \<and> (tr_parent s = SENTINEL_ARRAY \<or> (rd(b \<mapsto> t')) (tr_parent s) \<noteq> None) \<and>
      (\<exists>ps. ancestry (rd(b \<mapsto> t')) x ps \<and> index_ok s ps)"
  proof (cases "x = b")
    case True
    with x have "s = t'" by simp
    moreover from f b obtain ps where "b \<noteq> SENTINEL_ARRAY" "ancestry rd b ps" "index_ok t ps"
      "tr_parent t = SENTINEL_ARRAY \<or> rd (tr_parent t) \<noteq> None" unfolding forest_def by blast
    ultimately show ?thesis using True mono ok same by auto
  next
    case False
    with x have "rd x = Some s" by simp
    with f obtain ps where "x \<noteq> SENTINEL_ARRAY" "ancestry rd x ps" "index_ok s ps"
      "tr_parent s = SENTINEL_ARRAY \<or> rd (tr_parent s) \<noteq> None" unfolding forest_def by blast
    then show ?thesis using mono by auto
  qed
qed

lemma forest_add:
  assumes f: "forest rd" and n: "rd n = None" "n \<noteq> SENTINEL_ARRAY"
    and par: "tr_parent t = SENTINEL_ARRAY \<and> index_ok t [n] \<or>
      (\<exists>ps. ancestry rd (tr_parent t) ps \<and> tr_parent t \<noteq> SENTINEL_ARRAY \<and> index_ok t (ps @ [n]))"
  shows "forest (rd(n \<mapsto> t))"
  unfolding forest_def
proof (intro allI impI)
  fix x s assume x: "(rd(n \<mapsto> t)) x = Some s"
  have mono: "ancestry (rd(n \<mapsto> t)) y ps" if "ancestry rd y ps" for y ps
    using that by (rule anc_mono) (use n in auto)
  show "x \<noteq> SENTINEL_ARRAY \<and> (tr_parent s = SENTINEL_ARRAY \<or> (rd(n \<mapsto> t)) (tr_parent s) \<noteq> None) \<and>
      (\<exists>ps. ancestry (rd(n \<mapsto> t)) x ps \<and> index_ok s ps)"
  proof (cases "x = n")
    case True
    with x have s: "s = t" by simp
    from par show ?thesis
    proof
      assume "tr_parent t = SENTINEL_ARRAY \<and> index_ok t [n]"
      then show ?thesis using True s n by (auto intro!: exI [of _ "[n]"] ancestry.anc_first)
    next
      assume "\<exists>ps. ancestry rd (tr_parent t) ps \<and> tr_parent t \<noteq> SENTINEL_ARRAY \<and> index_ok t (ps @ [n])"
      then obtain ps where ps: "ancestry rd (tr_parent t) ps" "tr_parent t \<noteq> SENTINEL_ARRAY" "index_ok t (ps @ [n])"
        by blast
      then have "rd (tr_parent t) \<noteq> None" using anc_last anc_stored by (metis last_in_set)
      with ps mono True s n show ?thesis by (auto intro!: exI [of _ "ps @ [n]"] ancestry.anc_child)
    qed
  next
    case False
    with x have "rd x = Some s" by simp
    with f obtain ps where "x \<noteq> SENTINEL_ARRAY" "ancestry rd x ps" "index_ok s ps"
      "tr_parent s = SENTINEL_ARRAY \<or> rd (tr_parent s) \<noteq> None" unfolding forest_def by blast
    then show ?thesis using mono by auto
  qed
qed

section \<open>Every operation keeps the forest\<close>

definition marf_inv :: "('k, 'v) MarfTransaction \<Rightarrow> bool" where
  "marf_inv tx \<longleftrightarrow>
     \<not> st_readonly (storage tx) \<and> forest (read_trie (storage tx)) \<and> forest (map_of (marf_data (storage tx))) \<and>
     (case open_chain_tip tx of
        None \<Rightarrow> last_extended (storage tx) = None \<and>
          (cur_block (storage tx) = SENTINEL_ARRAY \<or> has_block (storage tx) (cur_block (storage tx)))
      | Some (b, _) \<Rightarrow> (\<exists>t. last_extended (storage tx) = Some (b, t)) \<and> cur_block (storage tx) = b \<and>
          b \<noteq> SENTINEL_ARRAY \<and> \<not> has_block (storage tx) b)"

text \<open>What it says of the open block alone, without the height keys; it also holds of forests with renamed blocks.\<close>

definition marf_shape :: "('k, 'v) MarfTransaction \<Rightarrow> bool" where
  "marf_shape tx \<longleftrightarrow>
     \<not> st_readonly (storage tx) \<and>
     (case open_chain_tip tx of
        None \<Rightarrow> last_extended (storage tx) = None \<and>
          (cur_block (storage tx) = SENTINEL_ARRAY \<or> has_block (storage tx) (cur_block (storage tx)))
      | Some (b, _) \<Rightarrow> (\<exists>t. last_extended (storage tx) = Some (b, t)) \<and> cur_block (storage tx) = b \<and>
          b \<noteq> SENTINEL_ARRAY \<and> \<not> has_block (storage tx) b)"

lemma inv_shape: "marf_inv tx \<Longrightarrow> marf_shape tx"
  by (simp add: marf_inv_def marf_shape_def)

lemma cur_block_id: "cur_block st = b \<Longrightarrow> st\<lparr>cur_block := b\<rparr> = st"
  by (cases st) simp

lemma read_trie_None: "last_extended st = None \<Longrightarrow> read_trie st = map_of (marf_data st)"
  by (auto simp: read_trie_def)

lemma read_trie_Some: "last_extended st = Some (b, t) \<Longrightarrow> read_trie st = (map_of (marf_data st))(b \<mapsto> t)"
  by (auto simp: read_trie_def)

lemma insert_leaf_open:
  assumes "last_extended st = Some (b, t)" "cur_block st = b" "b \<noteq> SENTINEL_ARRAY"
  shows "insert_leaf b kv st = Ok (st\<lparr>last_extended := Some (b, t\<lparr>tr_leaves := (tr_leaves t)(fst kv \<mapsto> snd kv)\<rparr>)\<rparr>)"
  using assms by (simp add: insert_leaf_def extend_trie_def num_blocks_def open_block_def write_leaves_def cur_block_id)

lemma insert_loop_open:
  assumes "last_extended st = Some (b, t)" "cur_block st = b" "b \<noteq> SENTINEL_ARRAY"
  shows "fold_res (insert_leaf b) kvs st =
    Ok (st\<lparr>last_extended := Some (b, t\<lparr>tr_leaves := tr_leaves t ++ map_of (rev kvs)\<rparr>)\<rparr>)"
  using assms
proof (induction kvs arbitrary: st t)
  case (Cons kv kvs)
  obtain k v where "kv = (k, v)" by force
  then show ?case
    using Cons by (simp add: insert_leaf_open [where t = t])
qed simp

lemma insert_batch_open:
  assumes "\<not> st_readonly (storage tx)" "open_chain_tip tx = Some (b, h)" "last_extended (storage tx) = Some (b, t)"
    "cur_block (storage tx) = b" "b \<noteq> SENTINEL_ARRAY" "length ks = length vs"
  shows "insert_batch tx ks vs =
    Ok (tx\<lparr>storage := (storage tx)\<lparr>last_extended := Some (b, t\<lparr>tr_leaves := tr_leaves t ++ map_of (rev (zip ks vs))\<rparr>)\<rparr>\<rparr>)"
proof (cases "ks = []")
  case True
  then show ?thesis using assms by (cases tx; cases "storage tx") (simp add: insert_batch_def)
next
  case False
  then show ?thesis
    using assms
    by (simp add: insert_batch_def inner_insert_batch_def insert_loop_open [where t = t] open_block_def cur_block_id)
qed

lemma insert_batch_Ok:
  assumes "marf_inv tx" "insert_batch tx ks vs = Ok tx'"
  obtains b h t where "open_chain_tip tx = Some (b, h)" "last_extended (storage tx) = Some (b, t)"
    "tx' = tx\<lparr>storage := (storage tx)\<lparr>last_extended := Some (b, t\<lparr>tr_leaves := tr_leaves t ++ map_of (rev (zip ks vs))\<rparr>)\<rparr>\<rparr>"
proof (cases "open_chain_tip tx")
  case None
  then show ?thesis using assms by (auto simp: insert_batch_def split: if_splits)
next
  case (Some bh)
  obtain b h where bh: "bh = (b, h)" by force
  with Some assms(1) obtain t where t: "last_extended (storage tx) = Some (b, t)" "cur_block (storage tx) = b"
    "b \<noteq> SENTINEL_ARRAY" "\<not> st_readonly (storage tx)" by (auto simp: marf_inv_def)
  moreover have "length ks = length vs" using assms(2) t by (auto simp: insert_batch_def split: if_splits)
  ultimately show ?thesis using that assms(2) Some bh by (simp add: insert_batch_open [where t = t])
qed

text \<open>A block is extended from the open block, whose view it starts with.\<close>

definition with_lock :: "bytes \<Rightarrow> ('k, 'v) TrieStorage \<Rightarrow> ('k, 'v) TrieStorage" where
  "with_lock b st = snd (tx_lock_bhh_for_extension st b)"

lemma with_lock_fields [simp]:
  "marf_data (with_lock b st) = marf_data st" "last_extended (with_lock b st) = last_extended st"
  "cur_block (with_lock b st) = cur_block st" "st_readonly (with_lock b st) = st_readonly st"
  by (auto simp: with_lock_def tx_lock_bhh_for_extension_def)

lemma extend_to_block_eq:
  assumes "\<not> st_readonly st" "last_extended st = None" "\<not> has_block st n"
  shows "extend_to_block st n =
    Ok ((with_lock n st)\<lparr>cur_block := n, last_extended := Some (n, \<lparr>tr_parent = cur_block st, tr_leaves = Map.empty\<rparr>)\<rparr>)"
  using assms by (simp add: extend_to_block_def st_flush_def lock_bhh_for_extension_def switch_trie_def with_lock_def Let_def)

lemma extend_trie_first:
  assumes "\<not> st_readonly st" "last_extended st = None" "\<not> has_block st n" "cur_block st = SENTINEL_ARRAY"
  shows "extend_trie st n =
    Ok ((with_lock n st)\<lparr>cur_block := n, last_extended := Some (n, \<lparr>tr_parent = SENTINEL_ARRAY, tr_leaves = Map.empty\<rparr>)\<rparr>)"
  using assms by (simp add: extend_trie_def extend_to_block_eq write_leaves_def)

lemma extend_trie_child:
  assumes "\<not> st_readonly st" "last_extended st = None" "\<not> has_block st n" "n \<noteq> SENTINEL_ARRAY"
    "map_of (marf_data st) p = Some t" "cur_block st = p" "p \<noteq> SENTINEL_ARRAY"
  shows "extend_trie st n =
    Ok ((with_lock n st)\<lparr>cur_block := n, last_extended := Some (n, \<lparr>tr_parent = p, tr_leaves = tr_leaves t\<rparr>)\<rparr>)"
proof -
  have ne: "marf_data st \<noteq> []" "n \<noteq> p" using assms by (auto simp: has_block_def)
  have "open_block st n = Err MarfNotFoundError" "open_block st p = Ok st"
    using assms by (auto simp: open_block_def has_block_def cur_block_id)
  moreover have "root_copy ((with_lock n st)\<lparr>cur_block := n, last_extended := Some (n, \<lparr>tr_parent = p, tr_leaves = Map.empty\<rparr>)\<rparr>) p =
      Ok ((with_lock n st)\<lparr>cur_block := n, last_extended := Some (n, \<lparr>tr_parent = p, tr_leaves = tr_leaves t\<rparr>)\<rparr>)"
    using assms ne by (simp add: root_copy_def open_block_def has_block_def write_leaves_def)
  ultimately show ?thesis
    using assms ne by (simp add: extend_trie_def num_blocks_def extend_to_block_eq open_block_def)
qed

lemma get_by_key_eq:
  assumes "cur_block st = SENTINEL_ARRAY \<or> read_trie st (cur_block st) \<noteq> None" "b \<noteq> SENTINEL_ARRAY"
  shows "get_by_key st b k = Ok (case read_trie st b of None \<Rightarrow> None | Some t \<Rightarrow> tr_leaves t k)"
proof -
  have restore: "open_block st (cur_block st) = Ok st"
    using assms(1) by (auto simp: open_block_def read_trie_def has_block_def cur_block_id split: option.splits prod.splits if_splits)
  have read: "read_trie (st\<lparr>cur_block := c\<rparr>) = read_trie st" for c by (auto simp: read_trie_def fun_eq_iff split: option.split)
  have "open_block st b = (if read_trie st b = None then Err MarfNotFoundError else Ok (st\<lparr>cur_block := b\<rparr>))"
    using assms(2) by (auto simp: open_block_def read_trie_def has_block_def split: option.splits prod.splits)
  then show ?thesis
    by (auto simp: get_by_key_def get_path_def restore read Let_def split: option.splits)
qed

lemma index_ok_insert:
  "index_ok t ps \<Longrightarrow> index_ok (t\<lparr>tr_leaves := tr_leaves t ++ map_of (rev (zip (map IndexKey ks) vs))\<rparr>) ps"
proof -
  have "map_of (rev (zip (map IndexKey ks) vs)) k = None" if "\<And>x. k \<noteq> IndexKey x" for k :: "'a trie_key"
    using that by (force simp: map_of_eq_None_iff dest: set_zip_leftD)
  then show "index_ok t ps \<Longrightarrow> ?thesis" by (simp add: index_ok_def map_add_def)
qed

lemma inv_insert:
  assumes inv: "marf_inv tx" and ins: "insert_batch tx (map IndexKey ks) vs = Ok tx'"
  shows "marf_inv tx'"
proof -
  obtain b h t where o: "open_chain_tip tx = Some (b, h)" "last_extended (storage tx) = Some (b, t)"
    and tx': "tx' = tx\<lparr>storage := (storage tx)\<lparr>last_extended :=
      Some (b, t\<lparr>tr_leaves := tr_leaves t ++ map_of (rev (zip (map IndexKey ks) vs))\<rparr>)\<rparr>\<rparr>"
    using inv ins by (rule insert_batch_Ok)
  have "forest (read_trie (storage tx))" using inv by (simp add: marf_inv_def)
  then have "forest ((read_trie (storage tx))(b \<mapsto> t\<lparr>tr_leaves := tr_leaves t ++ map_of (rev (zip (map IndexKey ks) vs))\<rparr>))"
    by (rule forest_put [where t = t]) (use o in \<open>auto simp: read_trie_Some intro: index_ok_insert\<close>)
  then show ?thesis using inv o by (simp add: marf_inv_def tx' read_trie_Some has_block_def)
qed

lemma inv_commit:
  assumes inv: "marf_inv tx" and c: "marf_commit tx = Ok tx'"
  shows "marf_inv tx'" and "read_trie (storage tx') = read_trie (storage tx)"
proof -
  have "marf_inv tx' \<and> read_trie (storage tx') = read_trie (storage tx)"
  proof (cases "open_chain_tip tx")
    case None
    then show ?thesis using inv c by (auto simp: marf_commit_def marf_inv_def)
  next
    case (Some bh)
    then obtain b h t where o: "open_chain_tip tx = Some (b, h)" "last_extended (storage tx) = Some (b, t)"
      "cur_block (storage tx) = b" "\<not> has_block (storage tx) b" using inv by (cases bh) (auto simp: marf_inv_def)
    then have tx': "tx' = tx\<lparr>storage := drop_lock b ((storage tx)\<lparr>marf_data := marf_data (storage tx) @ [(b, t)],
        last_extended := None\<rparr>), open_chain_tip := None\<rparr>"
      using inv c by (auto simp: marf_commit_def marf_inv_def st_flush_def)
    have "map_of (marf_data (storage tx) @ [(b, t)]) = (map_of (marf_data (storage tx)))(b \<mapsto> t)"
      using o by (auto simp: fun_eq_iff map_add_def has_block_def split: option.split)
    then show ?thesis
      using inv o by (auto simp: marf_inv_def tx' drop_lock_def read_trie_None read_trie_Some has_block_def)
  qed
  then show "marf_inv tx'" "read_trie (storage tx') = read_trie (storage tx)" by auto
qed

lemma inv_drop: "marf_inv tx \<Longrightarrow> drop_current tx = Ok tx' \<Longrightarrow> marf_inv tx'"
  by (auto simp: marf_inv_def drop_current_def drop_extending_trie_def drop_lock_def open_block_def read_trie_None
      has_block_def split: option.splits prod.splits)

lemma begin_first:
  assumes "marf_shape tx" "open_chain_tip tx = None" "\<not> has_block (storage tx) n" "n \<noteq> SENTINEL_ARRAY"
  shows "marf_begin tx SENTINEL_ARRAY n = Ok (tx\<lparr>storage := (with_lock n ((storage tx)\<lparr>cur_block := SENTINEL_ARRAY\<rparr>))\<lparr>cur_block := n,
    last_extended := Some (n, \<lparr>tr_parent = SENTINEL_ARRAY, tr_leaves = Map.empty(OwnBlockHeight \<mapsto> OfHeight 0,
      HeightToHash 0 \<mapsto> OfBlock n, HashToHeight n \<mapsto> OfHeight 0)\<rparr>)\<rparr>, open_chain_tip := Some (n, 0)\<rparr>)"
proof -
  let ?st = "(storage tx)\<lparr>cur_block := SENTINEL_ARRAY\<rparr>"
  have st: "\<not> st_readonly ?st" "last_extended ?st = None" "\<not> has_block ?st n"
    using assms by (auto simp: marf_shape_def has_block_def)
  then show ?thesis
    using assms
    by (simp add: marf_begin_def inner_get_extension_height_def open_block_def extend_trie_first marf_shape_def
        inner_setup_extension_def set_block_heights_def height_entries_def insert_batch_open Let_def)
qed

lemma begin_child:
  assumes inv: "marf_shape tx" "open_chain_tip tx = None" "\<not> has_block (storage tx) n" "n \<noteq> SENTINEL_ARRAY"
    and tip: "tip \<noteq> SENTINEL_ARRAY" "map_of (marf_data (storage tx)) tip = Some t"
      "tr_leaves t OwnBlockHeight = Some (OfHeight h)" "checked_add h 1 = Some h'"
  shows "marf_begin tx tip n = Ok (tx\<lparr>storage := (with_lock n ((storage tx)\<lparr>cur_block := tip\<rparr>))\<lparr>cur_block := n,
    last_extended := Some (n, \<lparr>tr_parent = tip, tr_leaves = (tr_leaves t)(OwnBlockHeight \<mapsto> OfHeight (h + 1),
      HeightToHash (h + 1) \<mapsto> OfBlock n, HashToHeight n \<mapsto> OfHeight (h + 1), HeightToHash h \<mapsto> OfBlock tip,
      HashToHeight tip \<mapsto> OfHeight h)\<rparr>)\<rparr>, open_chain_tip := Some (n, h + 1)\<rparr>)"
proof -
  let ?st = "(storage tx)\<lparr>cur_block := tip\<rparr>"
  have st: "\<not> st_readonly ?st" "last_extended ?st = None" "\<not> has_block ?st n" "map_of (marf_data ?st) tip = Some t"
    "read_trie ?st = map_of (marf_data (storage tx))"
    using assms by (auto simp: marf_shape_def has_block_def read_trie_None)
  have h': "h' = h + 1" "h + 1 \<noteq> 0" "h + 1 > 0"
  proof -
    from tip(4) show "h' = h + 1" by (auto simp: checked_add_def split: if_splits)
    with tip(4) have "unat (h + 1) = unat h + 1" by (simp add: checked_add_Some_iff)
    then show "h + 1 \<noteq> 0" "h + 1 > 0" by (auto simp: word_gt_0)
  qed
  have "get_block_height_miner_tip ?st tip tip = Ok (Some h)"
    using st tip by (simp add: get_block_height_miner_tip_def get_by_key_eq)
  then show ?thesis
    using assms st h'
    by (simp add: marf_begin_def inner_get_extension_height_def open_block_def extend_trie_child marf_shape_def has_block_def
        ok_or_def expect_def
        inner_setup_extension_def set_block_heights_def height_entries_def insert_batch_open Let_def)
qed

lemma begin_tip:
  assumes inv: "marf_shape tx" and ok: "marf_begin tx tip n = Ok tx'"
  shows "open_chain_tip tx = None" "\<not> has_block (storage tx) n"
    "tip = SENTINEL_ARRAY \<or> (\<exists>t h h'. map_of (marf_data (storage tx)) tip = Some t \<and>
       tr_leaves t OwnBlockHeight = Some (OfHeight h) \<and> checked_add h 1 = Some h')"
proof -
  show o: "open_chain_tip tx = None" "\<not> has_block (storage tx) n"
    using ok by (cases "open_chain_tip tx"; simp add: marf_begin_def split: if_splits)+
  show "tip = SENTINEL_ARRAY \<or> (\<exists>t h h'. map_of (marf_data (storage tx)) tip = Some t \<and>
       tr_leaves t OwnBlockHeight = Some (OfHeight h) \<and> checked_add h 1 = Some h')"
  proof (cases "tip = SENTINEL_ARRAY")
    case False
    have le: "last_extended (storage tx) = None" using inv o by (simp add: marf_shape_def)
    from ok False o obtain st r h h' where st: "open_block (storage tx) tip = Ok st"
      and r: "get_block_height_miner_tip st tip tip = Ok r" "r = Some h" "checked_add h 1 = Some h'"
      by (auto simp: marf_begin_def inner_get_extension_height_def and_then_Ok_iff split: if_splits)
    from st False le have tip: "has_block (storage tx) tip" "st = (storage tx)\<lparr>cur_block := tip\<rparr>"
      by (auto simp: open_block_def split: if_splits)
    then have "read_trie st = map_of (marf_data (storage tx))" using le by (simp add: read_trie_None)
    then have "get_by_key st tip OwnBlockHeight = Ok (case map_of (marf_data (storage tx)) tip of None \<Rightarrow> None | Some t \<Rightarrow> tr_leaves t OwnBlockHeight)"
      using tip False by (simp add: get_by_key_eq has_block_def)
    then obtain t where t: "map_of (marf_data (storage tx)) tip = Some t" "get_by_key st tip OwnBlockHeight = Ok (tr_leaves t OwnBlockHeight)"
      using tip(1) by (auto simp: has_block_def)
    with r obtain v where v: "tr_leaves t OwnBlockHeight = Some v" "u32_from v = (Ok h :: (marf_error, u32) res)"
      by (auto simp: get_block_height_miner_tip_def and_then_Ok_iff split: option.splits)
    then have "v = OfHeight h" by (cases v) auto
    with t v r show ?thesis by auto
  qed simp
qed

lemma inv_begin:
  assumes inv: "marf_inv tx" and ok: "marf_begin tx tip n = Ok tx'" and n: "n \<noteq> SENTINEL_ARRAY"
  shows "marf_inv tx'"
proof -
  note o = begin_tip [OF inv_shape [OF inv] ok]
  let ?D = "map_of (marf_data (storage tx))"
  have D: "forest ?D" "?D n = None" using inv o by (auto simp: marf_inv_def has_block_def)
  have new: "marf_inv tx'" if "forest (?D(n \<mapsto> t))"
    "tx' = tx\<lparr>storage := (with_lock n ((storage tx)\<lparr>cur_block := p\<rparr>))\<lparr>cur_block := n, last_extended := Some (n, t)\<rparr>,
       open_chain_tip := Some (n, h)\<rparr>" for t p h
    using that inv o n by (simp add: marf_inv_def read_trie_Some has_block_def)
  show ?thesis
  proof (cases "tip = SENTINEL_ARRAY")
    case True
    have "forest (?D(n \<mapsto> \<lparr>tr_parent = SENTINEL_ARRAY, tr_leaves = Map.empty(OwnBlockHeight \<mapsto> OfHeight 0,
      HeightToHash 0 \<mapsto> OfBlock n, HashToHeight n \<mapsto> OfHeight 0)\<rparr>))"
      by (rule forest_add [OF D n]) (simp add: index_ok_first)
    then show ?thesis by (rule new [where p = SENTINEL_ARRAY and h = 0]) (use ok True begin_first [OF inv_shape [OF inv] o(1,2) n] in simp)
  next
    case False
    with o obtain t h h' where t: "?D tip = Some t" "tr_leaves t OwnBlockHeight = Some (OfHeight h)"
      "checked_add h 1 = Some h'" by auto
    with D obtain ps where ps: "ancestry ?D tip ps" "index_ok t ps" by (auto simp: forest_def)
    then have psn: "n \<notin> set ps" "last ps = tip" "ps \<noteq> []" using D anc_stored anc_last by blast+
    have h: "h = of_nat (length ps - 1)" using ps t by (simp add: index_ok_def)
    have "unat h = length ps - 1" using index_ok_height [OF ps(2)] by (simp add: h)
    then have "length ps < 2 ^ 32" using t(3) psn unfolding checked_add_Some_iff
      using unsigned_less [of h', where 'a = nat] by (cases ps) auto
    then have "index_ok \<lparr>tr_parent = tip, tr_leaves = (tr_leaves t)(OwnBlockHeight \<mapsto> OfHeight (h + 1),
      HeightToHash (h + 1) \<mapsto> OfBlock n, HashToHeight n \<mapsto> OfHeight (h + 1), HeightToHash h \<mapsto> OfBlock tip,
      HashToHeight tip \<mapsto> OfHeight h)\<rparr> (ps @ [n])"
      by (intro index_ok_child [OF ps(2) psn(1) _ psn(2) h]) auto
    then have "forest (?D(n \<mapsto> \<lparr>tr_parent = tip, tr_leaves = (tr_leaves t)(OwnBlockHeight \<mapsto> OfHeight (h + 1),
      HeightToHash (h + 1) \<mapsto> OfBlock n, HashToHeight n \<mapsto> OfHeight (h + 1), HeightToHash h \<mapsto> OfBlock tip,
      HashToHeight tip \<mapsto> OfHeight h)\<rparr>))"
      using False ps by (intro forest_add [OF D n]) auto
    then show ?thesis by (rule new [where p = tip and h = "h + 1"]) (use ok begin_child [OF inv_shape [OF inv] o(1,2) n False t] in simp)
  qed
qed

lemma reachable_inv: "marf_reachable tx \<Longrightarrow> marf_inv tx"
proof (induction rule: marf_reachable.induct)
  case reach_empty
  then show ?case by (simp add: marf_inv_def empty_marf_def forest_def read_trie_def)
next
  case (reach_step tx tx')
  from reach_step.hyps(2) reach_step.IH show ?case
    by cases (auto intro: inv_begin inv_insert inv_commit inv_drop)
qed

section \<open>Reading the index\<close>

lemma inv_restore: "marf_inv tx \<Longrightarrow> cur_block (storage tx) = SENTINEL_ARRAY \<or> read_trie (storage tx) (cur_block (storage tx)) \<noteq> None"
  by (auto simp: marf_inv_def read_trie_def has_block_def split: option.splits)

lemma inv_trie:
  assumes "marf_inv tx" "ancestry (read_trie (storage tx)) b ps"
  obtains t where "read_trie (storage tx) b = Some t" "index_ok t ps" "b \<noteq> SENTINEL_ARRAY"
proof -
  from assms(2) have "ps \<noteq> []" "last ps = b" by (auto dest: anc_last)
  then obtain t where t: "read_trie (storage tx) b = Some t"
    using anc_stored [OF assms(2), of b] by auto
  with assms obtain qs where "b \<noteq> SENTINEL_ARRAY" "ancestry (read_trie (storage tx)) b qs" "index_ok t qs"
    unfolding marf_inv_def forest_def by blast
  with that t anc_det [OF assms(2)] show ?thesis by blast
qed

lemma inv_get:
  assumes "marf_inv tx" "ancestry (read_trie (storage tx)) b ps" "read_trie (storage tx) b = Some t"
  shows "get_by_key (storage tx) b k = Ok (tr_leaves t k)"
proof -
  have "b \<noteq> SENTINEL_ARRAY" using inv_trie [OF assms(1,2)] by blast
  then show ?thesis using assms(3) by (simp add: get_by_key_eq [OF inv_restore [OF assms(1)]])
qed

lemma inv_get_block_height:
  assumes inv: "marf_inv tx" and anc: "ancestry (read_trie (storage tx)) b ps"
  shows "get_block_height (storage tx) a b = Ok (map_option of_nat (index_of ps a))"
proof -
  obtain t where t: "read_trie (storage tx) b = Some t" "index_ok t ps" using inv_trie [OF inv anc] by blast
  have own: "index_of ps b = Some (length ps - 1)"
    using t anc_last [OF anc] by (auto simp: index_ok_def index_of_Some last_conv_nth)
  show ?thesis
  proof (cases "a = b")
    case True
    then show ?thesis
      using t own by (simp add: get_block_height_def get_block_height_miner_tip_def inv_get [OF inv anc] index_ok_def)
  next
    case False
    then show ?thesis
      using t
      by (cases "index_of ps a")
        (simp_all add: get_block_height_def get_block_height_miner_tip_def inv_get [OF inv anc] index_ok_def)
  qed
qed

lemma inv_get_block_at_height:
  assumes inv: "marf_inv tx" and anc: "ancestry (read_trie (storage tx)) b ps"
  shows "get_block_at_height (storage tx) h b = Ok (if unat h < length ps then Some (ps ! unat h) else None)"
proof -
  obtain t where t: "read_trie (storage tx) b = Some t" "index_ok t ps" using inv_trie [OF inv anc] by blast
  have own: "index_of ps b = Some (length ps - 1)" and last: "ps ! (length ps - 1) = b" "ps \<noteq> []"
    using t anc_last [OF anc] by (auto simp: index_ok_def index_of_Some last_conv_nth)
  have hgt: "tr_leaves t (HeightToHash h) = (if unat h < length ps then Some (OfBlock (ps ! unat h)) else None)"
    using t by (simp add: index_ok_def)
  show ?thesis
  proof (cases "h = of_nat (length ps - 1)")
    case True
    then have "unat h = length ps - 1" using index_ok_height [OF t(2)] by simp
    then show ?thesis
      using True last by (simp add: get_block_at_height_def inv_get_block_height [OF inv anc] own)
  next
    case False
    then show ?thesis
      by (simp add: get_block_at_height_def inv_get_block_height [OF inv anc] own inv_get [OF inv anc t(1)] hgt)
  qed
qed

lemma inv_check_ancestor:
  assumes inv: "marf_inv tx" and anc: "ancestry (read_trie (storage tx)) (cur_block (storage tx)) ps"
  shows "check_ancestor_block_hash (storage tx) a =
    (if a \<in> set ps then Ok () else Err (MarfNonMatchingForks a (cur_block (storage tx))))"
proof -
  let ?st = "storage tx" and ?c = "cur_block (storage tx)"
  obtain t where t: "read_trie ?st ?c = Some t" "index_ok t ps" using inv_trie [OF inv anc] by blast
  have c: "?c \<in> set ps" using anc_last [OF anc] by (metis last_in_set)
  have opens: "open_block ?st x = Ok (?st\<lparr>cur_block := x\<rparr>)" if "x \<in> set ps" for x
    using anc_stored [OF anc that] by (auto simp: open_block_def read_trie_def has_block_def split: option.splits if_splits)
  have restore: "open_block (?st\<lparr>cur_block := x\<rparr>) ?c = Ok ?st" for x
    using opens [OF c] by (auto simp: open_block_def has_block_def cur_block_id split: if_splits)
  have at: "get_block_at_height ?st (of_nat i) ?c = Ok (Some a)" if "index_of ps a = Some i" for i
  proof -
    have i: "i < length ps" "ps ! i = a" using that t by (auto simp: index_ok_def index_of_Some)
    then have "unat (of_nat i :: u32) = i" using t by (simp add: index_ok_def unat_of_nat)
    then show ?thesis using i by (simp add: inv_get_block_at_height [OF inv anc])
  qed
  show ?thesis
  proof (cases "index_of ps a")
    case None
    then have "a \<notin> set ps" by (simp add: index_of_None del: not_None_eq)
    then show ?thesis
      using None c by (auto simp: check_ancestor_block_hash_def inv_get_block_height [OF inv anc] ok_or_def Let_def)
  next
    case (Some i)
    then have a: "a \<in> set ps" using t by (auto simp: index_ok_def index_of_Some)
    show ?thesis
      using Some a at [OF Some]
      by (simp add: check_ancestor_block_hash_def inv_get_block_height [OF inv anc] ok_or_def opens restore Let_def)
  qed
qed

section \<open>Growing the forest\<close>

text \<open>A block that is not stored yet can be begun on any stored block (or as a first block); it starts
  with its parent's view of the client's keys, and no other block changes.\<close>

definition parent_view :: "('k, 'v) TrieStorage \<Rightarrow> bytes \<Rightarrow> 'k \<Rightarrow> 'v MARFValue option" where
  "parent_view st p k = (if p = SENTINEL_ARRAY then None else Option.bind (read_trie st p) (\<lambda>t. tr_leaves t (IndexKey k)))"

lemma begin_grows:
  assumes inv: "marf_inv tx" "open_chain_tip tx = None" and n: "read_trie (storage tx) n = None" "n \<noteq> SENTINEL_ARRAY"
    and tip: "tip = SENTINEL_ARRAY \<or> ancestry (read_trie (storage tx)) tip ps \<and> length ps < 2 ^ 32"
  shows "\<exists>tx' t h. marf_begin tx tip n = Ok tx' \<and> open_chain_tip tx' = Some (n, h) \<and>
    read_trie (storage tx') = (read_trie (storage tx))(n \<mapsto> t) \<and> tr_parent t = tip \<and>
    (\<forall>k. tr_leaves t (IndexKey k) = parent_view (storage tx) tip k)"
proof -
  have le: "last_extended (storage tx) = None" using inv by (simp add: marf_inv_def)
  note rd = read_trie_None [OF le]
  have nb: "\<not> has_block (storage tx) n" using n by (simp add: rd has_block_def)
  show ?thesis
  proof (cases "tip = SENTINEL_ARRAY")
    case True
    show ?thesis
      using begin_first [OF inv_shape [OF inv(1)] inv(2) nb n(2)] True
      by (intro exI conjI) (auto simp: read_trie_Some rd parent_view_def)
  next
    case False
    with tip have anc: "ancestry (read_trie (storage tx)) tip ps" and len: "length ps < 2 ^ 32" by auto
    obtain t where t: "read_trie (storage tx) tip = Some t" "index_ok t ps" using inv_trie [OF inv(1) anc] by blast
    let ?h = "of_nat (length ps - 1) :: u32"
    have own: "tr_leaves t OwnBlockHeight = Some (OfHeight ?h)" "ps \<noteq> []" using t by (auto simp: index_ok_def)
    have "unat ?h + unat (1 :: u32) < 2 ^ 32" using len own index_ok_height [OF t(2)] by (cases ps) auto
    then have ca: "checked_add ?h 1 = Some (?h + 1)" by (simp add: checked_add_def)
    show ?thesis
      using begin_child [OF inv_shape [OF inv(1)] inv(2) nb n(2) False t(1) [unfolded rd] own(1) ca] False t
      by (intro exI conjI) (auto simp: read_trie_Some rd parent_view_def)
  qed
qed

lemma insert_grows:
  assumes inv: "marf_inv tx" "open_chain_tip tx = Some (b, h)" "read_trie (storage tx) b = Some t" and len: "length ks = length vs"
  shows "\<exists>tx'. insert_batch tx ks vs = Ok tx' \<and> open_chain_tip tx' = Some (b, h) \<and>
    read_trie (storage tx') = (read_trie (storage tx))(b \<mapsto> t\<lparr>tr_leaves := tr_leaves t ++ map_of (rev (zip ks vs))\<rparr>)"
proof -
  from inv obtain t' where o: "last_extended (storage tx) = Some (b, t')" "cur_block (storage tx) = b" "b \<noteq> SENTINEL_ARRAY"
    "\<not> st_readonly (storage tx)" by (auto simp: marf_inv_def)
  with inv(3) have "t' = t" by (simp add: read_trie_Some)
  with o show ?thesis using insert_batch_open [OF o(4) inv(2) o(1) o(2,3) len] by (auto simp: read_trie_Some inv(2))
qed

lemma commit_grows:
  "marf_inv tx \<Longrightarrow> \<exists>tx'. marf_commit tx = Ok tx' \<and> open_chain_tip tx' = None \<and> marf_inv tx' \<and>
    read_trie (storage tx') = read_trie (storage tx)"
proof -
  assume inv: "marf_inv tx"
  then obtain tx' where tx': "marf_commit tx = Ok tx'" "open_chain_tip tx' = None"
    by (cases "open_chain_tip tx") (auto simp: marf_commit_def marf_inv_def st_flush_def)
  with inv_commit [OF inv tx'(1)] show ?thesis by blast
qed

section \<open>Properties\<close>

definition example_block :: "u8 \<Rightarrow> bytes" where
  "example_block n = replicate 32 n"

lemma example_block_simps [simp]:
  "example_block n = example_block m \<longleftrightarrow> n = m" "example_block n = SENTINEL_ARRAY \<longleftrightarrow> n = 255"
  by (simp_all add: example_block_def SENTINEL_ARRAY_def)

text \<open>A forest with a first block \<open>1\<close> and its child \<open>2\<close>, which is still being written.\<close>

lemma example_forest:
  "\<exists>tx :: (nat, nat) MarfTransaction. marf_reachable tx \<and> cur_block (storage tx) = example_block 2 \<and>
     ancestry (read_trie (storage tx)) (example_block 2) [example_block 1, example_block 2]"
proof -
  let ?b = example_block
  have e: "marf_reachable (empty_marf :: (nat, nat) MarfTransaction)" by (rule reach_empty)
  have rd0: "read_trie (storage (empty_marf :: (nat, nat) MarfTransaction)) = Map.empty"
    by (simp add: fun_eq_iff empty_marf_def read_trie_def)
  have "\<exists>tx' t h. marf_begin (empty_marf :: (nat, nat) MarfTransaction) SENTINEL_ARRAY (?b 1) = Ok tx' \<and> open_chain_tip tx' = Some (?b 1, h) \<and>
    read_trie (storage tx') = (read_trie (storage empty_marf))(?b 1 \<mapsto> t) \<and> tr_parent t = SENTINEL_ARRAY \<and>
    (\<forall>k. tr_leaves t (IndexKey k) = parent_view (storage empty_marf) SENTINEL_ARRAY k)"
    by (rule begin_grows [OF reachable_inv [OF e]]) (simp_all add: rd0, simp add: empty_marf_def)
  then obtain t1 t where t1: "marf_begin empty_marf SENTINEL_ARRAY (?b 1) = Ok (t1 :: (nat, nat) MarfTransaction)"
    "read_trie (storage t1) = Map.empty(?b 1 \<mapsto> t)" "tr_parent t = SENTINEL_ARRAY" by (auto simp: rd0)
  have r1: "marf_reachable t1" by (rule reach_step [OF e step_begin [OF _ t1(1)]]) simp
  obtain t2 where t2: "marf_commit t1 = Ok t2" "open_chain_tip t2 = None" "read_trie (storage t2) = Map.empty(?b 1 \<mapsto> t)"
    using commit_grows [OF reachable_inv [OF r1]] t1 by auto
  have r2: "marf_reachable t2" by (rule reach_step [OF r1 step_commit [OF t2(1)]])
  have a1: "ancestry (read_trie (storage t2)) (?b 1) [?b 1]" using t1 t2 by (auto intro: anc_first)
  obtain tx s where tx: "marf_begin t2 (?b 1) (?b 2) = Ok tx" "read_trie (storage tx) = Map.empty(?b 1 \<mapsto> t, ?b 2 \<mapsto> s)"
    "tr_parent s = ?b 1" "cur_block (storage tx) = ?b 2"
  proof -
    have "\<exists>tx' s h. marf_begin t2 (?b 1) (?b 2) = Ok tx' \<and> open_chain_tip tx' = Some (?b 2, h) \<and>
      read_trie (storage tx') = (read_trie (storage t2))(?b 2 \<mapsto> s) \<and> tr_parent s = ?b 1 \<and>
      (\<forall>k. tr_leaves s (IndexKey k) = parent_view (storage t2) (?b 1) k)"
      by (rule begin_grows [OF reachable_inv [OF r2] t2(2), where ps = "[?b 1]"]) (use t2 a1 in simp_all)
    then obtain tx s h where tx: "marf_begin t2 (?b 1) (?b 2) = Ok tx" "open_chain_tip tx = Some (?b 2, h)"
      "read_trie (storage tx) = Map.empty(?b 1 \<mapsto> t, ?b 2 \<mapsto> s)" "tr_parent s = ?b 1" using t2 by auto
    moreover have "cur_block (storage tx) = ?b 2"
      using inv_begin [OF reachable_inv [OF r2] tx(1)] tx(2) by (simp add: marf_inv_def)
    ultimately show ?thesis using that by blast
  qed
  have "marf_reachable tx" by (rule reach_step [OF r2 step_begin [OF _ tx(1)]]) simp
  moreover have "ancestry (read_trie (storage tx)) (?b 1) [?b 1]" using tx t1 by (auto intro: anc_first)
  then have "ancestry (read_trie (storage tx)) (?b 2) ([?b 1] @ [?b 2])" using tx by (intro anc_child [where t = s]) simp_all
  ultimately show ?thesis using tx by auto
qed

text \<open>C8. The height keys of the fork index always describe the real ancestry: whatever blocks were
  begun, written, committed and dropped, on whatever forks, every stored block has exactly one chain of
  parents down from a first block; \<^verbatim>\<open>get_block_at_height\<close> returns the block of that chain at the height
  asked for and nothing above it, and \<^verbatim>\<open>get_block_height\<close> returns the height of exactly the blocks of
  that chain.\<close>

theorem ancestor_index_sound:
  assumes "marf_reachable tx" and "read_trie (storage tx) b \<noteq> None"
  shows "\<exists>!ps. ancestry (read_trie (storage tx)) b ps \<and>
    (\<forall>h. get_block_at_height (storage tx) h b = Ok (if unat h < length ps then Some (ps ! unat h) else None)) \<and>
    (\<forall>a. get_block_height (storage tx) a b = Ok (map_option of_nat (index_of ps a)))"
proof -
  note inv = reachable_inv [OF assms(1)]
  from inv assms(2) obtain ps where ps: "ancestry (read_trie (storage tx)) b ps"
    unfolding marf_inv_def forest_def by blast
  show ?thesis
    by (rule ex1I [of _ ps])
      (use ps inv_get_block_at_height [OF inv ps] inv_get_block_height [OF inv ps] anc_det [OF ps] in blast)+
qed

theorem ancestor_index_sound_witness:
  "\<exists>tx :: (nat, nat) MarfTransaction. marf_reachable tx \<and> read_trie (storage tx) (example_block 2) \<noteq> None \<and>
     get_block_at_height (storage tx) 0 (example_block 2) = Ok (Some (example_block 1)) \<and>
     get_block_at_height (storage tx) 1 (example_block 2) = Ok (Some (example_block 2)) \<and>
     get_block_at_height (storage tx) 2 (example_block 2) = Ok None"
proof -
  obtain tx :: "(nat, nat) MarfTransaction" where tx: "marf_reachable tx"
    and anc: "ancestry (read_trie (storage tx)) (example_block 2) [example_block 1, example_block 2]"
    using example_forest by blast
  have st: "read_trie (storage tx) (example_block 2) \<noteq> None" using anc_stored [OF anc] by auto
  from ancestor_index_sound [OF tx st] obtain ps where ps: "ancestry (read_trie (storage tx)) (example_block 2) ps"
    "\<And>h. get_block_at_height (storage tx) h (example_block 2) = Ok (if unat h < length ps then Some (ps ! unat h) else None)"
    by blast
  from anc_det [OF anc ps(1)] have "ps = [example_block 1, example_block 2]" .
  then show ?thesis using tx st ps by auto
qed



text \<open>C10. The extension lock does not lock: \<^verbatim>\<open>extend_to_block\<close> takes a lock on the block so that it
  cannot be extended twice, but \<^verbatim>\<open>lock_bhh_for_extension\<close> drops the answer of the query and always
  says yes, so a block that is already locked by an unfinished writer is extended again.\<close>

theorem extension_lock_ignored:
  assumes "bhh \<in> set (block_extension_locks st)" and "\<not> has_block st bhh"
    and "\<not> st_readonly st" and "last_extended st = None"
  shows "fst (tx_lock_bhh_for_extension st bhh) = False \<and>
    extend_to_block st bhh = Ok (switch_trie bhh \<lparr>tr_parent = cur_block st, tr_leaves = Map.empty\<rparr> st)"
  using assms
  by (simp add: tx_lock_bhh_for_extension_def extend_to_block_def st_flush_def lock_bhh_for_extension_def Let_def)

definition example_locked :: "(nat, nat) TrieStorage" where
  "example_locked = \<lparr>marf_data = [], block_extension_locks = [example_block 1], last_extended = None,
     cur_block = SENTINEL_ARRAY, st_readonly = False\<rparr>"

theorem extension_lock_ignored_witness:
  "example_block 1 \<in> set (block_extension_locks example_locked) \<and>
   extend_to_block example_locked (example_block 1) =
     Ok (example_locked\<lparr>last_extended := Some (example_block 1, \<lparr>tr_parent = SENTINEL_ARRAY, tr_leaves = Map.empty\<rparr>),
       cur_block := example_block 1\<rparr>)"
  using extension_lock_ignored [of "example_block 1" example_locked]
  by (simp add: has_block_def switch_trie_def example_locked_def)

end
