(* ===== verification/Snapshots.thy ===== *)
theory Snapshots
  imports Distribution Marf
begin

text \<open>
  What a processed burn block is summarised into: the rolling sortition hash, the operations hash and
  the consensus hash of \<^verbatim>\<open>src/chainstate/burn/mod.rs\<close>, the PoX bit vector and the sortition identifier of
  \<^verbatim>\<open>src/chainstate/burn/db/sortdb.rs\<close>, the block snapshot, and the choice of a winner from a burn
  distribution in \<^verbatim>\<open>src/chainstate/burn/sortition.rs\<close>. The lemmas show that the winner is always the one
  candidate whose range holds the sampled index, and when there is none.
\<close>

section \<open>Hashes\<close>

definition SYSTEM_FORK_SET_VERSION :: bytes where
  "SYSTEM_FORK_SET_VERSION = [23, 0, 0, 0]"

definition FIRST_STACKS_BLOCK_HASH :: bytes where
  "FIRST_STACKS_BLOCK_HASH = replicate 32 0"

definition FIRST_BURNCHAIN_CONSENSUS_HASH :: bytes where
  "FIRST_BURNCHAIN_CONSENSUS_HASH = replicate 20 0"

definition VRFSeed_initial :: bytes where
  "VRFSeed_initial = replicate 32 0"

definition VRFSeed_from_proof :: "externals \<Rightarrow> bytes \<Rightarrow> bytes" where
  "VRFSeed_from_proof X proof = sha512_256 X proof"

definition is_from_proof :: "externals \<Rightarrow> bytes \<Rightarrow> bytes \<Rightarrow> bool" where
  "is_from_proof X seed proof = (seed = VRFSeed_from_proof X proof)"

definition SortitionHash_initial :: bytes where
  "SortitionHash_initial = replicate 32 0"

definition mix_burn_header :: "externals \<Rightarrow> bytes \<Rightarrow> bytes \<Rightarrow> bytes" where
  "mix_burn_header X self burn_header_hash = sha256 X (self @ burn_header_hash)"

definition mix_VRF_seed :: "externals \<Rightarrow> bytes \<Rightarrow> bytes \<Rightarrow> bytes" where
  "mix_VRF_seed X self VRF_seed = sha256 X (self @ VRF_seed)"

text \<open>\<open>gen_range\<close> stands for the \<^verbatim>\<open>rand_chacha\<close> generator seeded with the hash.\<close>

definition choose_index :: "(bytes \<Rightarrow> u32 \<Rightarrow> u32) \<Rightarrow> bytes \<Rightarrow> u32 \<Rightarrow> ('e, u32) res" where
  "choose_index gen_range self bound =
     (let index = gen_range self bound in if index < bound then Ok index else Panic)"

definition hash_to_uint256 :: "bytes \<Rightarrow> uint" where
  "hash_to_uint256 h =
     map (\<lambda>i. ucast (h ! (8 * i)) + push_bit 8 (ucast (h ! (8 * i + 1))) + push_bit 16 (ucast (h ! (8 * i + 2))) +
              push_bit 24 (ucast (h ! (8 * i + 3))) + push_bit 32 (ucast (h ! (8 * i + 4))) +
              push_bit 40 (ucast (h ! (8 * i + 5))) + push_bit 48 (ucast (h ! (8 * i + 6))) +
              push_bit 56 (ucast (h ! (8 * i + 7)))) [0..<4]"

definition from_txids :: "externals \<Rightarrow> bytes list \<Rightarrow> bytes" where
  "from_txids X txids = sha256 X (concat txids)"

section \<open>PoX bit vectors\<close>

text \<open>\<^verbatim>\<open>PoxId\<close> wraps a vector of booleans.\<close>

type_synonym PoxId = "bool list"

definition PoxId_initial :: PoxId where
  "PoxId_initial = [True]"

definition PoxId_stubbed :: PoxId where
  "PoxId_stubbed = []"

definition extend_with_present_block :: "PoxId \<Rightarrow> PoxId" where
  "extend_with_present_block p = p @ [True]"

definition extend_with_not_present_block :: "PoxId \<Rightarrow> PoxId" where
  "extend_with_not_present_block p = p @ [False]"

definition has_ith_anchor_block :: "PoxId \<Rightarrow> nat \<Rightarrow> bool" where
  "has_ith_anchor_block p i = (if i \<ge> length p then False else p ! i)"

text \<open>The loop of \<^verbatim>\<open>bit_slice\<close>: \<open>i\<close> is \<^verbatim>\<open>bit - start\<close>, and the break leaves the result as it is.\<close>

fun bit_slice_loop :: "PoxId \<Rightarrow> nat \<Rightarrow> nat \<Rightarrow> nat \<Rightarrow> bytes \<times> nat \<Rightarrow> bytes \<times> nat" where
  "bit_slice_loop p start i 0 (ret, cnt) = (ret, cnt)"
| "bit_slice_loop p start i (Suc n) (ret, cnt) =
     (if start + i \<ge> length p then (ret, cnt)
      else let ret = (if i > 0 \<and> i mod 8 = 0 then ret @ [0] else ret);
               sz = length ret - 1;
               ret = (if p ! (start + i) then ret[sz := ret ! sz OR push_bit (i mod 8) 1] else ret)
           in bit_slice_loop p start (Suc i) n (ret, cnt + 1))"

definition bit_slice :: "PoxId \<Rightarrow> nat \<Rightarrow> nat \<Rightarrow> bytes \<times> nat" where
  "bit_slice p start len = bit_slice_loop p start 0 len ([0], 0)"

definition pox_to_string :: "PoxId \<Rightarrow> bytes" where
  "pox_to_string p = map (\<lambda>val. if val then 49 else 48) p"

definition pox_from_str :: "bytes \<Rightarrow> (net_error, PoxId) res" where
  "pox_from_str s = map_res (\<lambda>i. if i = 49 then Ok True else if i = 48 then Ok False else Err DeserializeError) s"

definition SortitionId_new :: "externals \<Rightarrow> bytes \<Rightarrow> PoxId \<Rightarrow> bytes" where
  "SortitionId_new X bhh pox = (if pox = PoxId_stubbed then bhh else sha512_256 X (bhh @ pox_to_string pox))"

definition SortitionId_stubbed :: "externals \<Rightarrow> bytes \<Rightarrow> bytes" where
  "SortitionId_stubbed X from = SortitionId_new X from PoxId_stubbed"

section \<open>Consensus hashes\<close>

definition ConsensusHash_empty :: bytes where
  "ConsensusHash_empty = replicate 20 0"

definition from_ops :: "externals \<Rightarrow> bytes \<Rightarrow> bytes \<Rightarrow> u64 \<Rightarrow> bytes list \<Rightarrow> PoxId \<Rightarrow> bytes" where
  "from_ops X burn_header_hash opshash total_burn prev_consensus_hashes pox_id =
     ripemd160 X (sha256 X (SYSTEM_FORK_SET_VERSION @ burn_header_hash @ opshash @ to_be_bytes 8 total_burn @
       pox_to_string pox_id @ concat prev_consensus_hashes))"

definition ConsensusHash_from_data :: "externals \<Rightarrow> bytes \<Rightarrow> bytes" where
  "ConsensusHash_from_data X b = ripemd160 X (sha256 X b)"

text \<open>\<open>consensus_at\<close> is the lookup of the consensus hash at a height of this fork. The counter \<open>i\<close> goes
  up from 0, so at most \<open>64 - i\<close> rounds are left.\<close>

function prev_consensus_loop :: "(u64 \<Rightarrow> ('e, bytes option) res) \<Rightarrow> u64 \<Rightarrow> u64 \<Rightarrow> nat \<Rightarrow> bytes list
    \<Rightarrow> ('e, nat \<times> bytes list) res" where
  "prev_consensus_loop consensus_at block_height first_block_height i prev_chs =
     (if i < 64 \<and> block_height - (push_bit (i mod 64) 1 - 1) \<ge> first_block_height then
        let prev_block = block_height - (push_bit (i mod 64) 1 - 1)
        in case consensus_at prev_block of
             Ok ch \<Rightarrow>
               let prev_chs = prev_chs @ [case ch of Some c \<Rightarrow> c | None \<Rightarrow> ConsensusHash_empty];
                   i = i + 1
               in if block_height < push_bit (i mod 64) 1 - 1 then Ok (i, prev_chs)
                  else prev_consensus_loop consensus_at block_height first_block_height i prev_chs
           | _ \<Rightarrow> Panic
      else Ok (i, prev_chs))"
  by pat_completeness auto
termination by (relation "measure (\<lambda>(_, _, _, i, _). 64 - i)") auto

definition get_prev_consensus_hashes :: "(u64 \<Rightarrow> ('e, bytes option) res) \<Rightarrow> u64 \<Rightarrow> u64 \<Rightarrow> ('e, bytes list) res" where
  "get_prev_consensus_hashes consensus_at block_height first_block_height =
     and_then (prev_consensus_loop consensus_at block_height first_block_height 0 [])
       (\<lambda>(i, prev_chs). if i = 64 then Panic else Ok prev_chs)"

definition from_parent_block_data :: "externals \<Rightarrow> (u64 \<Rightarrow> ('e, bytes option) res) \<Rightarrow> bytes \<Rightarrow> u64 \<Rightarrow> u64 \<Rightarrow> bytes
    \<Rightarrow> u64 \<Rightarrow> PoxId \<Rightarrow> ('e, bytes) res" where
  "from_parent_block_data X consensus_at opshash parent_block_height first_block_height this_block_hash total_burn pox_id =
     and_then (get_prev_consensus_hashes consensus_at parent_block_height first_block_height)
       (\<lambda>prev. Ok (from_ops X this_block_hash opshash total_burn prev pox_id))"

section \<open>Block snapshots\<close>

record BlockSnapshot =
  sn_block_height :: u64
  sn_burn_header_timestamp :: u64
  sn_burn_header_hash :: bytes
  sn_parent_burn_header_hash :: bytes
  sn_consensus_hash :: bytes
  sn_ops_hash :: bytes
  sn_total_burn :: u64
  sn_sortition :: bool
  sn_sortition_hash :: bytes
  sn_winning_block_txid :: bytes
  sn_winning_stacks_block_hash :: bytes
  sn_index_root :: bytes
  sn_num_sortitions :: u64
  sn_stacks_block_accepted :: bool
  sn_stacks_block_height :: u64
  sn_arrival_index :: u64
  sn_canonical_stacks_tip_height :: u64
  sn_canonical_stacks_tip_hash :: bytes
  sn_canonical_stacks_tip_consensus_hash :: bytes
  sn_sortition_id :: bytes
  sn_pox_valid :: bool

text \<open>\<open>TrieHash::from_empty_data\<close> is the SHA-512/256 digest of the empty string.\<close>

definition TrieHash_from_empty_data :: bytes where
  "TrieHash_from_empty_data =
     to_be_bytes 32 (0xc672b8d1ef56ed28ab87c3622c5114069bdd3ad7b8f9737498d0c01ecef0967a :: 256 word)"

definition snapshot_initial :: "externals \<Rightarrow> u64 \<Rightarrow> bytes \<Rightarrow> u64 \<Rightarrow> BlockSnapshot" where
  "snapshot_initial X first_block_height first_burn_header_hash first_burn_header_timestamp =
     \<lparr>sn_block_height = first_block_height,
      sn_burn_header_timestamp = first_burn_header_timestamp,
      sn_burn_header_hash = first_burn_header_hash,
      sn_parent_burn_header_hash = SENTINEL_ARRAY,
      sn_consensus_hash = replicate 20 0,
      sn_ops_hash = replicate 32 0,
      sn_total_burn = 0,
      sn_sortition = True,
      sn_sortition_hash = SortitionHash_initial,
      sn_winning_block_txid = replicate 32 0,
      sn_winning_stacks_block_hash = FIRST_STACKS_BLOCK_HASH,
      sn_index_root = TrieHash_from_empty_data,
      sn_num_sortitions = 0,
      sn_stacks_block_accepted = False,
      sn_stacks_block_height = 0,
      sn_arrival_index = 0,
      sn_canonical_stacks_tip_height = 0,
      sn_canonical_stacks_tip_hash = FIRST_STACKS_BLOCK_HASH,
      sn_canonical_stacks_tip_consensus_hash = FIRST_BURNCHAIN_CONSENSUS_HASH,
      sn_sortition_id = SortitionId_stubbed X first_burn_header_hash,
      sn_pox_valid = True\<rparr>"

definition is_initial :: "BlockSnapshot \<Rightarrow> bool" where
  "is_initial sn = (sn_sortition_hash sn = SortitionHash_initial)"

definition StacksBlockId_new :: "externals \<Rightarrow> bytes \<Rightarrow> bytes \<Rightarrow> bytes" where
  "StacksBlockId_new X sortition_consensus_hash block_hash = sha512_256 X (block_hash @ sortition_consensus_hash)"

definition get_canonical_stacks_block_id :: "externals \<Rightarrow> BlockSnapshot \<Rightarrow> bytes" where
  "get_canonical_stacks_block_id X sn = StacksBlockId_new X (sn_consensus_hash sn) (sn_canonical_stacks_tip_hash sn)"

section \<open>Sampling a winner\<close>

fun sample_loop :: "uint \<Rightarrow> nat \<Rightarrow> BurnSamplePoint list \<Rightarrow> ('e, nat option) res" where
  "sample_loop index i [] = Panic"
| "sample_loop index i (s # dist) =
     (if uint_le (range_start s) index \<and> uint_less index (range_end s) then Ok (Some i)
      else sample_loop index (Suc i) dist)"

definition sample_burn_distribution :: "externals \<Rightarrow> BurnSamplePoint list \<Rightarrow> bytes \<Rightarrow> bytes \<Rightarrow> ('e, nat option) res" where
  "sample_burn_distribution X dist VRF_seed sortition_hash =
     (if length dist = 0 then Ok None
      else if length dist = 1 then Ok (Some 0)
      else sample_loop (hash_to_uint256 (mix_VRF_seed X sortition_hash VRF_seed)) 0 dist)"

section \<open>The sampled index\<close>

text \<open>\<^verbatim>\<open>to_uint256\<close> reads the 32 bytes as a little-endian number.\<close>

primrec le_value :: "bytes \<Rightarrow> nat" where
  "le_value [] = 0"
| "le_value (b # bs) = unat b + 256 * le_value bs"

lemma le_value_append: "le_value (xs @ ys) = le_value xs + 256 ^ length xs * le_value ys"
  by (induction xs) (simp_all add: algebra_simps)

lemma push_byte: "push_bit k (ucast (b :: u8)) = (of_nat (unat b * 2 ^ k) :: u64)"
  by (simp add: push_bit_eq_mult)

lemma unat_byte: "unat (b :: u8) \<le> 255"
  using unsigned_less [of b, where 'a = nat] by simp

lemma unat_u64: "n < 2 ^ 64 \<Longrightarrow> unat (of_nat n :: u64) = n"
  by (simp add: unat_of_nat)

lemma limb_value:
  fixes b0 b1 b2 b3 b4 b5 b6 b7 :: u8
  shows "unat (ucast b0 + push_bit 8 (ucast b1) + push_bit 16 (ucast b2) + push_bit 24 (ucast b3) + push_bit 32 (ucast b4) +
    push_bit 40 (ucast b5) + push_bit 48 (ucast b6) + push_bit 56 (ucast b7) :: u64) =
    unat b0 + 256 * unat b1 + 256 ^ 2 * unat b2 + 256 ^ 3 * unat b3 + 256 ^ 4 * unat b4 + 256 ^ 5 * unat b5 +
    256 ^ 6 * unat b6 + 256 ^ 7 * unat b7" (is "unat ?w = ?n")
proof -
  have w: "?w = of_nat ?n" by (simp add: push_byte)
  have "?n < 2 ^ 64"
    using unat_byte [of b0] unat_byte [of b1] unat_byte [of b2] unat_byte [of b3] unat_byte [of b4]
      unat_byte [of b5] unat_byte [of b6] unat_byte [of b7] by simp
  then show ?thesis unfolding w by (rule unat_u64)
qed

lemma length_hash_to_uint256 [simp]: "length (hash_to_uint256 h) = 4"
  by (simp add: hash_to_uint256_def)

lemma limb_le_value:
  "unat (ucast (h ! n) + push_bit 8 (ucast (h ! (n + 1))) + push_bit 16 (ucast (h ! (n + 2))) + push_bit 24 (ucast (h ! (n + 3))) +
     push_bit 32 (ucast (h ! (n + 4))) + push_bit 40 (ucast (h ! (n + 5))) + push_bit 48 (ucast (h ! (n + 6))) +
     push_bit 56 (ucast (h ! (n + 7))) :: u64) = le_value (map ((!) h) [n..<n + 8])"
proof -
  have "[n..<n + 8] = [n, n + 1, n + 2, n + 3, n + 4, n + 5, n + 6, n + 7]"
    by (simp add: upt_rec numeral_eq_Suc)
  then show ?thesis by (simp only: limb_value list.map le_value.simps) (simp add: algebra_simps)
qed

lemma uval_hash_to_uint256:
  assumes "length h = 32"
  shows "uval (hash_to_uint256 h) = le_value h"
proof -
  have "[0..<32] = [0..<8] @ [8..<8 + 8] @ [16..<16 + 8] @ [24..<24 + (8 :: nat)]"
    by code_simp
  then have "le_value (map ((!) h) [0..<32]) = le_value (map ((!) h) [0..<0 + 8]) + 2 ^ 64 * (le_value (map ((!) h) [8..<8 + 8]) +
      2 ^ 64 * (le_value (map ((!) h) [16..<16 + 8]) + 2 ^ 64 * le_value (map ((!) h) [24..<24 + 8])))"
    by (simp only: map_append le_value_append length_map length_upt) (simp add: algebra_simps)
  moreover have "map ((!) h) [0..<32] = h" using assms map_nth [of h] by simp
  moreover have "[0..<4] = [0, 1, 2, 3 :: nat]" by (simp add: upt_rec numeral_eq_Suc)
  ultimately show ?thesis
    by (simp only: hash_to_uint256_def list.map uval.simps limb_le_value) (simp add: limb_le_value)
qed

section \<open>The winner\<close>

definition holds_index :: "nat \<Rightarrow> BurnSamplePoint \<Rightarrow> bool" where
  "holds_index v s \<longleftrightarrow> uval (range_start s) \<le> v \<and> v < uval (range_end s)"

lemma sample_loop_hit:
  assumes "i < length ds" "holds_index (uval idx) (ds ! i)" "\<And>j. j < i \<Longrightarrow> \<not> holds_index (uval idx) (ds ! j)"
    and "\<And>s. s \<in> set ds \<Longrightarrow> length (range_start s) = length idx \<and> length (range_end s) = length idx"
  shows "(sample_loop idx k ds :: ('e, _) res) = Ok (Some (k + i))"
  using assms
proof (induction ds arbitrary: i k)
  case (Cons s ds)
  have l: "length (range_start s) = length idx" "length (range_end s) = length idx" using Cons.prems(4) by auto
  then have test: "uint_le (range_start s) idx \<and> uint_less idx (range_end s) \<longleftrightarrow> holds_index (uval idx) s"
    by (simp add: holds_index_def uint_le_uval uint_less_uval)
  show ?case
  proof (cases i)
    case 0
    then show ?thesis using Cons.prems(2) test by simp
  next
    case (Suc j)
    have "\<not> holds_index (uval idx) s" using Cons.prems(3) [of 0] Suc by simp
    moreover have "(sample_loop idx (Suc k) ds :: ('e, _) res) = Ok (Some (Suc k + j))"
    proof (rule Cons.IH)
      show "\<not> holds_index (uval idx) (ds ! m)" if "m < j" for m using Cons.prems(3) [of "Suc m"] that Suc by simp
    qed (use Cons.prems Suc in auto)
    ultimately show ?thesis using test Suc by simp
  qed
qed simp

lemma sample_loop_miss:
  assumes "\<And>s. s \<in> set ds \<Longrightarrow> \<not> holds_index (uval idx) s"
    and "\<And>s. s \<in> set ds \<Longrightarrow> length (range_start s) = length idx \<and> length (range_end s) = length idx"
  shows "sample_loop idx k ds = Panic"
  using assms by (induction ds arbitrary: k) (auto simp: holds_index_def uint_le_uval uint_less_uval)

lemma share_end_mono: "i \<le> j \<Longrightarrow> share_end bs i \<le> share_end bs j"
proof -
  assume "i \<le> j"
  then have "take (Suc i) bs = take (Suc i) (take (Suc j) bs)" by simp
  then have "burn_sum (take (Suc i) bs) \<le> burn_sum (take (Suc j) bs)" by (metis burn_sum_take_le)
  then show ?thesis unfolding share_end_def by (intro div_le_mono mult_le_mono2)
qed

lemma holds_ranged:
  assumes "0 < burn_sum bs"
  shows "holds_index v (ranged bs i) \<longleftrightarrow> (\<forall>j<i. share_end bs j \<le> v) \<and> v < share_end bs i"
proof (cases i)
  case 0
  have "range_start (ranged bs 0) = zero 4" "range_end (ranged bs i) = nat_to_uint 4 (share_end bs i)"
    by (simp_all add: ranged_def)
  then show ?thesis using assms 0 by (simp add: holds_index_def uval_share uval_zero)
next
  case (Suc k)
  have r: "range_start (ranged bs i) = nat_to_uint 4 (share_end bs k)" "range_end (ranged bs i) = nat_to_uint 4 (share_end bs i)"
    using Suc by (simp_all add: ranged_def)
  have "share_end bs k \<le> v \<longleftrightarrow> (\<forall>j<i. share_end bs j \<le> v)"
    using Suc share_end_mono [of _ k bs] by (auto simp: less_Suc_eq_le intro: order_trans)
  then show ?thesis using assms by (simp add: holds_index_def r uval_share)
qed

lemma ranged_lengths: "s \<in> set (map (ranged bs) [0..<n]) \<Longrightarrow> length (range_start s) = 4 \<and> length (range_end s) = 4"
  by (auto simp: ranged_def zero_def)

lemma sample_ranged:
  assumes b: "0 < burn_sum bs" and idx: "length idx = 4"
  shows "(sample_loop idx 0 (map (ranged bs) [0..<length bs]) :: ('e, _) res) =
    (if uval idx < share_end bs (length bs - 1) \<and> bs \<noteq> []
     then Ok (Some (LEAST i. uval idx < share_end bs i)) else Panic)"
proof (cases "uval idx < share_end bs (length bs - 1) \<and> bs \<noteq> []")
  case True
  define i where "i = (LEAST i. uval idx < share_end bs i)"
  have lt: "uval idx < share_end bs i" unfolding i_def by (rule LeastI) (use True in blast)
  have le: "i \<le> length bs - 1" unfolding i_def using True by (intro Least_le) simp
  have i: "i < length bs" using le True by (cases bs) auto
  have before: "share_end bs j \<le> uval idx" if "j < i" for j
    using not_less_Least [of j "\<lambda>i. uval idx < share_end bs i"] that unfolding i_def by simp
  have "(sample_loop idx 0 (map (ranged bs) [0..<length bs]) :: ('e, _) res) = Ok (Some (0 + i))"
  proof (rule sample_loop_hit)
    show "holds_index (uval idx) (map (ranged bs) [0..<length bs] ! i)" using i lt before by (simp add: holds_ranged [OF b])
    show "\<not> holds_index (uval idx) (map (ranged bs) [0..<length bs] ! j)" if "j < i" for j
      using that i before [of j] by (simp add: holds_ranged [OF b] not_less)
  qed (use i ranged_lengths idx in auto)
  then show ?thesis using True by (simp add: i_def)
next
  case False
  have "\<not> holds_index (uval idx) s" if s: "s \<in> set (map (ranged bs) [0..<length bs])" for s
  proof -
    from s obtain i where "i < length bs" "s = ranged bs i" by auto
    moreover from this False have "share_end bs i \<le> uval idx" using share_end_mono [of i "length bs - 1" bs] by (cases bs) auto
    ultimately show ?thesis by (simp add: holds_ranged [OF b])
  qed
  then have "sample_loop idx 0 (map (ranged bs) [0..<length bs]) = (Panic :: ('e, _) res)"
    by (rule sample_loop_miss) (use ranged_lengths idx in auto)
  then show ?thesis using False by simp
qed

section \<open>The consensus hashes that are mixed in\<close>

text \<open>The geometric series: the heights \<open>block_height - (2 ^ i - 1)\<close>, for as long as they stay in the chain.\<close>

definition prev_height :: "u64 \<Rightarrow> nat \<Rightarrow> u64" where
  "prev_height block_height i = of_nat (unat block_height - (2 ^ i - 1))"

lemma power_less_64: "i < 64 \<Longrightarrow> 2 ^ i - 1 < (2 :: nat) ^ 64"
  using power_strict_increasing [of i 64 "2 :: nat"] by linarith

lemma power_mask: "i < 64 \<Longrightarrow> unat ((push_bit (i mod 64) 1 :: u64) - 1) = 2 ^ i - 1"
proof -
  assume i: "i < 64"
  then have "(push_bit (i mod 64) 1 :: u64) - 1 = of_nat (2 ^ i - 1)" by (simp add: push_bit_eq_mult of_nat_diff)
  then show ?thesis using unat_u64 [OF power_less_64 [OF i]] by simp
qed

lemma prev_block:
  assumes i: "i < 64" and le: "2 ^ i - 1 \<le> unat bh"
  shows "bh - (push_bit (i mod 64) 1 - 1) = prev_height bh i" "unat (prev_height bh i) = unat bh - (2 ^ i - 1)"
proof -
  note p = power_mask [OF i]
  have "unat bh - (2 ^ i - 1) < 2 ^ 64"
    using unsigned_less [of bh, where 'a = nat] by (intro le_less_trans [OF diff_le_self]) simp
  then show u: "unat (prev_height bh i) = unat bh - (2 ^ i - 1)" unfolding prev_height_def by (rule unat_u64)
  have "(push_bit (i mod 64) 1 :: u64) - 1 \<le> bh" using le p by (simp add: word_le_nat_alt)
  then have "unat (bh - (push_bit (i mod 64) 1 - 1)) = unat bh - (2 ^ i - 1)" by (simp only: unat_sub p)
  then show "bh - (push_bit (i mod 64) 1 - 1) = prev_height bh i" using u by (simp only: word_unat_eq_iff)
qed

declare prev_consensus_loop.simps [simp del]

lemma prev_consensus_loop_eq:
  assumes bh: "unat bh < 2 ^ 63 - 1" and le: "first \<le> bh" and at: "\<And>h. consensus_at h = Ok (at h)"
    and k: "\<And>i. i < k \<Longrightarrow> 2 ^ i - 1 \<le> unat bh - unat first" "unat bh - unat first < 2 ^ k - 1"
    and j: "j \<le> k" "2 ^ j - 1 \<le> unat bh"
  shows "(prev_consensus_loop consensus_at bh first j acc :: ('e, _) res) =
    Ok (k, acc @ map (\<lambda>i. case at (prev_height bh i) of Some c \<Rightarrow> c | None \<Rightarrow> ConsensusHash_empty) [j..<k])"
  using j
proof (induction "k - j" arbitrary: j acc)
  have small: "i < 63" if "2 ^ i - 1 \<le> unat bh" for i
  proof (rule ccontr)
    assume "\<not> i < 63"
    then have "(2 :: nat) ^ 63 \<le> 2 ^ i" by (intro power_increasing) simp_all
    then show False using that bh by linarith
  qed
  have cond: "first \<le> bh - (push_bit (i mod 64) 1 - 1) \<longleftrightarrow> 2 ^ i - 1 \<le> unat bh - unat first" if "2 ^ i - 1 \<le> unat bh" for i
  proof -
    have i: "i < 64" using small [OF that] by simp
    have "unat first \<le> unat bh" using le by (simp add: word_le_nat_alt)
    then show ?thesis by (simp only: prev_block [OF i that] word_le_nat_alt) (use that in linarith)
  qed
  {
    case 0
    then have "j = k" by simp
    then show ?case using cond [OF 0(3)] k(2) by (subst prev_consensus_loop.simps) simp
  next
    case (Suc n)
    then have jk: "j < k" by simp
    have j63: "j < 63" "j < 64" using small [OF Suc.prems(2)] by simp_all
    have go: "first \<le> prev_height bh j"
      using cond [OF Suc.prems(2)] k(1) [OF jk] unfolding prev_block(1) [OF j63(2) Suc.prems(2)] by blast
    let ?c = "case at (prev_height bh j) of Some c \<Rightarrow> c | None \<Rightarrow> ConsensusHash_empty"
    have step: "(prev_consensus_loop consensus_at bh first j acc :: ('e, _) res) =
      (if bh < push_bit (Suc j mod 64) 1 - 1 then Ok (Suc j, acc @ [?c])
       else prev_consensus_loop consensus_at bh first (Suc j) (acc @ [?c]))"
      by (subst prev_consensus_loop.simps)
        (simp only: prev_block(1) [OF j63(2) Suc.prems(2)] go j63(2) at Let_def res.case simp_thms if_True Suc_eq_plus1)
    have ex: "bh < push_bit (Suc j mod 64) 1 - 1 \<longleftrightarrow> unat bh < 2 ^ Suc j - 1"
      using power_mask [of "Suc j"] j63 by (simp only: word_less_nat_alt)
    have list: "[j..<k] = j # [Suc j..<k]" using jk by (rule upt_conv_Cons)
    show ?case
    proof (cases "unat bh < 2 ^ Suc j - 1")
      case True
      have "k = Suc j"
      proof (rule ccontr)
        assume "k \<noteq> Suc j"
        then have "Suc j < k" using jk by simp
        from k(1) [OF this] True show False by linarith
      qed
      then show ?thesis using step True ex list by simp
    next
      case False
      then show ?thesis
        using step ex list Suc.hyps(1) [of "Suc j" "acc @ [?c]"] Suc.hyps(2) jk by (simp del: power_Suc)
    qed
  }
qed

lemma bit_length_exists: "\<exists>k. (\<forall>i<k. 2 ^ i - 1 \<le> d) \<and> d < 2 ^ k - (1 :: nat)"
proof -
  let ?P = "\<lambda>k. d < 2 ^ k - (1 :: nat)"
  have "d + 2 \<le> 2 ^ (d + 2)" by (rule less_imp_le [OF less_exp])
  then have "?P (d + 2)" by linarith
  then have "?P (LEAST k. ?P k)" by (rule LeastI)
  moreover have "\<forall>i<LEAST k. ?P k. 2 ^ i - 1 \<le> d" using not_less_Least [where P = ?P] by (meson not_less)
  ultimately show ?thesis by blast
qed

section \<open>PoX bit vectors as strings and bytes\<close>

lemma pox_string_round_trip: "pox_from_str (pox_to_string p) = Ok p"
  unfolding pox_from_str_def pox_to_string_def by (induction p) auto

lemma pox_string_canonical: "pox_from_str s = Ok p \<Longrightarrow> pox_to_string p = s"
  unfolding pox_from_str_def pox_to_string_def
  by (induction s arbitrary: p) (auto simp: and_then_Ok_iff split: if_splits)

text \<open>The bit of a packed vector at position \<open>j\<close>.\<close>

definition bit_at :: "bytes \<Rightarrow> nat \<Rightarrow> bool" where
  "bit_at ret j \<longleftrightarrow> j div 8 < length ret \<and> bit (ret ! (j div 8)) (j mod 8)"

lemma bit_at_pad: "bit_at (ret @ [0]) = bit_at ret"
  by (auto simp: bit_at_def fun_eq_iff nth_append not_less_eq dest: less_antisym)

lemma bit_at_set:
  assumes "i div 8 < length ret"
  shows "bit_at (ret[i div 8 := ret ! (i div 8) OR push_bit (i mod 8) 1]) j \<longleftrightarrow> bit_at ret j \<or> j = i"
proof (cases "j div 8 = i div 8")
  case True
  then have "j mod 8 = i mod 8 \<longleftrightarrow> j = i" by (metis div_mult_mod_eq)
  then show ?thesis using True assms by (auto simp: bit_at_def bit_simps)
next
  case False
  then show ?thesis by (auto simp: bit_at_def)
qed

lemma pad_length:
  assumes "l = (if i = 0 then 1 else (i - 1) div 8 + 1)"
  shows "(if i > 0 \<and> i mod 8 = 0 then l + (0 + Suc 0) else l) = i div 8 + (1 :: nat)"
proof (cases i)
  case (Suc m)
  have gen: "(if M = 0 then d + 1 + 1 else d + 1) = D + 1" if "D = (if M = 0 then Suc d else d)" for D d M :: nat
    using that by auto
  have "Suc m div 8 = (if Suc m mod 8 = 0 then Suc (m div 8) else m div 8)" by (rule div_Suc)
  from gen [OF this] show ?thesis using assms Suc by (simp only: nat.distinct if_False diff_Suc_Suc minus_nat.diff_0 zero_less_Suc simp_thms add_0 One_nat_def)
qed (use assms in simp)

lemma bit_slice_loop_eq:
  assumes "length ret = (if i = 0 then 1 else (i - 1) div 8 + 1)" "\<And>j. bit_at ret j \<longleftrightarrow> j < i \<and> p ! (start + j)"
    and "bit_slice_loop p start i n (ret, cnt) = (ret', cnt')"
  shows "cnt' = cnt + min n (length p - start - i) \<and> (\<forall>j. bit_at ret' j \<longleftrightarrow> j < i + min n (length p - start - i) \<and> p ! (start + j))"
  using assms
proof (induction n arbitrary: i ret cnt)
  case 0
  then show ?case by simp
next
  case (Suc n)
  show ?case
  proof (cases "start + i \<ge> length p")
    case True
    then show ?thesis using Suc.prems by simp
  next
    case False
    define pad where "pad = (if i > 0 \<and> i mod 8 = 0 then ret @ [0] else ret)"
    define new where "new = (if p ! (start + i) then pad[length pad - 1 := pad ! (length pad - 1) OR push_bit (i mod 8) 1] else pad)"
    have len: "length pad = i div 8 + 1"
      using pad_length [OF Suc.prems(1)] by (simp only: pad_def if_distrib [of length] length_append list.size One_nat_def)
    have bits: "bit_at pad j \<longleftrightarrow> j < i \<and> p ! (start + j)" for j
      using Suc.prems(2) by (simp add: pad_def bit_at_pad)
    have new_bits: "bit_at new j \<longleftrightarrow> j < Suc i \<and> p ! (start + j)" for j
    proof -
      have idx: "length pad - 1 = i div 8" and lt: "i div 8 < length pad" using len by simp_all
      have "bit_at new j \<longleftrightarrow> bit_at pad j \<or> j = i \<and> p ! (start + i)"
        using bit_at_set [OF lt, of j] unfolding new_def idx by presburger
      then show ?thesis unfolding bits less_Suc_eq by blast
    qed
    have "bit_slice_loop p start (Suc i) n (new, cnt + 1) = (ret', cnt')"
      using Suc.prems(3) False by (simp only: bit_slice_loop.simps Let_def if_False pad_def [symmetric] new_def [symmetric])
    then have "cnt' = cnt + 1 + min n (length p - start - Suc i) \<and>
        (\<forall>j. bit_at ret' j \<longleftrightarrow> j < Suc i + min n (length p - start - Suc i) \<and> p ! (start + j))"
      using new_bits len by (intro Suc.IH) (auto simp: new_def)
    moreover have m: "min (Suc n) (length p - start - i) = Suc (min n (length p - start - Suc i))"
      using False by linarith
    ultimately show ?thesis unfolding m by simp
  qed
qed

section \<open>Properties\<close>

text \<open>C11. Choosing the winner: with two or more candidates whose burns are positive and stay below
  \<^verbatim>\<open>u64::MAX\<close>, \<^verbatim>\<open>sample_burn_distribution\<close> returns the one and only candidate whose range holds the number
  that the mixed sortition hash spells in little-endian order, whatever that number below
  \<open>2 ^ 256 - 1\<close> is.\<close>

theorem sortition_winner_unique:
  assumes "digest_sizes X" and "2 \<le> length bs" and "0 < burn_sum bs" and "burn_sum bs < 2 ^ 64 - 1"
    and "make_sortition_ranges bs = (Ok dist :: (op_error, _) res)"
    and "le_value (mix_VRF_seed X sortition_hash VRF_seed) < 2 ^ 256 - 1"
  shows "\<exists>i. sample_burn_distribution X dist VRF_seed sortition_hash = (Ok (Some i) :: (op_error, _) res) \<and> i < length dist \<and>
    (\<forall>j<length dist. holds_index (le_value (mix_VRF_seed X sortition_hash VRF_seed)) (dist ! j) \<longleftrightarrow> j = i)"
proof -
  let ?h = "mix_VRF_seed X sortition_hash VRF_seed"
  have ne: "bs \<noteq> []" "length bs \<noteq> 0" "length bs \<noteq> 1" using assms(2) by auto
  have "make_sortition_ranges bs = (Ok (map (ranged bs) [0..<length bs]) :: (op_error, _) res)"
    by (rule make_sortition_ranges_ranged [OF ne(1) assms(3,4)])
  then have dist: "dist = map (ranged bs) [0..<length bs]" using assms(5) by simp
  have v: "uval (hash_to_uint256 ?h) = le_value ?h"
    using assms(1) by (intro uval_hash_to_uint256) (simp add: digest_sizes_def mix_VRF_seed_def)
  define i where "i = (LEAST i. le_value ?h < share_end bs i)"
  have last: "le_value ?h < share_end bs (length bs - 1)" using assms(6) share_end_last [OF ne(1) assms(3)] by simp
  have hit: "le_value ?h < share_end bs i" unfolding i_def using last by (rule LeastI)
  have "i \<le> length bs - 1" unfolding i_def using last by (rule Least_le)
  then have il: "i < length bs" using ne by (cases bs) auto
  have before: "share_end bs j \<le> le_value ?h" if "j < i" for j
    using not_less_Least [of j "\<lambda>i. le_value ?h < share_end bs i"] that unfolding i_def by simp
  have "holds_index (le_value ?h) (ranged bs j) \<longleftrightarrow> j = i" for j
    using hit before by (auto simp: holds_ranged [OF assms(3)] not_less) (metis linorder_neqE_nat not_less)
  moreover have "sample_burn_distribution X dist VRF_seed sortition_hash = (Ok (Some i) :: (op_error, _) res)"
    using ne last by (simp add: sample_burn_distribution_def dist sample_ranged [OF assms(3)] v i_def)
  ultimately show ?thesis using il by (auto simp: dist)
qed

lemma le_value_replicate: "255 * le_value (replicate n b) + unat b = unat b * 256 ^ n"
  by (induction n) (simp_all add: algebra_simps)

lemma le_value_max: "le_value (replicate n 255) = 256 ^ n - 1"
  using le_value_replicate [of n 255] by simp

lemma example_points_burns: "burn_sum example_points = 4" "length example_points = 2"
  by (simp_all add: example_points_def burn_sum_def)

theorem sortition_winner_unique_witness:
  "\<exists>dist i. make_sortition_ranges example_points = (Ok dist :: (op_error, _) res) \<and>
     sample_burn_distribution example_externals dist VRFSeed_initial SortitionHash_initial = (Ok (Some i) :: (op_error, _) res) \<and>
     i < 2 \<and> (\<forall>j<2. holds_index (le_value (replicate 32 64)) (dist ! j) \<longleftrightarrow> j = i)"
proof -
  have X: "digest_sizes example_externals" by (simp add: digest_sizes_def example_externals_def)
  have h: "mix_VRF_seed example_externals SortitionHash_initial VRFSeed_initial = replicate 32 64"
    by (simp add: mix_VRF_seed_def example_externals_def SortitionHash_initial_def VRFSeed_initial_def)
  have v: "le_value (mix_VRF_seed example_externals SortitionHash_initial VRFSeed_initial) < 2 ^ 256 - 1"
  proof -
    define M where "M = (2 :: nat) ^ 256 - 1"
    have "(256 :: nat) ^ 32 = M + 1" "0 < M" by (simp_all add: M_def)
    then have m: "255 * le_value (replicate 32 64) + 64 = 64 * (M + 1)" "0 < M" using le_value_replicate [of 32 64] by simp_all
    have "v < M" if "255 * v + 64 = 64 * (M + 1)" "0 < M" for v :: nat
    proof -
      have "255 * v = 64 * M" using that by simp
      then have "255 * v < 255 * M" using that(2) by simp
      then show ?thesis by simp
    qed
    from this [OF m] show ?thesis unfolding h M_def [symmetric] .
  qed
  have d: "make_sortition_ranges example_points = (Ok (map (ranged example_points) [0..<length example_points]) :: (op_error, _) res)"
    by (rule make_sortition_ranges_ranged) (simp_all add: example_points_burns, simp add: example_points_def)
  have l: "2 \<le> length example_points" "0 < burn_sum example_points" "burn_sum example_points < 2 ^ 64 - 1"
    by (simp_all add: example_points_burns)
  from sortition_winner_unique [OF X l d v] d show ?thesis unfolding h by (auto simp: example_points_burns)
qed

text \<open>C12. The panic that "should never happen" can: the last range ends at \<open>2 ^ 256 - 1\<close> and excludes its
  end, so when the mixed sortition hash is 32 bytes of \<^verbatim>\<open>0xff\<close> no range holds it and
  \<^verbatim>\<open>sample_burn_distribution\<close> panics, whatever the two or more candidates are.\<close>

theorem sample_panics_at_max:
  assumes "2 \<le> length bs" and "0 < burn_sum bs" and "burn_sum bs < 2 ^ 64 - 1"
    and "make_sortition_ranges bs = (Ok dist :: (op_error, _) res)"
    and "mix_VRF_seed X sortition_hash VRF_seed = replicate 32 255"
  shows "sample_burn_distribution X dist VRF_seed sortition_hash = (Panic :: (op_error, _) res)"
proof -
  have ne: "bs \<noteq> []" "length bs \<noteq> 0" "length bs \<noteq> 1" using assms(1) by auto
  have "make_sortition_ranges bs = (Ok (map (ranged bs) [0..<length bs]) :: (op_error, _) res)"
    by (rule make_sortition_ranges_ranged [OF ne(1) assms(2,3)])
  then have dist: "dist = map (ranged bs) [0..<length bs]" using assms(4) by simp
  have "uval (hash_to_uint256 (replicate 32 255)) = 256 ^ 32 - 1"
    by (subst uval_hash_to_uint256) (simp_all only: length_replicate le_value_max)
  moreover have "(256 :: nat) ^ 32 - 1 = 2 ^ 256 - 1" by simp
  ultimately show ?thesis
    using ne share_end_last [OF ne(1) assms(2)]
    by (simp add: sample_burn_distribution_def dist sample_ranged [OF assms(2)] assms(5))
qed

theorem sample_panics_at_max_witness:
  "\<exists>dist. make_sortition_ranges example_points = (Ok dist :: (op_error, _) res) \<and>
     sample_burn_distribution (example_externals\<lparr>sha256 := (\<lambda>_. replicate 32 255)\<rparr>) dist VRFSeed_initial SortitionHash_initial =
       (Panic :: (op_error, _) res)"
proof -
  have d: "make_sortition_ranges example_points = (Ok (map (ranged example_points) [0..<length example_points]) :: (op_error, _) res)"
    by (rule make_sortition_ranges_ranged) (simp_all add: example_points_burns, simp add: example_points_def)
  have l: "2 \<le> length example_points" "0 < burn_sum example_points" "burn_sum example_points < 2 ^ 64 - 1"
    by (simp_all add: example_points_burns)
  have h: "mix_VRF_seed (example_externals\<lparr>sha256 := (\<lambda>_. replicate 32 255)\<rparr>) SortitionHash_initial VRFSeed_initial = replicate 32 255"
    by (simp add: mix_VRF_seed_def)
  from sample_panics_at_max [OF l d h] d show ?thesis by blast
qed

text \<open>C13. The consensus hashes mixed into the next one: for a height below \<^verbatim>\<open>BLOCK_HEIGHT_MAX\<close> that is not
  before the first block, \<^verbatim>\<open>get_prev_consensus_hashes\<close> ends without a panic and returns exactly those at
  distance \<open>2 ^ i - 1\<close>, for every \<open>i\<close> that stays in the chain, most recent first, a missing one
  replaced by the empty hash.\<close>

theorem prev_consensus_hashes_geometric:
  assumes "unat block_height < 2 ^ 63 - 1" and "first_block_height \<le> block_height"
    and "\<forall>h. consensus_at h = (Ok (at h) :: (db_error, _) res)"
  shows "\<exists>k. (\<forall>i<k. 2 ^ i - 1 \<le> unat block_height - unat first_block_height) \<and>
    unat block_height - unat first_block_height < 2 ^ k - 1 \<and>
    get_prev_consensus_hashes consensus_at block_height first_block_height =
      Ok (map (\<lambda>i. case at (of_nat (unat block_height - (2 ^ i - 1))) of Some c \<Rightarrow> c | None \<Rightarrow> ConsensusHash_empty) [0..<k])"
proof -
  obtain k where k: "\<forall>i<k. 2 ^ i - 1 \<le> unat block_height - unat first_block_height"
    "unat block_height - unat first_block_height < 2 ^ k - 1" using bit_length_exists by blast
  have "k \<noteq> 64"
  proof
    assume "k = 64"
    then have "63 < k" by simp
    with k(1) have "2 ^ 63 - 1 \<le> unat block_height - unat first_block_height" by blast
    then show False using assms(1) by linarith
  qed
  moreover have "(prev_consensus_loop consensus_at block_height first_block_height 0 [] :: (db_error, _) res) =
      Ok (k, [] @ map (\<lambda>i. case at (prev_height block_height i) of Some c \<Rightarrow> c | None \<Rightarrow> ConsensusHash_empty) [0..<k])"
    using k by (intro prev_consensus_loop_eq [OF assms(1,2)]) (simp_all add: assms(3))
  ultimately show ?thesis
    using k by (intro exI [of _ k]) (simp add: get_prev_consensus_hashes_def prev_height_def)
qed

theorem prev_consensus_hashes_geometric_witness:
  "\<exists>k. 5 < 2 ^ k - (1 :: nat) \<and> (\<forall>i<k. 2 ^ i - 1 \<le> (5 :: nat)) \<and>
     get_prev_consensus_hashes (\<lambda>h. Ok (Some [ucast h]) :: (db_error, _) res) 105 100 =
       Ok (map (\<lambda>i. [ucast (of_nat (105 - (2 ^ i - 1)) :: u64)]) [0..<k])"
  using prev_consensus_hashes_geometric [of 105 100 "\<lambda>h. Ok (Some [ucast h])" "\<lambda>h. Some [ucast h]"] by auto

text \<open>C14. A PoX identifier survives its text form, which is the only text that parses to it, and
  \<^verbatim>\<open>bit_slice\<close> packs it faithfully: the count is the number of bits that exist in the slice, bit \<open>j\<close> of
  the bytes is bit \<open>start + j\<close> of the identifier for every counted \<open>j\<close>, and every other bit is zero.\<close>

theorem pox_id_encodings:
  "pox_from_str (pox_to_string p) = Ok p \<and> (\<forall>s. pox_from_str s = Ok p \<longrightarrow> s = pox_to_string p) \<and>
   (\<forall>start len. snd (bit_slice p start len) = min len (length p - start) \<and>
     (\<forall>j. bit_at (fst (bit_slice p start len)) j \<longleftrightarrow> j < min len (length p - start) \<and> p ! (start + j)))"
proof (intro conjI allI impI)
  fix s assume "pox_from_str s = Ok p"
  then show "s = pox_to_string p" using pox_string_canonical by metis
next
  fix start len j
  have zero: "bit_at [0] j \<longleftrightarrow> j < 0 \<and> p ! (start + j)" for j
    using bit_at_pad [of "[]"] by (simp add: bit_at_def fun_eq_iff)
  have "snd (bit_slice p start len) = 0 + min len (length p - start - 0) \<and>
    (\<forall>j. bit_at (fst (bit_slice p start len)) j \<longleftrightarrow> j < 0 + min len (length p - start - 0) \<and> p ! (start + j))"
    by (rule bit_slice_loop_eq [OF _ zero]) (simp_all add: bit_slice_def)
  then show "snd (bit_slice p start len) = min len (length p - start)"
    "bit_at (fst (bit_slice p start len)) j \<longleftrightarrow> j < min len (length p - start) \<and> p ! (start + j)" by simp_all
qed (rule pox_string_round_trip)

theorem pox_id_encodings_witness:
  "pox_from_str (pox_to_string [True, False, True]) = Ok [True, False, True] \<and>
   snd (bit_slice [True, False, True] 1 5) = 2 \<and> \<not> bit_at (fst (bit_slice [True, False, True] 1 5)) 0 \<and>
   bit_at (fst (bit_slice [True, False, True] 1 5)) 1"
  using pox_id_encodings [of "[True, False, True]"] by (simp add: numeral_eq_Suc)

end
