(* ===== verification/IndexDB.thy ===== *)
theory IndexDB
  imports Marf BurnOps
begin

text \<open>
  The fork-aware key/value store of \<^verbatim>\<open>src/util/db.rs\<close> that the sortition database is built on: the
  read and write operations of \<^verbatim>\<open>IndexDBTx\<close> over the fork index. A value is kept as it is: the code
  keeps its text in a table under its hash and the hash in the trie. The locale \<open>fork_index\<close> is the
  contract the sortition database relies on, interpreted here on the model of the code.
\<close>

section \<open>Operations\<close>

record ('k, 'v) IndexDBTx =
  index_tx :: "('k, 'v) MarfTransaction"
  block_linkage :: "(bytes \<times> bytes) option"

primrec index_err :: "(marf_error, 'a) res \<Rightarrow> (db_error, 'a) res" where
  "index_err (Ok x) = Ok x"
| "index_err (Err e) = Err IndexError"
| "index_err Panic = Panic"

definition get_indexed :: "('k, 'v) IndexDBTx \<Rightarrow> bytes \<Rightarrow> 'k \<Rightarrow> (db_error, 'v option) res" where
  "get_indexed tx header_hash key =
     (case get_by_key (storage (index_tx tx)) header_hash (IndexKey key) of
        Ok (Some (OfValue v)) \<Rightarrow> Ok (Some v)
      | Ok (Some _) \<Rightarrow> Panic
      | Ok None \<Rightarrow> Ok None
      | Err MarfNotFoundError \<Rightarrow> Ok None
      | Err _ \<Rightarrow> Err Corruption
      | Panic \<Rightarrow> Panic)"

definition get_ancestor_block_hash :: "('k, 'v) IndexDBTx \<Rightarrow> u64 \<Rightarrow> bytes \<Rightarrow> (db_error, bytes option) res" where
  "get_ancestor_block_hash tx block_height tip_block_hash =
     (if unat block_height < 2 ^ 32
      then index_err (get_block_at_height (storage (index_tx tx)) (ucast block_height) tip_block_hash)
      else Panic)"

definition get_ancestor_block_height :: "('k, 'v) IndexDBTx \<Rightarrow> bytes \<Rightarrow> bytes \<Rightarrow> (db_error, u64 option) res" where
  "get_ancestor_block_height tx ancestor_block_hash tip_block_hash =
     and_then (index_err (get_block_height (storage (index_tx tx)) ancestor_block_hash tip_block_hash))
       (\<lambda>h. Ok (map_option ucast h))"

definition put_indexed_begin :: "('k, 'v) IndexDBTx \<Rightarrow> bytes \<Rightarrow> bytes \<Rightarrow> (db_error, ('k, 'v) IndexDBTx) res" where
  "put_indexed_begin tx parent_header_hash header_hash =
     (case block_linkage tx of
        None \<Rightarrow> and_then (index_err (marf_begin (index_tx tx) parent_header_hash header_hash))
          (\<lambda>m. Ok (tx\<lparr>index_tx := m, block_linkage := Some (parent_header_hash, header_hash)\<rparr>))
      | Some _ \<Rightarrow> Panic)"

text \<open>The Merkle root of the trie that was written is a parameter \<open>root\<close> of the model.\<close>

definition put_indexed_all :: "(('k, 'v) TrieStorage \<Rightarrow> bytes) \<Rightarrow> ('k, 'v) IndexDBTx \<Rightarrow> 'k list \<Rightarrow> 'v list
    \<Rightarrow> (db_error, bytes \<times> ('k, 'v) IndexDBTx) res" where
  "put_indexed_all root tx ks vs =
     (if length ks \<noteq> length vs then Panic
      else if block_linkage tx = None then Panic
      else and_then (index_err (insert_batch (index_tx tx) (map IndexKey ks) (map OfValue vs)))
        (\<lambda>m. Ok (root (storage m), tx\<lparr>index_tx := m\<rparr>)))"

definition index_commit :: "('k, 'v) IndexDBTx \<Rightarrow> (db_error, ('k, 'v) IndexDBTx) res" where
  "index_commit tx =
     and_then (index_err (marf_commit (index_tx tx))) (\<lambda>m. Ok \<lparr>index_tx = m, block_linkage = None\<rparr>)"

section \<open>The contract\<close>

text \<open>A good index with no write in progress; the chain of a stored block; its value of a key; and
  the whole write of one block: begin on a parent, put the keys, commit.\<close>

definition index_ready :: "('k, 'v) IndexDBTx \<Rightarrow> bool" where
  "index_ready tx \<longleftrightarrow> marf_inv (index_tx tx) \<and> open_chain_tip (index_tx tx) = None \<and> block_linkage tx = None \<and>
     (\<forall>b t k v. read_trie (storage (index_tx tx)) b = Some t \<longrightarrow> tr_leaves t (IndexKey k) = Some v \<longrightarrow> (\<exists>x. v = OfValue x))"

definition index_chain :: "('k, 'v) IndexDBTx \<Rightarrow> bytes \<Rightarrow> bytes list \<Rightarrow> bool" where
  "index_chain tx b ps = ancestry (read_trie (storage (index_tx tx))) b ps"

definition index_put :: "('k, 'v) IndexDBTx \<Rightarrow> bytes \<Rightarrow> bytes \<Rightarrow> 'k list \<Rightarrow> 'v list \<Rightarrow> (db_error, ('k, 'v) IndexDBTx) res" where
  "index_put tx parent n ks vs =
     and_then (put_indexed_begin tx parent n) (\<lambda>tx.
     and_then (put_indexed_all (\<lambda>_. []) tx ks vs) (\<lambda>(_, tx). index_commit tx))"

locale fork_index =
  fixes ready :: "'s \<Rightarrow> bool"
    and chain :: "'s \<Rightarrow> bytes \<Rightarrow> bytes list \<Rightarrow> bool"
    and get :: "'s \<Rightarrow> bytes \<Rightarrow> 'k \<Rightarrow> (db_error, 'v option) res"
    and ancestor :: "'s \<Rightarrow> u64 \<Rightarrow> bytes \<Rightarrow> (db_error, bytes option) res"
    and put :: "'s \<Rightarrow> bytes \<Rightarrow> bytes \<Rightarrow> 'k list \<Rightarrow> 'v list \<Rightarrow> (db_error, 's) res"
  assumes put_ready: "ready s \<Longrightarrow> n \<noteq> SENTINEL_ARRAY \<Longrightarrow> put s p n ks vs = Ok s' \<Longrightarrow> ready s'"
    and put_chain: "ready s \<Longrightarrow> n \<noteq> SENTINEL_ARRAY \<Longrightarrow> put s p n ks vs = Ok s' \<Longrightarrow> chain s p ps \<Longrightarrow> chain s' n (ps @ [n])"
    and put_chain_first: "ready s \<Longrightarrow> n \<noteq> SENTINEL_ARRAY \<Longrightarrow> put s SENTINEL_ARRAY n ks vs = Ok s' \<Longrightarrow> chain s' n [n]"
    and put_keeps_chain: "ready s \<Longrightarrow> n \<noteq> SENTINEL_ARRAY \<Longrightarrow> put s p n ks vs = Ok s' \<Longrightarrow> chain s b ps \<Longrightarrow> b \<noteq> n \<and> chain s' b ps"
    and put_get: "ready s \<Longrightarrow> n \<noteq> SENTINEL_ARRAY \<Longrightarrow> put s p n ks vs = Ok s' \<Longrightarrow>
      get s' n k = (case map_of (rev (zip ks vs)) k of Some v \<Rightarrow> Ok (Some v) | None \<Rightarrow> get s p k)"
    and put_keeps_get: "ready s \<Longrightarrow> n \<noteq> SENTINEL_ARRAY \<Longrightarrow> put s p n ks vs = Ok s' \<Longrightarrow> b \<noteq> n \<Longrightarrow> get s' b k = get s b k"
    and get_total: "ready s \<Longrightarrow> \<exists>v. get s b k = Ok v"
    and ancestor_nth: "ready s \<Longrightarrow> chain s b ps \<Longrightarrow> unat h < 2 ^ 32 \<Longrightarrow>
      ancestor s h b = Ok (if unat h < length ps then Some (ps ! unat h) else None)"
begin

text \<open>Appending blocks one on top of the other: what a block wrote is read by every later block of
  the fork, until one of them writes the key again.\<close>

primrec put_all :: "'s \<Rightarrow> bytes \<Rightarrow> (bytes \<times> 'k list \<times> 'v list) list \<Rightarrow> (db_error, 's \<times> bytes) res" where
  "put_all s tip [] = Ok (s, tip)"
| "put_all s tip (x # xs) = and_then (put s tip (fst x) (fst (snd x)) (snd (snd x))) (\<lambda>s. put_all s (fst x) xs)"

lemma put_all_get:
  assumes "ready s" and "put_all s tip xs = Ok (s', tip')" and "SENTINEL_ARRAY \<notin> fst ` set xs"
    and "\<And>x. x \<in> set xs \<Longrightarrow> k \<notin> set (fst (snd x))"
  shows "ready s' \<and> get s' tip' k = get s tip k"
  using assms
proof (induction xs arbitrary: s tip)
  case (Cons x xs)
  from Cons.prems(2) obtain s1 where s1: "put s tip (fst x) (fst (snd x)) (snd (snd x)) = Ok s1"
    "put_all s1 (fst x) xs = Ok (s', tip')" by (auto simp: and_then_Ok_iff)
  have x: "fst x \<noteq> SENTINEL_ARRAY" "k \<notin> set (fst (snd x))" using Cons.prems by auto
  then have "map_of (rev (zip (fst (snd x)) (snd (snd x)))) k = None"
    by (auto simp: map_of_eq_None_iff dest: set_zip_leftD)
  then have "get s1 (fst x) k = get s tip k" using put_get [OF Cons.prems(1) x(1) s1(1)] by simp
  moreover have "ready s1" using put_ready [OF Cons.prems(1) x(1) s1(1)] .
  ultimately show ?case using Cons.IH [OF _ s1(2)] Cons.prems by auto
qed simp

lemma put_all_chain:
  assumes "ready s" and "put_all s tip xs = Ok (s', tip')" and "SENTINEL_ARRAY \<notin> fst ` set xs" and "chain s tip ps"
  shows "chain s' tip' (ps @ map fst xs)"
  using assms
proof (induction xs arbitrary: s tip ps)
  case (Cons x xs)
  from Cons.prems(2) obtain s1 where s1: "put s tip (fst x) (fst (snd x)) (snd (snd x)) = Ok s1"
    "put_all s1 (fst x) xs = Ok (s', tip')" by (auto simp: and_then_Ok_iff)
  have x: "fst x \<noteq> SENTINEL_ARRAY" using Cons.prems by auto
  from put_chain [OF Cons.prems(1) x s1(1) Cons.prems(4)] put_ready [OF Cons.prems(1) x s1(1)]
  show ?case using Cons.IH [OF _ s1(2), of "ps @ [fst x]"] Cons.prems by auto
qed simp

end

section \<open>The code meets the contract\<close>

definition index_view :: "('k, 'v) IndexDBTx \<Rightarrow> bytes \<Rightarrow> 'k \<Rightarrow> 'v option" where
  "index_view tx b k =
     (case read_trie (storage (index_tx tx)) b of
        None \<Rightarrow> None
      | Some t \<Rightarrow> (case tr_leaves t (IndexKey k) of Some (OfValue v) \<Rightarrow> Some v | _ \<Rightarrow> None))"

lemma get_by_key_sentinel:
  assumes "marf_inv tx"
  shows "get_by_key (storage tx) b k = Ok (case read_trie (storage tx) b of None \<Rightarrow> None | Some t \<Rightarrow> tr_leaves t k)"
proof (cases "b = SENTINEL_ARRAY")
  case True
  have none: "read_trie (storage tx) SENTINEL_ARRAY = None"
    using assms unfolding marf_inv_def forest_def by (metis option.exhaust)
  have "read_trie ((storage tx)\<lparr>cur_block := c\<rparr>) = read_trie (storage tx)" for c
    by (auto simp: read_trie_def fun_eq_iff split: option.split)
  moreover have "open_block (storage tx) (cur_block (storage tx)) = Ok (storage tx)"
    using inv_restore [OF assms]
    by (auto simp: open_block_def read_trie_def has_block_def cur_block_id split: option.splits prod.splits if_splits)
  ultimately show ?thesis
    using True none by (simp add: get_by_key_def get_path_def open_block_def Let_def)
next
  case False
  then show ?thesis using get_by_key_eq [OF inv_restore [OF assms]] by simp
qed

lemma get_indexed_view: "index_ready tx \<Longrightarrow> get_indexed tx b k = Ok (index_view tx b k)"
proof -
  assume ready: "index_ready tx"
  then have inv: "marf_inv (index_tx tx)" by (simp add: index_ready_def)
  show ?thesis
  proof (cases "read_trie (storage (index_tx tx)) b")
    case None
    then show ?thesis by (simp add: get_indexed_def index_view_def get_by_key_sentinel [OF inv])
  next
    case (Some t)
    show ?thesis
    proof (cases "tr_leaves t (IndexKey k)")
      case None
      with Some show ?thesis by (simp add: get_indexed_def index_view_def get_by_key_sentinel [OF inv])
    next
      case (Some v)
      with \<open>read_trie (storage (index_tx tx)) b = Some t\<close> ready obtain x where "v = OfValue x"
        unfolding index_ready_def by blast
      with Some \<open>read_trie (storage (index_tx tx)) b = Some t\<close> show ?thesis
        by (simp add: get_indexed_def index_view_def get_by_key_sentinel [OF inv])
    qed
  qed
qed

lemma begin_result:
  assumes inv: "marf_inv tx" and ok: "marf_begin tx p n = Ok tx'" and n: "n \<noteq> SENTINEL_ARRAY"
  shows "\<exists>t h. open_chain_tip tx' = Some (n, h) \<and> read_trie (storage tx) n = None \<and>
    read_trie (storage tx') = (read_trie (storage tx))(n \<mapsto> t) \<and> tr_parent t = p \<and>
    (p = SENTINEL_ARRAY \<or> read_trie (storage tx) p \<noteq> None) \<and>
    (\<forall>k. tr_leaves t (IndexKey k) = parent_view (storage tx) p k)"
proof -
  note o = begin_tip [OF inv_shape [OF inv] ok]
  have rd: "read_trie (storage tx) = map_of (marf_data (storage tx))"
    using inv o(1) by (simp add: marf_inv_def read_trie_None)
  show ?thesis
  proof (cases "p = SENTINEL_ARRAY")
    case True
    with ok begin_first [OF inv_shape [OF inv] o(1,2) n] o(2) show ?thesis
      by (auto simp: read_trie_Some rd parent_view_def has_block_def)
  next
    case False
    with o(3) obtain t h h' where t: "map_of (marf_data (storage tx)) p = Some t"
      "tr_leaves t OwnBlockHeight = Some (OfHeight h)" "checked_add h 1 = Some h'" by auto
    from ok begin_child [OF inv_shape [OF inv] o(1,2) n False t] o(2) t(1) False show ?thesis
      by (auto simp: read_trie_Some rd parent_view_def has_block_def)
  qed
qed

lemma zip_IndexKey:
  "length ks = length vs \<Longrightarrow>
    map_of (rev (zip (map IndexKey ks) (map OfValue vs))) (IndexKey k) = map_option OfValue (map_of (rev (zip ks vs)) k)"
proof -
  have "map_of (map (\<lambda>(k, v). (IndexKey k, OfValue v)) xs) (IndexKey k) = map_option OfValue (map_of xs k)" for xs :: "('a \<times> 'b) list"
    by (induction xs) auto
  moreover have "rev (zip (map IndexKey ks) (map OfValue vs)) = map (\<lambda>(k, v). (IndexKey k, OfValue v)) (rev (zip ks vs))"
    by (simp add: zip_map_map rev_map)
  ultimately show ?thesis by simp
qed

lemma index_put_result:
  assumes ready: "index_ready tx" and n: "n \<noteq> SENTINEL_ARRAY" and ok: "index_put tx p n ks vs = Ok tx'"
  shows "\<exists>t. read_trie (storage (index_tx tx)) n = None \<and>
    read_trie (storage (index_tx tx')) = (read_trie (storage (index_tx tx)))(n \<mapsto> t) \<and> tr_parent t = p \<and>
    (\<forall>k. tr_leaves t (IndexKey k) = (case map_of (rev (zip ks vs)) k of Some v \<Rightarrow> Some (OfValue v) | None \<Rightarrow> parent_view (storage (index_tx tx)) p k)) \<and>
    marf_inv (index_tx tx') \<and> open_chain_tip (index_tx tx') = None \<and> block_linkage tx' = None"
proof -
  have inv: "marf_inv (index_tx tx)" using ready by (simp add: index_ready_def)
  have iok: "index_err r = Ok x \<longleftrightarrow> r = Ok x" for r :: "(marf_error, 'c) res" and x by (cases r) auto
  from ok obtain m1 m2 m3 where m: "marf_begin (index_tx tx) p n = Ok m1"
    "insert_batch m1 (map IndexKey ks) (map OfValue vs) = Ok m2" "marf_commit m2 = Ok m3" "length ks = length vs"
    and tx': "tx' = \<lparr>index_tx = m3, block_linkage = None\<rparr>"
    by (auto simp: index_put_def put_indexed_begin_def put_indexed_all_def index_commit_def and_then_Ok_iff iok
        split: option.splits if_splits)
  obtain t h where t: "open_chain_tip m1 = Some (n, h)" "read_trie (storage (index_tx tx)) n = None"
    "read_trie (storage m1) = (read_trie (storage (index_tx tx)))(n \<mapsto> t)" "tr_parent t = p"
    "\<And>k. tr_leaves t (IndexKey k) = parent_view (storage (index_tx tx)) p k"
    using begin_result [OF inv m(1) n] by blast
  have inv1: "marf_inv m1" by (rule inv_begin [OF inv m(1) n])
  have inv2: "marf_inv m2" by (rule inv_insert [OF inv1 m(2)])
  have "read_trie (storage m2) = (read_trie (storage m1))(n \<mapsto> t\<lparr>tr_leaves := tr_leaves t ++ map_of (rev (zip (map IndexKey ks) (map OfValue vs)))\<rparr>)"
    using insert_grows [OF inv1 t(1), of t "map IndexKey ks" "map OfValue vs"] m t by auto
  moreover have "read_trie (storage m3) = read_trie (storage m2)" "marf_inv m3" using inv_commit [OF inv2 m(3)] by auto
  moreover have "open_chain_tip m3 = None" using commit_grows [OF inv2] m(3) by auto
  ultimately show ?thesis
    using t(2-5)
    by (intro exI [of _ "t\<lparr>tr_leaves := tr_leaves t ++ map_of (rev (zip (map IndexKey ks) (map OfValue vs)))\<rparr>"])
      (simp add: tx' zip_IndexKey [OF m(4)] map_add_def split: option.split)
qed

lemma index_put_view:
  assumes ready: "index_ready tx" and n: "n \<noteq> SENTINEL_ARRAY" and ok: "index_put tx p n ks vs = Ok tx'"
  shows "index_view tx' b k =
      (if b = n then (case map_of (rev (zip ks vs)) k of Some v \<Rightarrow> Some v | None \<Rightarrow> index_view tx p k) else index_view tx b k)"
    and "index_ready tx'"
proof -
  let ?rd = "read_trie (storage (index_tx tx))"
  have sent: "?rd SENTINEL_ARRAY = None"
    using ready unfolding index_ready_def marf_inv_def forest_def by (metis option.exhaust)
  from index_put_result [OF ready n ok] obtain t where t: "read_trie (storage (index_tx tx')) = ?rd(n \<mapsto> t)"
    "\<And>k. tr_leaves t (IndexKey k) = (case map_of (rev (zip ks vs)) k of Some v \<Rightarrow> Some (OfValue v) | None \<Rightarrow> parent_view (storage (index_tx tx)) p k)"
    "marf_inv (index_tx tx')" "open_chain_tip (index_tx tx') = None" "block_linkage tx' = None" by blast
  have pv: "parent_view (storage (index_tx tx)) p k = Option.bind (?rd p) (\<lambda>t. tr_leaves t (IndexKey k))" for k
    using sent by (simp add: parent_view_def)
  show "index_view tx' b k = (if b = n then (case map_of (rev (zip ks vs)) k of Some v \<Rightarrow> Some v | None \<Rightarrow> index_view tx p k) else index_view tx b k)"
    by (simp add: index_view_def t pv split: option.split bind_split)
  show "index_ready tx'"
    using ready t(3-5) unfolding index_ready_def t(1)
    by (auto simp: t(2) pv split: option.splits if_splits bind_splits)
qed

interpretation marf_index: fork_index index_ready index_chain get_indexed get_ancestor_block_hash index_put
proof
  fix s s' :: "('a, 'b) IndexDBTx" and n p b ks vs ps k and h :: u64
  assume ready: "index_ready s"
  then have inv: "marf_inv (index_tx s)" by (simp add: index_ready_def)
  show "\<exists>v. get_indexed s b k = Ok v" using get_indexed_view [OF ready] by simp
  show "get_ancestor_block_hash s h b = Ok (if unat h < length ps then Some (ps ! unat h) else None)"
    if "index_chain s b ps" "unat h < 2 ^ 32"
  proof -
    have "unat (ucast h :: u32) = unat h" using that(2) by (simp add: unsigned_ucast_eq take_bit_eq_mod)
    then show ?thesis
      using that inv_get_block_at_height [OF inv, of b ps "ucast h"] by (simp add: get_ancestor_block_hash_def index_chain_def)
  qed
  assume n: "n \<noteq> SENTINEL_ARRAY" and ok: "index_put s p n ks vs = Ok s'"
  note view = index_put_view [OF ready n ok]
  show "index_ready s'" by (rule view)
  from index_put_result [OF ready n ok] obtain t where t: "read_trie (storage (index_tx s)) n = None"
    "read_trie (storage (index_tx s')) = (read_trie (storage (index_tx s)))(n \<mapsto> t)" "tr_parent t = p" by blast
  have keep: "index_chain s' b ps" if "index_chain s b ps" for b ps
    using that unfolding index_chain_def by (rule anc_mono) (use t in auto)
  show "b \<noteq> n \<and> index_chain s' b ps" if "index_chain s b ps"
    using keep that t(1) anc_stored anc_last unfolding index_chain_def by (metis last_in_set)
  show "index_chain s' n (ps @ [n])" if "index_chain s p ps"
    using keep that inv_trie [OF inv, of p ps] t unfolding index_chain_def by (auto intro!: anc_child)
  show "get_indexed s' n k = (case map_of (rev (zip ks vs)) k of Some v \<Rightarrow> Ok (Some v) | None \<Rightarrow> get_indexed s p k)"
    by (simp add: get_indexed_view [OF ready] get_indexed_view [OF view(2)] view(1) split: option.split)
  show "get_indexed s' b k = get_indexed s b k" if "b \<noteq> n"
    using that by (simp add: get_indexed_view [OF ready] get_indexed_view [OF view(2)] view(1))
next
  fix s s' :: "('a, 'b) IndexDBTx" and n ks vs
  assume "index_ready s" "n \<noteq> SENTINEL_ARRAY" "index_put s SENTINEL_ARRAY n ks vs = Ok s'"
  from index_put_result [OF this] show "index_chain s' n [n]" by (auto simp: index_chain_def intro!: anc_first)
qed

lemma index_chain_stored: "index_chain tx b ps \<Longrightarrow> read_trie (storage (index_tx tx)) b \<noteq> None"
  unfolding index_chain_def using anc_last anc_stored by (metis last_in_set)

lemma index_chain_ok:
  assumes "index_ready tx" and "index_chain tx b ps"
  shows "distinct ps \<and> length ps \<le> 2 ^ 32"
proof -
  from index_chain_stored [OF assms(2)] obtain t where "read_trie (storage (index_tx tx)) b = Some t" by blast
  with assms(1) obtain qs where "ancestry (read_trie (storage (index_tx tx))) b qs" "index_ok t qs"
    unfolding index_ready_def marf_inv_def forest_def by blast
  with assms(2) show ?thesis unfolding index_chain_def using anc_det by (auto simp: index_ok_def)
qed

lemma index_put_succeeds:
  assumes ready: "index_ready tx" and n: "n \<noteq> SENTINEL_ARRAY" "\<And>ps. \<not> index_chain tx n ps"
    and p: "p = SENTINEL_ARRAY \<or> index_chain tx p ps \<and> length ps < 2 ^ 32" and len: "length ks = length vs"
  shows "\<exists>tx'. index_put tx p n ks vs = Ok tx'"
proof -
  let ?m = "index_tx tx"
  have inv: "marf_inv ?m" "open_chain_tip ?m = None" "block_linkage tx = None" using ready by (auto simp: index_ready_def)
  have "read_trie (storage ?m) n = None"
    using inv(1) n(2) unfolding marf_inv_def forest_def index_chain_def by (metis option.exhaust)
  from begin_grows [OF inv(1,2) this n(1) p [unfolded index_chain_def]] obtain m1 t h where
    m1: "marf_begin ?m p n = Ok m1" "open_chain_tip m1 = Some (n, h)" "read_trie (storage m1) = (read_trie (storage ?m))(n \<mapsto> t)"
    by blast
  note inv1 = inv_begin [OF inv(1) m1(1) n(1)]
  obtain m2 where m2: "insert_batch m1 (map IndexKey ks) (map OfValue vs) = Ok m2"
    using insert_grows [OF inv1 m1(2), of t "map IndexKey ks" "map OfValue vs"] m1(3) len by auto
  obtain m3 where "marf_commit m2 = Ok m3" using commit_grows [OF inv_insert [OF inv1 m2]] by blast
  with m1 m2 inv len show ?thesis
    by (simp add: index_put_def put_indexed_begin_def put_indexed_all_def index_commit_def)
qed

section \<open>Properties\<close>


definition example_index :: "(nat, nat) IndexDBTx" where
  "example_index = \<lparr>index_tx = empty_marf, block_linkage = None\<rparr>"

lemma example_index_ready: "index_ready example_index"
  using reachable_inv [OF reach_empty]
  by (auto simp: index_ready_def example_index_def empty_marf_def read_trie_def)


end
