(* ===== verification/SortitionDB.thy ===== *)
theory SortitionDB
  imports Snapshots IndexDB
begin

text \<open>
  The sortition database of \<^verbatim>\<open>src/chainstate/burn/db/sortdb.rs\<close>: the SQL tables as lists of rows in the
  order they were inserted, the fork index with the keys of \<^verbatim>\<open>db_keys\<close>, the queries on them, and the
  operations that append a snapshot, hand out reward addresses and accept Stacks blocks. The text
  encodings of index values (hex, decimal, address strings) are left out: a value is what was written.
\<close>

section \<open>State\<close>

definition BLOCK_HEIGHT_MAX :: u64 where
  "BLOCK_HEIGHT_MAX = push_bit 63 1 - 1"

datatype db_key =
  PoxAnchorToPrepareEnd bytes | PoxLastAnchor | PoxRewardSetSize | PoxRewardSetEntry u16 | PoxIdentifier
  | SortitionIdForBhh bytes | VrfKeyStatus bytes | StacksBlockPresent bytes | LastSortition
  | StacksBlockIndex bytes | StacksBlockMaxArrivalIndex

datatype db_value =
  VHash bytes | VEmpty | VSize u16 | VAddress StacksAddress | VPoxId PoxId | VStatus u8 | VNumber u64

record AcceptedStacksBlockHeader =
  ah_tip_consensus_hash :: bytes
  ah_consensus_hash :: bytes
  ah_block_hash :: bytes
  ah_height :: u64

record BurnchainStateTransition =
  tr_burn_dist :: "BurnSamplePoint list"
  tr_accepted_ops :: "BlockstackOperationType list"
  tr_consumed_leader_keys :: "LeaderKeyRegisterOp list"

definition transition_noop :: BurnchainStateTransition where
  "transition_noop = \<lparr>tr_burn_dist = [], tr_accepted_ops = [], tr_consumed_leader_keys = []\<rparr>"

record SortitionHandleTx =
  handle_index :: "(db_key, db_value) IndexDBTx"
  chain_tip :: bytes
  first_block_height :: u64
  snapshots :: "BlockSnapshot list"
  leader_keys :: "(LeaderKeyRegisterOp \<times> bytes) list"
  block_commits :: "(LeaderBlockCommitOp \<times> bytes) list"
  user_burn_support :: "(UserBurnSupportOp \<times> bytes) list"
  accepted_stacks_blocks :: "AcceptedStacksBlockHeader list"
  snapshot_transition_ops :: "(bytes \<times> BlockstackOperationType list \<times> LeaderKeyRegisterOp list) list"

datatype PoxAnchorBlockStatus =
  SelectedAndKnown bytes "StacksAddress list" | SelectedAndUnknown bytes | NotSelected

record RewardSetInfo =
  anchor_block :: bytes
  recipient :: "StacksAddress \<times> u16"

primrec selected_anchor_block :: "PoxAnchorBlockStatus \<Rightarrow> bytes option" where
  "selected_anchor_block (SelectedAndKnown block _) = Some block"
| "selected_anchor_block (SelectedAndUnknown block) = Some block"
| "selected_anchor_block NotSelected = None"

primrec is_reward_info_known :: "PoxAnchorBlockStatus \<Rightarrow> bool" where
  "is_reward_info_known (SelectedAndKnown _ _) = True"
| "is_reward_info_known (SelectedAndUnknown _) = False"
| "is_reward_info_known NotSelected = True"

primrec known_selected_anchor_block :: "PoxAnchorBlockStatus \<Rightarrow> StacksAddress list option" where
  "known_selected_anchor_block (SelectedAndKnown _ reward_set) = Some reward_set"
| "known_selected_anchor_block (SelectedAndUnknown _) = None"
| "known_selected_anchor_block NotSelected = None"

section \<open>Queries\<close>

definition assert_that :: "bool \<Rightarrow> ('e, unit) res" where
  "assert_that b = (if b then Ok () else Panic)"

definition u64_to_sql :: "u64 \<Rightarrow> (db_error, u64) res" where
  "u64_to_sql x = (if x > push_bit 63 1 - 1 then Err DBParseError else Ok x)"

text \<open>\<^verbatim>\<open>query_row\<close> takes the first row; \<^verbatim>\<open>query_row_panic\<close> panics when there is a second.\<close>

definition query_row :: "'r list \<Rightarrow> (db_error, 'r option) res" where
  "query_row rows = (case rows of [] \<Rightarrow> Ok None | r # _ \<Rightarrow> Ok (Some r))"

definition query_row_panic :: "'r list \<Rightarrow> (db_error, 'r option) res" where
  "query_row_panic rows = (case rows of [] \<Rightarrow> Ok None | [r] \<Rightarrow> Ok (Some r) | _ \<Rightarrow> Panic)"

definition tx_get_indexed :: "SortitionHandleTx \<Rightarrow> bytes \<Rightarrow> db_key \<Rightarrow> (db_error, db_value option) res" where
  "tx_get_indexed tx tip key = get_indexed (handle_index tx) tip key"

definition get_adjusted_block_height :: "SortitionHandleTx \<Rightarrow> u64 \<Rightarrow> u64 option" where
  "get_adjusted_block_height tx block_height =
     (if block_height < first_block_height tx then None else Some (block_height - first_block_height tx))"

definition get_ancestor_sort_id :: "SortitionHandleTx \<Rightarrow> u64 \<Rightarrow> bytes \<Rightarrow> (db_error, bytes option) res" where
  "get_ancestor_sort_id tx block_height tip_block_hash =
     (case get_adjusted_block_height tx block_height of
        None \<Rightarrow> Ok None
      | Some adjusted_height \<Rightarrow> get_ancestor_block_hash (handle_index tx) adjusted_height tip_block_hash)"

definition db_get_block_snapshot :: "SortitionHandleTx \<Rightarrow> bytes \<Rightarrow> (db_error, BlockSnapshot option) res" where
  "db_get_block_snapshot tx sortition_id = query_row_panic (filter (\<lambda>sn. sn_sortition_id sn = sortition_id) (snapshots tx))"

definition get_block_snapshot_consensus :: "SortitionHandleTx \<Rightarrow> bytes \<Rightarrow> (db_error, BlockSnapshot option) res" where
  "get_block_snapshot_consensus tx consensus_hash =
     query_row_panic (filter (\<lambda>sn. sn_consensus_hash sn = consensus_hash) (snapshots tx))"

definition get_first_block_snapshot :: "SortitionHandleTx \<Rightarrow> (db_error, BlockSnapshot) res" where
  "get_first_block_snapshot tx =
     and_then (query_row_panic (filter (\<lambda>sn. sn_consensus_hash sn = ConsensusHash_empty) (snapshots tx))) expect"

definition get_ancestor_snapshot :: "SortitionHandleTx \<Rightarrow> u64 \<Rightarrow> bytes \<Rightarrow> (db_error, BlockSnapshot option) res" where
  "get_ancestor_snapshot tx ancestor_block_height tip_block_hash =
     and_then (assert_that (ancestor_block_height < BLOCK_HEIGHT_MAX)) (\<lambda>_.
     and_then (get_ancestor_sort_id tx ancestor_block_height tip_block_hash) (\<lambda>r.
       case r of None \<Rightarrow> Ok None | Some ancestor \<Rightarrow> db_get_block_snapshot tx ancestor))"

text \<open>Values of the index, read back with the panic of a bad encoding.\<close>

primrec as_hash :: "db_value \<Rightarrow> ('e, bytes) res" where
  "as_hash (VHash h) = Ok h"
| "as_hash VEmpty = Panic"
| "as_hash (VSize _) = Panic"
| "as_hash (VAddress _) = Panic"
| "as_hash (VPoxId _) = Panic"
| "as_hash (VStatus _) = Panic"
| "as_hash (VNumber _) = Panic"

definition tx_get_block_snapshot :: "SortitionHandleTx \<Rightarrow> bytes \<Rightarrow> bytes \<Rightarrow> (db_error, BlockSnapshot option) res" where
  "tx_get_block_snapshot tx burn_header_hash tip =
     and_then (tx_get_indexed tx tip (SortitionIdForBhh burn_header_hash)) (\<lambda>r.
       case r of
         None \<Rightarrow> Ok None
       | Some x \<Rightarrow> and_then (as_hash x) (\<lambda>sortition_id. db_get_block_snapshot tx sortition_id))"

definition get_leader_key_at :: "SortitionHandleTx \<Rightarrow> u64 \<Rightarrow> u32 \<Rightarrow> bytes \<Rightarrow> (db_error, LeaderKeyRegisterOp option) res" where
  "get_leader_key_at tx key_block_height key_vtxindex tip =
     and_then (assert_that (key_block_height < BLOCK_HEIGHT_MAX)) (\<lambda>_.
     and_then (get_ancestor_snapshot tx key_block_height tip) (\<lambda>r.
       case r of
         None \<Rightarrow> Ok None
       | Some ancestor_snapshot \<Rightarrow>
           and_then (u64_to_sql key_block_height) (\<lambda>h.
           query_row_panic (map fst (filter (\<lambda>(k, sid). sid = sn_sortition_id ancestor_snapshot \<and>
             lk_block_height k = h \<and> lk_vtxindex k = key_vtxindex) (leader_keys tx))))))"

definition get_consumed_leader_keys :: "SortitionHandleTx \<Rightarrow> BlockSnapshot \<Rightarrow> LeaderBlockCommitOp list
    \<Rightarrow> (db_error, LeaderKeyRegisterOp list) res" where
  "get_consumed_leader_keys tx parent_tip block_candidates =
     map_res (\<lambda>c. and_then (get_leader_key_at tx (ucast (bc_key_block_ptr c)) (ucast (bc_key_vtxindex c)) (sn_sortition_id parent_tip)) expect)
       block_candidates"

definition get_block_commit :: "SortitionHandleTx \<Rightarrow> bytes \<Rightarrow> bytes \<Rightarrow> (db_error, LeaderBlockCommitOp option) res" where
  "get_block_commit tx txid sortition_id =
     query_row (map fst (filter (\<lambda>(c, sid). bc_txid c = txid \<and> sid = sortition_id) (block_commits tx)))"

definition get_block_commit_by_txid :: "SortitionHandleTx \<Rightarrow> bytes \<Rightarrow> (db_error, LeaderBlockCommitOp option) res" where
  "get_block_commit_by_txid tx txid = query_row (map fst (filter (\<lambda>(c, sid). bc_txid c = txid) (block_commits tx)))"

definition get_consensus_at :: "SortitionHandleTx \<Rightarrow> u64 \<Rightarrow> (db_error, bytes option) res" where
  "get_consensus_at tx block_height =
     and_then (assert_that (block_height < BLOCK_HEIGHT_MAX)) (\<lambda>_.
     and_then (get_ancestor_snapshot tx block_height (chain_tip tx)) (\<lambda>r. Ok (map_option sn_consensus_hash r)))"

definition expects_stacks_block_in_fork :: "SortitionHandleTx \<Rightarrow> bytes \<Rightarrow> (db_error, bool) res" where
  "expects_stacks_block_in_fork tx block_hash =
     and_then (tx_get_indexed tx (chain_tip tx) (StacksBlockPresent block_hash)) (\<lambda>r. Ok (r \<noteq> None))"

definition get_last_snapshot_with_sortition :: "SortitionHandleTx \<Rightarrow> u64 \<Rightarrow> (db_error, BlockSnapshot) res" where
  "get_last_snapshot_with_sortition tx burn_block_height =
     and_then (assert_that (burn_block_height < BLOCK_HEIGHT_MAX)) (\<lambda>_.
     and_then (get_ancestor_sort_id tx burn_block_height (chain_tip tx)) (\<lambda>r.
     and_then (ok_or r NotFoundError) (\<lambda>get_from.
     and_then (tx_get_indexed tx get_from LastSortition) (\<lambda>r.
       case r of
         None \<Rightarrow> get_first_block_snapshot tx
       | Some x \<Rightarrow>
           and_then (as_hash x) (\<lambda>ancestor_hash.
           and_then (tx_get_block_snapshot tx ancestor_hash (chain_tip tx)) expect)))))"

definition is_leader_key_consumed :: "SortitionHandleTx \<Rightarrow> LeaderKeyRegisterOp \<Rightarrow> (db_error, bool) res" where
  "is_leader_key_consumed tx key_op =
     and_then (assert_that (lk_block_height key_op < BLOCK_HEIGHT_MAX)) (\<lambda>_.
     and_then (tx_get_indexed tx (chain_tip tx) (VrfKeyStatus (lk_public_key key_op))) (\<lambda>r.
       case r of
         Some (VStatus s) \<Rightarrow> if s = 1 then Ok False else if s = 0 then Ok True else Panic
       | Some _ \<Rightarrow> Panic
       | None \<Rightarrow> Ok False))"

definition get_block_commit_of_sortition :: "SortitionHandleTx \<Rightarrow> bytes \<Rightarrow> u64 \<Rightarrow> u32
    \<Rightarrow> (db_error, LeaderBlockCommitOp option) res" where
  "get_block_commit_of_sortition tx sortition block_height vtxindex =
     and_then (assert_that (block_height < BLOCK_HEIGHT_MAX)) (\<lambda>_.
     and_then (u64_to_sql block_height) (\<lambda>h.
     query_row_panic (map fst (filter (\<lambda>(c, sid). sid = sortition \<and> bc_block_height c = h \<and> bc_vtxindex c = vtxindex) (block_commits tx)))))"

definition get_block_commit_parent :: "SortitionHandleTx \<Rightarrow> u64 \<Rightarrow> u32 \<Rightarrow> bytes \<Rightarrow> (db_error, LeaderBlockCommitOp option) res" where
  "get_block_commit_parent tx block_height vtxindex tip =
     and_then (assert_that (block_height < BLOCK_HEIGHT_MAX)) (\<lambda>_.
     and_then (get_ancestor_sort_id tx block_height tip) (\<lambda>r.
       case r of
         None \<Rightarrow> Ok None
       | Some ancestor_id \<Rightarrow> get_block_commit_of_sortition tx ancestor_id block_height vtxindex))"

definition has_VRF_public_key :: "SortitionHandleTx \<Rightarrow> bytes \<Rightarrow> (db_error, bool) res" where
  "has_VRF_public_key tx key = and_then (tx_get_indexed tx (chain_tip tx) (VrfKeyStatus key)) (\<lambda>r. Ok (r \<noteq> None))"

text \<open>The loop of \<^verbatim>\<open>check_fresh_consensus_hash\<close> runs once per height from the oldest to the tip's.\<close>

fun check_fresh_loop :: "SortitionHandleTx \<Rightarrow> (bytes \<Rightarrow> bool) \<Rightarrow> nat \<Rightarrow> BlockSnapshot \<Rightarrow> (db_error, bool) res" where
  "check_fresh_loop tx check 0 last_snapshot = Ok False"
| "check_fresh_loop tx check (Suc n) last_snapshot =
     and_then (tx_get_block_snapshot tx (sn_parent_burn_header_hash last_snapshot) (chain_tip tx)) (\<lambda>r.
     and_then (expect r) (\<lambda>ancestor_snapshot.
       if check (sn_consensus_hash ancestor_snapshot) then Ok True
       else check_fresh_loop tx check n ancestor_snapshot))"

definition check_fresh_consensus_hash :: "SortitionHandleTx \<Rightarrow> u64 \<Rightarrow> (bytes \<Rightarrow> bool) \<Rightarrow> (db_error, bool) res" where
  "check_fresh_consensus_hash tx consensus_hash_lifetime check =
     and_then (get_first_block_snapshot tx) (\<lambda>first_snapshot.
     and_then (db_get_block_snapshot tx (chain_tip tx)) (\<lambda>r.
     and_then (ok_or r NotFoundError) (\<lambda>last_snapshot.
       let current_block_height = sn_block_height last_snapshot;
           oldest_height = (if current_block_height < consensus_hash_lifetime then 0
                            else current_block_height - consensus_hash_lifetime);
           oldest_height = (if oldest_height < sn_block_height first_snapshot then sn_block_height first_snapshot else oldest_height)
       in if check (sn_consensus_hash last_snapshot) then Ok True
          else check_fresh_loop tx check (unat current_block_height - unat oldest_height) last_snapshot)))"

definition is_fresh_consensus_hash :: "SortitionHandleTx \<Rightarrow> u64 \<Rightarrow> bytes \<Rightarrow> (db_error, bool) res" where
  "is_fresh_consensus_hash tx consensus_hash_lifetime consensus_hash =
     check_fresh_consensus_hash tx consensus_hash_lifetime (\<lambda>fresh_hash. fresh_hash = consensus_hash)"

definition is_fresh_consensus_hash_check_19b :: "SortitionHandleTx \<Rightarrow> u64 \<Rightarrow> bytes \<Rightarrow> (db_error, bool) res" where
  "is_fresh_consensus_hash_check_19b tx consensus_hash_lifetime consensus_hash =
     check_fresh_consensus_hash tx consensus_hash_lifetime (\<lambda>fresh_hash. slice 0 19 fresh_hash = slice 0 19 consensus_hash)"

definition get_block_snapshot_by_height :: "SortitionHandleTx \<Rightarrow> u64 \<Rightarrow> (db_error, BlockSnapshot option) res" where
  "get_block_snapshot_by_height tx block_height =
     and_then (assert_that (block_height < BLOCK_HEIGHT_MAX)) (\<lambda>_. get_ancestor_snapshot tx block_height (chain_tip tx))"

section \<open>The reward set\<close>

definition parse_last_anchor_block_hash :: "db_value option \<Rightarrow> ('e, bytes option) res" where
  "parse_last_anchor_block_hash s =
     (case s of
        None \<Rightarrow> Ok None
      | Some VEmpty \<Rightarrow> Ok None
      | Some x \<Rightarrow> and_then (as_hash x) (\<lambda>h. Ok (Some h)))"

definition get_last_anchor_block_hash :: "SortitionHandleTx \<Rightarrow> (db_error, bytes option) res" where
  "get_last_anchor_block_hash tx = and_then (tx_get_indexed tx (chain_tip tx) PoxLastAnchor) parse_last_anchor_block_hash"

definition reward_set_size_to_string :: "nat \<Rightarrow> ('e, db_value) res" where
  "reward_set_size_to_string n = (if n < 2 ^ 16 then Ok (VSize (of_nat n)) else Panic)"

definition get_reward_set_size :: "SortitionHandleTx \<Rightarrow> (db_error, u16) res" where
  "get_reward_set_size tx =
     and_then (tx_get_indexed tx (chain_tip tx) PoxRewardSetSize)
       (\<lambda>x. case x of Some (VSize n) \<Rightarrow> Ok n | _ \<Rightarrow> Panic)"

definition get_reward_set_entry :: "SortitionHandleTx \<Rightarrow> u16 \<Rightarrow> (db_error, StacksAddress) res" where
  "get_reward_set_entry tx entry_ix =
     and_then (tx_get_indexed tx (chain_tip tx) (PoxRewardSetEntry entry_ix))
       (\<lambda>x. case x of Some (VAddress a) \<Rightarrow> Ok a | _ \<Rightarrow> Panic)"

definition u16_try_from :: "u32 \<Rightarrow> ('e, u16) res" where
  "u16_try_from x = (if unat x < 2 ^ 16 then Ok (ucast x) else Panic)"

definition pick_recipient :: "(bytes \<Rightarrow> u32 \<Rightarrow> u32) \<Rightarrow> SortitionHandleTx \<Rightarrow> bytes \<Rightarrow> PoxAnchorBlockStatus option
    \<Rightarrow> (db_error, RewardSetInfo option) res" where
  "pick_recipient gen_range tx reward_set_vrf_seed next_pox_info =
     (case next_pox_info of
        Some (SelectedAndKnown anchor reward_set) \<Rightarrow>
          if reward_set = [] then Ok None
          else if length reward_set \<ge> 2 ^ 32 then Panic
          else and_then (choose_index gen_range reward_set_vrf_seed (of_nat (length reward_set))) (\<lambda>chosen_recipient.
               and_then (nth_res reward_set (unat chosen_recipient)) (\<lambda>addr.
               and_then (u16_try_from chosen_recipient) (\<lambda>ix. Ok (Some \<lparr>anchor_block = anchor, recipient = (addr, ix)\<rparr>))))
      | Some _ \<Rightarrow> Ok None
      | None \<Rightarrow>
          and_then (get_last_anchor_block_hash tx) (\<lambda>last_anchor.
            case last_anchor of
              None \<Rightarrow> Ok None
            | Some anchor \<Rightarrow>
                and_then (get_reward_set_size tx) (\<lambda>reward_set_size.
                  if reward_set_size = 0 then Ok None
                  else and_then (choose_index gen_range reward_set_vrf_seed (ucast reward_set_size)) (\<lambda>chosen_recipient.
                       and_then (u16_try_from chosen_recipient) (\<lambda>ix.
                       and_then (get_reward_set_entry tx ix) (\<lambda>addr.
                         Ok (Some \<lparr>anchor_block = anchor, recipient = (addr, ix)\<rparr>)))))))"

section \<open>Rows\<close>

definition insert_leader_key :: "SortitionHandleTx \<Rightarrow> LeaderKeyRegisterOp \<Rightarrow> bytes \<Rightarrow> (db_error, SortitionHandleTx) res" where
  "insert_leader_key tx key_op sort_id =
     and_then (assert_that (lk_block_height key_op < BLOCK_HEIGHT_MAX)) (\<lambda>_.
     and_then (u64_to_sql (lk_block_height key_op)) (\<lambda>_.
       if (lk_txid key_op, sort_id) \<in> (\<lambda>(k, sid). (lk_txid k, sid)) ` set (leader_keys tx) then Err SqliteError
       else Ok (tx\<lparr>leader_keys := leader_keys tx @ [(key_op, sort_id)]\<rparr>)))"

definition insert_block_commit :: "SortitionHandleTx \<Rightarrow> LeaderBlockCommitOp \<Rightarrow> bytes \<Rightarrow> (db_error, SortitionHandleTx) res" where
  "insert_block_commit tx commit_op sort_id =
     and_then (assert_that (bc_block_height commit_op < BLOCK_HEIGHT_MAX)) (\<lambda>_.
     and_then (u64_to_sql (bc_block_height commit_op)) (\<lambda>_.
       if (bc_txid commit_op, sort_id) \<in> (\<lambda>(c, sid). (bc_txid c, sid)) ` set (block_commits tx) then Err SqliteError
       else Ok (tx\<lparr>block_commits := block_commits tx @ [(commit_op, sort_id)]\<rparr>)))"

definition insert_user_burn :: "SortitionHandleTx \<Rightarrow> UserBurnSupportOp \<Rightarrow> bytes \<Rightarrow> (db_error, SortitionHandleTx) res" where
  "insert_user_burn tx user_burn sort_id =
     and_then (assert_that (ub_block_height user_burn < BLOCK_HEIGHT_MAX)) (\<lambda>_.
     and_then (u64_to_sql (ub_block_height user_burn)) (\<lambda>_.
       if (ub_txid user_burn, sort_id) \<in> (\<lambda>(u, sid). (ub_txid u, sid)) ` set (user_burn_support tx) then Err SqliteError
       else Ok (tx\<lparr>user_burn_support := user_burn_support tx @ [(user_burn, sort_id)]\<rparr>)))"

primrec store_burnchain_transaction :: "SortitionHandleTx \<Rightarrow> BlockstackOperationType \<Rightarrow> bytes \<Rightarrow> (db_error, SortitionHandleTx) res" where
  "store_burnchain_transaction tx (LeaderKeyRegister op) sort_id = insert_leader_key tx op sort_id"
| "store_burnchain_transaction tx (LeaderBlockCommit op) sort_id = insert_block_commit tx op sort_id"
| "store_burnchain_transaction tx (UserBurnSupport op) sort_id = insert_user_burn tx op sort_id"

definition insert_block_snapshot :: "SortitionHandleTx \<Rightarrow> BlockSnapshot \<Rightarrow> (db_error, SortitionHandleTx) res" where
  "insert_block_snapshot tx snapshot =
     and_then (assert_that (sn_block_height snapshot < BLOCK_HEIGHT_MAX)) (\<lambda>_.
     and_then (assert_that (sn_num_sortitions snapshot < BLOCK_HEIGHT_MAX)) (\<lambda>_.
     and_then (map_res u64_to_sql [sn_block_height snapshot, sn_burn_header_timestamp snapshot, sn_num_sortitions snapshot,
         sn_stacks_block_height snapshot, sn_arrival_index snapshot, sn_canonical_stacks_tip_height snapshot]) (\<lambda>_.
       if sn_sortition_id snapshot \<in> sn_sortition_id ` set (snapshots tx) then Err SqliteError
       else if sn_consensus_hash snapshot \<in> sn_consensus_hash ` set (snapshots tx) then Err SqliteError
       else if sn_index_root snapshot \<in> sn_index_root ` set (snapshots tx) then Err SqliteError
       else Ok (tx\<lparr>snapshots := snapshots tx @ [snapshot]\<rparr>))))"

section \<open>Arrived Stacks blocks\<close>

definition get_max_arrival_index :: "SortitionHandleTx \<Rightarrow> u64" where
  "get_max_arrival_index tx = fold (\<lambda>sn m. max (sn_arrival_index sn) m) (snapshots tx) 0"

definition get_snapshot_by_arrival_index :: "SortitionHandleTx \<Rightarrow> u64 \<Rightarrow> (db_error, BlockSnapshot option) res" where
  "get_snapshot_by_arrival_index tx ari =
     and_then (u64_to_sql ari) (\<lambda>_.
     query_row_panic (filter (\<lambda>sn. sn_arrival_index sn = ari \<and> sn_stacks_block_accepted sn) (snapshots tx)))"

definition new_arrival :: "SortitionHandleTx \<Rightarrow> bytes \<Rightarrow> nat \<Rightarrow> (bytes \<times> bytes \<times> u64) list
    \<Rightarrow> (db_error, (bytes \<times> bytes \<times> u64) list) res" where
  "new_arrival tx parent_id ari arrivals =
     and_then (get_snapshot_by_arrival_index tx (of_nat ari)) (\<lambda>r.
       case r of
         None \<Rightarrow> Ok arrivals
       | Some arrival_sn \<Rightarrow>
           and_then (tx_get_block_snapshot tx (sn_burn_header_hash arrival_sn) parent_id) (\<lambda>r.
             case r of
               None \<Rightarrow> Ok arrivals
             | Some sn \<Rightarrow>
                 if sn \<noteq> arrival_sn then Panic
                 else Ok (arrivals @ [(sn_consensus_hash sn, sn_winning_stacks_block_hash sn, sn_stacks_block_height sn)])))"

definition better_tip :: "bytes \<times> bytes \<times> u64 \<Rightarrow> bytes \<times> bytes \<times> u64 \<Rightarrow> bytes \<times> bytes \<times> u64" where
  "better_tip arrival best = (if snd (snd arrival) > snd (snd best) then arrival else best)"

definition process_new_block_arrivals :: "SortitionHandleTx \<Rightarrow> BlockSnapshot
    \<Rightarrow> (db_error, (db_key \<times> db_value) list \<times> BlockSnapshot) res" where
  "process_new_block_arrivals tx parent_tip =
     and_then (tx_get_indexed tx (sn_sortition_id parent_tip) StacksBlockMaxArrivalIndex) (\<lambda>r.
     and_then (case r of None \<Rightarrow> Ok 0 | Some (VNumber n) \<Rightarrow> Ok n | Some _ \<Rightarrow> Panic) (\<lambda>old_max_arrival_index.
       let max_arrival_index = get_max_arrival_index tx
       in and_then (fold_res (new_arrival tx (sn_sortition_id parent_tip))
            [unat old_max_arrival_index..<unat (max_arrival_index + 1)] []) (\<lambda>new_block_arrivals.
          let (ch, bhh, height) = fold better_tip new_block_arrivals
                (sn_canonical_stacks_tip_consensus_hash parent_tip, sn_canonical_stacks_tip_hash parent_tip,
                 sn_canonical_stacks_tip_height parent_tip);
              kvs = map (\<lambda>(_, block_bhh, height). (StacksBlockIndex block_bhh, VNumber height)) new_block_arrivals
          in Ok (kvs @ [(StacksBlockMaxArrivalIndex, VNumber max_arrival_index)],
                 parent_tip\<lparr>sn_canonical_stacks_tip_consensus_hash := ch, sn_canonical_stacks_tip_hash := bhh,
                            sn_canonical_stacks_tip_height := height\<rparr>))))"

section \<open>Appending a snapshot\<close>

definition store_transition_ops :: "SortitionHandleTx \<Rightarrow> bytes \<Rightarrow> BurnchainStateTransition \<Rightarrow> (db_error, SortitionHandleTx) res" where
  "store_transition_ops tx new_sortition transition =
     (if new_sortition \<in> fst ` set (snapshot_transition_ops tx) then Err SqliteError
      else Ok (tx\<lparr>snapshot_transition_ops := snapshot_transition_ops tx @
             [(new_sortition, tr_accepted_ops transition, tr_consumed_leader_keys transition)]\<rparr>))"

definition get_pox_id :: "SortitionHandleTx \<Rightarrow> (db_error, PoxId) res" where
  "get_pox_id tx =
     and_then (tx_get_indexed tx (chain_tip tx) PoxIdentifier) (\<lambda>r. case r of Some (VPoxId p) \<Rightarrow> Ok p | _ \<Rightarrow> Panic)"

definition vrf_entry :: "BlockstackOperationType \<Rightarrow> (db_key \<times> db_value) list" where
  "vrf_entry block_op =
     (case block_op of LeaderKeyRegister data \<Rightarrow> [(VrfKeyStatus (lk_public_key data), VStatus 1)] | _ \<Rightarrow> [])"

definition remove_used :: "StacksAddress list \<Rightarrow> RewardSetInfo option \<Rightarrow> (db_error, StacksAddress list) res" where
  "remove_used reward_set recipient_info =
     (if reward_set = [] then Ok reward_set
      else and_then (expect recipient_info) (\<lambda>info.
        let (addr, ix) = recipient info
        in and_then (nth_res reward_set (unat ix)) (\<lambda>used.
             if used = addr then Ok (take (unat ix) reward_set @ drop (Suc (unat ix)) reward_set) else Panic)))"

definition reward_set_entries :: "StacksAddress list \<Rightarrow> (db_error, (db_key \<times> db_value) list) res" where
  "reward_set_entries reward_set =
     and_then (reward_set_size_to_string (length reward_set)) (\<lambda>n.
       Ok ((PoxRewardSetSize, n) # map (\<lambda>ix. (PoxRewardSetEntry (of_nat ix), VAddress (reward_set ! ix))) [0..<length reward_set]))"

definition new_cycle_entries :: "SortitionHandleTx \<Rightarrow> BlockSnapshot \<Rightarrow> PoxAnchorBlockStatus \<Rightarrow> RewardSetInfo option
    \<Rightarrow> (db_error, (db_key \<times> db_value) list) res" where
  "new_cycle_entries tx parent_snapshot reward_info recipient_info =
     and_then (get_pox_id tx) (\<lambda>pox_id.
       let pox_id = (if is_reward_info_known reward_info then extend_with_present_block pox_id
                     else extend_with_not_present_block pox_id);
           anchor = (case selected_anchor_block reward_info of
               Some block \<Rightarrow> [(PoxAnchorToPrepareEnd block, VHash (sn_sortition_id parent_snapshot)), (PoxLastAnchor, VHash block)]
             | None \<Rightarrow> [(PoxLastAnchor, VEmpty)])
       in and_then (case known_selected_anchor_block reward_info of
              Some reward_set \<Rightarrow> and_then (remove_used reward_set recipient_info) reward_set_entries
            | None \<Rightarrow> and_then (reward_set_size_to_string 0) (\<lambda>n. Ok [(PoxRewardSetSize, n)]))
          (\<lambda>rewards. Ok (anchor @ rewards @ [(PoxIdentifier, VPoxId pox_id)])))"

definition same_cycle_entries :: "SortitionHandleTx \<Rightarrow> RewardSetInfo option \<Rightarrow> (db_error, (db_key \<times> db_value) list) res" where
  "same_cycle_entries tx recipient_info =
     (case recipient_info of
        None \<Rightarrow> Ok []
      | Some reward_info \<Rightarrow>
          and_then (get_reward_set_size tx) (\<lambda>current_len.
            let recipient_index = snd (recipient reward_info)
            in if recipient_index \<ge> current_len then Panic
               else let current_len = current_len - 1
                    in and_then (get_reward_set_entry tx current_len) (\<lambda>addr.
                       and_then (reward_set_size_to_string (unat current_len)) (\<lambda>n.
                         Ok [(PoxRewardSetSize, n), (PoxRewardSetEntry recipient_index, VAddress addr)]))))"

definition pox_entries :: "SortitionHandleTx \<Rightarrow> BlockSnapshot \<Rightarrow> BlockSnapshot \<Rightarrow> PoxAnchorBlockStatus option
    \<Rightarrow> RewardSetInfo option \<Rightarrow> (db_error, (db_key \<times> db_value) list) res" where
  "pox_entries tx parent_snapshot snapshot next_pox_info recipient_info =
     (if \<not> is_initial snapshot then
        (case next_pox_info of
           Some reward_info \<Rightarrow> new_cycle_entries tx parent_snapshot reward_info recipient_info
         | None \<Rightarrow> same_cycle_entries tx recipient_info)
      else if next_pox_info \<noteq> None then Panic
      else and_then (reward_set_size_to_string 0) (\<lambda>n.
        Ok [(PoxIdentifier, VPoxId PoxId_initial), (PoxRewardSetSize, n), (PoxLastAnchor, VEmpty)]))"

definition index_add_fork_info :: "((db_key, db_value) TrieStorage \<Rightarrow> bytes) \<Rightarrow> SortitionHandleTx \<Rightarrow> BlockSnapshot \<Rightarrow> BlockSnapshot
    \<Rightarrow> BlockstackOperationType list \<Rightarrow> PoxAnchorBlockStatus option \<Rightarrow> RewardSetInfo option
    \<Rightarrow> (db_error, bytes \<times> SortitionHandleTx \<times> BlockSnapshot) res" where
  "index_add_fork_info root tx parent_snapshot snapshot block_ops next_pox_info recipient_info =
     and_then (assert_that (is_initial snapshot \<or>
       sn_parent_burn_header_hash snapshot = sn_burn_header_hash parent_snapshot \<and> sn_sortition_id parent_snapshot = chain_tip tx)) (\<lambda>_.
     and_then (pox_entries tx parent_snapshot snapshot next_pox_info recipient_info) (\<lambda>pox.
     and_then (process_new_block_arrivals tx parent_snapshot) (\<lambda>(arrivals, parent_snapshot').
       let kvs = concat (map vrf_entry block_ops) @
             [(SortitionIdForBhh (sn_burn_header_hash snapshot), VHash (sn_sortition_id snapshot))] @
             (if sn_sortition snapshot then
                [(LastSortition, VHash (sn_burn_header_hash snapshot)),
                 (StacksBlockPresent (sn_winning_stacks_block_hash snapshot), VHash (sn_sortition_id snapshot))]
              else []) @
             pox @ arrivals
       in and_then (put_indexed_begin (handle_index tx) (sn_sortition_id parent_snapshot') (sn_sortition_id snapshot)) (\<lambda>idx.
          and_then (put_indexed_all root idx (map fst kvs) (map snd kvs)) (\<lambda>(root_hash, idx).
            Ok (root_hash, tx\<lparr>handle_index := idx, chain_tip := sn_sortition_id snapshot\<rparr>, parent_snapshot'))))))"

definition append_chain_tip_snapshot :: "((db_key, db_value) TrieStorage \<Rightarrow> bytes) \<Rightarrow> SortitionHandleTx \<Rightarrow> BlockSnapshot \<Rightarrow> BlockSnapshot
    \<Rightarrow> BlockstackOperationType list \<Rightarrow> PoxAnchorBlockStatus option \<Rightarrow> RewardSetInfo option
    \<Rightarrow> (db_error, bytes \<times> SortitionHandleTx) res" where
  "append_chain_tip_snapshot root tx parent_snapshot snapshot block_ops next_pox_info reward_info =
     and_then (assert_that (sn_parent_burn_header_hash snapshot = sn_burn_header_hash parent_snapshot)) (\<lambda>_.
     and_then (assert_that (sn_block_height parent_snapshot + 1 = sn_block_height snapshot)) (\<lambda>_.
     and_then (assert_that ((if sn_sortition snapshot then sn_num_sortitions parent_snapshot + 1 else sn_num_sortitions parent_snapshot) =
         sn_num_sortitions snapshot)) (\<lambda>_.
     and_then (index_add_fork_info root tx parent_snapshot snapshot block_ops next_pox_info reward_info) (\<lambda>(root_hash, tx, parent_sn).
       let sn = snapshot\<lparr>sn_index_root := root_hash,
             sn_canonical_stacks_tip_height := sn_canonical_stacks_tip_height parent_sn,
             sn_canonical_stacks_tip_hash := sn_canonical_stacks_tip_hash parent_sn,
             sn_canonical_stacks_tip_consensus_hash := sn_canonical_stacks_tip_consensus_hash parent_sn\<rparr>
       in and_then (insert_block_snapshot tx sn) (\<lambda>tx.
          and_then (fold_res (\<lambda>block_op tx. store_burnchain_transaction tx block_op (sn_sortition_id sn)) block_ops tx) (\<lambda>tx.
            Ok (root_hash, tx)))))))"

text \<open>The database is created with its first snapshot, and every handle ends with a commit.\<close>

definition handle_commit :: "SortitionHandleTx \<Rightarrow> (db_error, SortitionHandleTx) res" where
  "handle_commit tx = and_then (index_commit (handle_index tx)) (\<lambda>idx. Ok (tx\<lparr>handle_index := idx\<rparr>))"

definition empty_sortition_db :: "u64 \<Rightarrow> SortitionHandleTx" where
  "empty_sortition_db first_height =
     \<lparr>handle_index = \<lparr>index_tx = empty_marf, block_linkage = None\<rparr>, chain_tip = SENTINEL_ARRAY,
      first_block_height = first_height, snapshots = [], leader_keys = [], block_commits = [], user_burn_support = [],
      accepted_stacks_blocks = [], snapshot_transition_ops = []\<rparr>"

definition instantiate :: "externals \<Rightarrow> ((db_key, db_value) TrieStorage \<Rightarrow> bytes) \<Rightarrow> u64 \<Rightarrow> bytes \<Rightarrow> u64
    \<Rightarrow> (db_error, SortitionHandleTx) res" where
  "instantiate X root first_height first_burn_header_hash first_burn_header_timestamp =
     (let first_snapshot = snapshot_initial X first_height first_burn_header_hash first_burn_header_timestamp
      in and_then (assert_that (sn_parent_burn_header_hash first_snapshot \<noteq> sn_burn_header_hash first_snapshot)) (\<lambda>_.
         and_then (assert_that (sn_parent_burn_header_hash first_snapshot = SENTINEL_ARRAY)) (\<lambda>_.
         and_then (index_add_fork_info root (empty_sortition_db first_height)
             (first_snapshot\<lparr>sn_sortition_id := SENTINEL_ARRAY\<rparr>) first_snapshot [] None None) (\<lambda>(index_root, tx, _).
         and_then (insert_block_snapshot tx (first_snapshot\<lparr>sn_index_root := index_root\<rparr>)) (\<lambda>tx.
         and_then (store_transition_ops tx (sn_sortition_id first_snapshot) transition_noop) handle_commit)))))"

section \<open>Accepting Stacks blocks\<close>

definition get_accepted_stacks_block_pointer :: "SortitionHandleTx \<Rightarrow> bytes \<Rightarrow> bytes \<Rightarrow> (db_error, AcceptedStacksBlockHeader option) res" where
  "get_accepted_stacks_block_pointer tx tip_consensus_hash stacks_block_hash =
     query_row_panic (filter (\<lambda>a. ah_tip_consensus_hash a = tip_consensus_hash \<and> ah_block_hash a = stacks_block_hash) (accepted_stacks_blocks tx))"

definition insert_accepted_stacks_block_pointer :: "SortitionHandleTx \<Rightarrow> bytes \<Rightarrow> bytes \<Rightarrow> bytes \<Rightarrow> u64 \<Rightarrow> (db_error, SortitionHandleTx) res" where
  "insert_accepted_stacks_block_pointer tx tip_consensus_hash consensus_hash stacks_block_hash stacks_block_height =
     and_then (u64_to_sql stacks_block_height) (\<lambda>_.
       Ok (tx\<lparr>accepted_stacks_blocks :=
         filter (\<lambda>a. \<not> (ah_consensus_hash a = consensus_hash \<and> ah_block_hash a = stacks_block_hash)) (accepted_stacks_blocks tx) @
         [\<lparr>ah_tip_consensus_hash = tip_consensus_hash, ah_consensus_hash = consensus_hash, ah_block_hash = stacks_block_hash,
           ah_height = stacks_block_height\<rparr>]\<rparr>))"

definition memoize_tip :: "bytes \<Rightarrow> bytes \<Rightarrow> bytes \<Rightarrow> u64 \<Rightarrow> SortitionHandleTx \<Rightarrow> (db_error, SortitionHandleTx) res" where
  "memoize_tip burn_tip_id consensus_hash stacks_block_hash stacks_block_height tx =
     and_then (u64_to_sql stacks_block_height) (\<lambda>_.
       Ok (tx\<lparr>snapshots := map (\<lambda>sn. if sn_sortition_id sn = burn_tip_id then
           sn\<lparr>sn_canonical_stacks_tip_consensus_hash := consensus_hash, sn_canonical_stacks_tip_hash := stacks_block_hash,
              sn_canonical_stacks_tip_height := stacks_block_height\<rparr> else sn) (snapshots tx)\<rparr>))"

definition set_stacks_block_accepted_at_tip :: "SortitionHandleTx \<Rightarrow> BlockSnapshot \<Rightarrow> bytes \<Rightarrow> bytes \<Rightarrow> bytes \<Rightarrow> u64
    \<Rightarrow> (db_error, SortitionHandleTx) res" where
  "set_stacks_block_accepted_at_tip tx burn_tip consensus_hash parent_stacks_block_hash stacks_block_hash stacks_block_height =
     (let arrival_index = get_max_arrival_index tx
      in and_then (map_res u64_to_sql [stacks_block_height, arrival_index + 1]) (\<lambda>_.
         let tx = tx\<lparr>snapshots := map (\<lambda>sn. if sn_consensus_hash sn = consensus_hash \<and> sn_winning_stacks_block_hash sn = stacks_block_hash
                 then sn\<lparr>sn_stacks_block_accepted := True, sn_stacks_block_height := stacks_block_height,
                         sn_arrival_index := arrival_index + 1\<rparr> else sn) (snapshots tx)\<rparr>
         in if sn_canonical_stacks_tip_hash burn_tip = parent_stacks_block_hash then
              and_then (assert_that (if stacks_block_height > 0 then sn_canonical_stacks_tip_height burn_tip + 1 = stacks_block_height
                                     else stacks_block_hash = FIRST_STACKS_BLOCK_HASH)) (\<lambda>_.
              and_then (memoize_tip (sn_sortition_id burn_tip) consensus_hash stacks_block_hash stacks_block_height tx) (\<lambda>tx.
              insert_accepted_stacks_block_pointer tx (sn_consensus_hash burn_tip) consensus_hash stacks_block_hash stacks_block_height))
            else
              and_then (get_accepted_stacks_block_pointer tx (sn_consensus_hash burn_tip) parent_stacks_block_hash) (\<lambda>r.
              and_then (case r of
                  Some accepted_header \<Rightarrow> Ok (Some (ah_height accepted_header))
                | None \<Rightarrow> and_then (tx_get_indexed tx (sn_sortition_id burn_tip) (StacksBlockIndex parent_stacks_block_hash))
                    (\<lambda>v. case v of None \<Rightarrow> Ok None | Some (VNumber h) \<Rightarrow> Ok (Some h) | Some _ \<Rightarrow> Panic)) (\<lambda>height_opt.
                case height_opt of
                  None \<Rightarrow> Ok tx
                | Some height \<Rightarrow>
                    and_then (if stacks_block_height > sn_canonical_stacks_tip_height burn_tip then
                        and_then (assert_that (stacks_block_height > height)) (\<lambda>_.
                        memoize_tip (sn_sortition_id burn_tip) consensus_hash stacks_block_hash stacks_block_height tx)
                      else Ok tx) (\<lambda>tx.
                    insert_accepted_stacks_block_pointer tx (sn_consensus_hash burn_tip) consensus_hash stacks_block_hash stacks_block_height)))))"

definition set_stacks_block_accepted :: "SortitionHandleTx \<Rightarrow> bytes \<Rightarrow> bytes \<Rightarrow> bytes \<Rightarrow> u64 \<Rightarrow> (db_error, SortitionHandleTx) res" where
  "set_stacks_block_accepted tx consensus_hash parent_stacks_block_hash stacks_block_hash stacks_block_height =
     and_then (db_get_block_snapshot tx (chain_tip tx)) (\<lambda>r.
     and_then (expect r) (\<lambda>burn_tip.
     set_stacks_block_accepted_at_tip tx burn_tip consensus_hash parent_stacks_block_hash stacks_block_hash stacks_block_height))"

end
