(* ===== verification/BurnchainOps.thy ===== *)
theory BurnchainOps
  imports Distribution "HOL-Library.AList"
begin

text \<open>
  The burnchain parameters and reward cycles (\<^verbatim>\<open>src/burnchains/mod.rs\<close> and \<^verbatim>\<open>src/burnchains/burnchain.rs\<close>),
  the recognition of the operations in a burn block, and the two filters that make the operations of a
  block consistent with each other: no VRF key is registered twice, and no VRF key is used by two commits.
\<close>

section \<open>Parameters\<close>

record PoxConstants =
  reward_cycle_length :: u32
  prepare_length :: u32
  anchor_threshold :: u32
  pox_rejection_fraction :: u64

definition PoxConstants_new :: "u32 \<Rightarrow> u32 \<Rightarrow> u32 \<Rightarrow> u64 \<Rightarrow> ('e, PoxConstants) res" where
  "PoxConstants_new cycle_length prep_length threshold rejection =
     (if threshold > prep_length div 2 then
        Ok \<lparr>reward_cycle_length = cycle_length, prepare_length = prep_length, anchor_threshold = threshold,
            pox_rejection_fraction = rejection\<rparr>
      else Panic)"

definition mainnet_default :: "('e, PoxConstants) res" where
  "mainnet_default = PoxConstants_new 1000 240 192 25"

definition testnet_default :: "('e, PoxConstants) res" where
  "testnet_default = PoxConstants_new 120 30 20 3333333333333333"

record BurnchainParameters =
  bp_chain_name :: string
  bp_network_name :: string
  bp_network_id :: u32
  bp_first_block_height :: u64
  bp_first_block_hash :: bytes
  bp_stable_confirmations :: u32
  bp_consensus_hash_lifetime :: u32

definition bitcoin_mainnet :: BurnchainParameters where
  "bitcoin_mainnet =
     \<lparr>bp_chain_name = ''bitcoin'', bp_network_name = ''mainnet'', bp_network_id = 0xD9B4BEF9, bp_first_block_height = 373601,
      bp_first_block_hash = replicate 32 0, bp_stable_confirmations = 7, bp_consensus_hash_lifetime = 24\<rparr>"

definition bitcoin_testnet :: BurnchainParameters where
  "bitcoin_testnet =
     \<lparr>bp_chain_name = ''bitcoin'', bp_network_name = ''testnet'', bp_network_id = 0x0709110B, bp_first_block_height = 0,
      bp_first_block_hash = replicate 32 1, bp_stable_confirmations = 7, bp_consensus_hash_lifetime = 24\<rparr>"

definition bitcoin_regtest :: BurnchainParameters where
  "bitcoin_regtest =
     \<lparr>bp_chain_name = ''bitcoin'', bp_network_name = ''regtest'', bp_network_id = 0xDAB5BFFA, bp_first_block_height = 0,
      bp_first_block_hash = replicate 32 2, bp_stable_confirmations = 1, bp_consensus_hash_lifetime = 24\<rparr>"

definition is_testnet :: "u32 \<Rightarrow> bool" where
  "is_testnet net = (net = 0x0709110B \<or> net = 0xDAB5BFFA)"

record Burnchain =
  bch_peer_version :: u32
  bch_network_id :: u32
  bch_chain_name :: string
  bch_network_name :: string
  bch_working_dir :: string
  consensus_hash_lifetime :: u32
  stable_confirmations :: u32
  bch_first_block_height :: u64
  bch_first_block_hash :: bytes
  pox_constants :: PoxConstants

datatype burnchain_error =
  UnsupportedBurnchain | MissingParentBlock | UnknownBlock bytes | BurnDBError db_error | OpError op_error
  | NonCanonicalPoxId "bool list" "bool list" | OtherBurnchainError

definition Burnchain_new :: "string \<Rightarrow> string \<Rightarrow> string \<Rightarrow> (burnchain_error, Burnchain) res" where
  "Burnchain_new working_dir chain_name network_name =
     and_then (if chain_name = ''bitcoin'' \<and> network_name = ''mainnet'' then and_then mainnet_default (\<lambda>p. Ok (bitcoin_mainnet, p))
               else if chain_name = ''bitcoin'' \<and> network_name = ''testnet'' then and_then testnet_default (\<lambda>p. Ok (bitcoin_testnet, p))
               else if chain_name = ''bitcoin'' \<and> network_name = ''regtest'' then and_then testnet_default (\<lambda>p. Ok (bitcoin_regtest, p))
               else Err UnsupportedBurnchain)
       (\<lambda>(params, pox_constants).
         Ok \<lparr>bch_peer_version = 0x17000000, bch_network_id = bp_network_id params, bch_chain_name = bp_chain_name params,
             bch_network_name = bp_network_name params, bch_working_dir = working_dir,
             consensus_hash_lifetime = bp_consensus_hash_lifetime params, stable_confirmations = bp_stable_confirmations params,
             bch_first_block_height = bp_first_block_height params, bch_first_block_hash = bp_first_block_hash params,
             pox_constants = pox_constants\<rparr>)"

section \<open>Reward cycles\<close>

text \<open>Division and remainder by zero panic.\<close>

definition is_reward_cycle_start :: "Burnchain \<Rightarrow> u64 \<Rightarrow> ('e, bool) res" where
  "is_reward_cycle_start b block_height =
     (if block_height \<le> bch_first_block_height b + 1 then Ok False
      else let effective_height = block_height - bch_first_block_height b;
               len = ucast (reward_cycle_length (pox_constants b)) :: u64
           in if len = 0 then Panic else Ok (effective_height mod len = 1))"

definition reward_cycle_to_block_height :: "Burnchain \<Rightarrow> u64 \<Rightarrow> u64" where
  "reward_cycle_to_block_height b reward_cycle =
     bch_first_block_height b + reward_cycle * ucast (reward_cycle_length (pox_constants b)) + 1"

definition block_height_to_reward_cycle :: "Burnchain \<Rightarrow> u64 \<Rightarrow> ('e, u64 option) res" where
  "block_height_to_reward_cycle b block_height =
     (if block_height < bch_first_block_height b then Ok None
      else let len = ucast (reward_cycle_length (pox_constants b)) :: u64
           in if len = 0 then Panic else Ok (Some ((block_height - bch_first_block_height b) div len)))"

section \<open>Operations of a block\<close>

definition parsed :: "('o \<Rightarrow> BlockstackOperationType) \<Rightarrow> (op_error, 'o) res \<Rightarrow> (burnchain_error, BlockstackOperationType option) res" where
  "parsed f r = (case r of Ok op \<Rightarrow> Ok (Some (f op)) | Err _ \<Rightarrow> Ok None | Panic \<Rightarrow> Panic)"

definition classify_transaction :: "externals \<Rightarrow> BurnchainBlockHeader \<Rightarrow> BurnchainTransaction
    \<Rightarrow> (burnchain_error, BlockstackOperationType option) res" where
  "classify_transaction X header burn_tx =
     (let x = btx_opcode burn_tx in
      if x = opcode_byte LeaderKeyRegisterOpcode then parsed LeaderKeyRegister (key_from_tx X header burn_tx)
      else if x = opcode_byte LeaderBlockCommitOpcode then parsed LeaderBlockCommit (commit_from_tx header burn_tx)
      else if x = opcode_byte UserBurnSupportOpcode then parsed UserBurnSupport (burn_from_tx X header burn_tx)
      else Ok None)"

definition ops_are_sorted :: "BlockstackOperationType list \<Rightarrow> bool" where
  "ops_are_sorted ops = strictly_increasing (map op_vtxindex ops)"

text \<open>The \<^verbatim>\<open>retain\<close> of \<^verbatim>\<open>filter_block_VRF_dups\<close>, with the set of keys seen so far.\<close>

fun retain_first_keys :: "bytes set \<Rightarrow> BlockstackOperationType list \<Rightarrow> BlockstackOperationType list" where
  "retain_first_keys all_keys [] = []"
| "retain_first_keys all_keys (LeaderKeyRegister data # ops) =
     (if lk_public_key data \<in> all_keys then retain_first_keys all_keys ops
      else LeaderKeyRegister data # retain_first_keys (insert (lk_public_key data) all_keys) ops)"
| "retain_first_keys all_keys (op # ops) = op # retain_first_keys all_keys ops"

definition filter_block_VRF_dups :: "BlockstackOperationType list \<Rightarrow> ('e, BlockstackOperationType list) res" where
  "filter_block_VRF_dups checked_ops = (if ops_are_sorted checked_ops then Ok (retain_first_keys {} checked_ops) else Panic)"

text \<open>The hash map of colliding commits is an association list; the final sort makes its order irrelevant.\<close>

type_synonym collisions = "((u64 \<times> u32) \<times> BlockstackOperationType) list"

definition collide_step :: "BlockstackOperationType \<Rightarrow> BlockstackOperationType list \<times> collisions
    \<Rightarrow> ('e, BlockstackOperationType list \<times> collisions) res" where
  "collide_step op st =
     (let (ret, collisions) = st in
      case op of
        LeaderBlockCommit new_block_commit \<Rightarrow>
          let loc = commit_key_loc new_block_commit
          in (case map_of collisions loc of
                Some (LeaderBlockCommit existing_block_commit) \<Rightarrow>
                  if bc_burn_fee new_block_commit > bc_burn_fee existing_block_commit then Ok (ret, AList.update loc op collisions)
                  else Ok (ret, collisions)
              | Some _ \<Rightarrow> Panic
              | None \<Rightarrow> Ok (ret, AList.update loc op collisions))
      | _ \<Rightarrow> Ok (ret @ [op], collisions))"

definition filter_block_commits_with_same_VRF_key :: "BlockstackOperationType list \<Rightarrow> ('e, BlockstackOperationType list) res" where
  "filter_block_commits_with_same_VRF_key checked_ops =
     (if \<not> ops_are_sorted checked_ops then Panic
      else and_then (fold_res collide_step checked_ops ([], [])) (\<lambda>(ret, collisions).
        Ok (sort_key op_vtxindex (ret @ map snd collisions))))"

section \<open>Sorted operations\<close>

lemma strictly_increasing_iff: "strictly_increasing xs \<longleftrightarrow> sorted_wrt (<) xs"
  by (induction xs rule: strictly_increasing.induct) (auto simp: dest: less_trans)

lemma ops_are_sorted_iff: "ops_are_sorted ops \<longleftrightarrow> sorted_wrt (\<lambda>a b. op_vtxindex a < op_vtxindex b) ops"
  by (simp add: ops_are_sorted_def strictly_increasing_iff sorted_wrt_map)

lemma sorted_filter_ops: "ops_are_sorted ops \<Longrightarrow> ops_are_sorted (filter P ops)"
  by (simp add: ops_are_sorted_iff sorted_wrt_filter)

lemma sorted_ops_distinct: "ops_are_sorted ops \<Longrightarrow> distinct (map op_vtxindex ops)"
  by (simp add: ops_are_sorted_def strictly_increasing_iff strict_sorted_iff)

lemma sort_ops_strict:
  assumes "distinct (map op_vtxindex ops)"
  shows "ops_are_sorted (sort_key op_vtxindex ops)"
proof -
  have "mset (map op_vtxindex (sort_key op_vtxindex ops)) = mset (map op_vtxindex ops)" by simp
  then have "distinct (map op_vtxindex (sort_key op_vtxindex ops))" using assms by (metis mset_eq_imp_distinct_iff)
  then show ?thesis by (simp add: ops_are_sorted_def strictly_increasing_iff strict_sorted_iff)
qed

lemma sorted_ops_unique:
  assumes "ops_are_sorted xs" and "ops_are_sorted ys" and "set xs = set ys"
  shows "xs = ys"
proof -
  have "map op_vtxindex xs = map op_vtxindex ys"
    using assms by (intro strict_sorted_equal) (simp_all add: ops_are_sorted_def strictly_increasing_iff)
  moreover have "inj_on op_vtxindex (set xs \<union> set ys)"
    using sorted_ops_distinct [OF assms(1)] assms(3) by (simp add: distinct_map)
  ultimately show ?thesis by (rule map_inj_on)
qed

section \<open>The filters\<close>

text \<open>An operation is kept when no earlier registration has its key.\<close>

definition op_keys :: "BlockstackOperationType list \<Rightarrow> bytes list" where
  "op_keys ops = concat (map (\<lambda>op. case op of LeaderKeyRegister k \<Rightarrow> [lk_public_key k] | _ \<Rightarrow> []) ops)"

lemma op_keys_simps [simp]: "op_keys [] = []" "op_keys (LeaderKeyRegister k # ops) = lk_public_key k # op_keys ops"
  "op_keys (LeaderBlockCommit c # ops) = op_keys ops" "op_keys (UserBurnSupport u # ops) = op_keys ops"
  by (simp_all add: op_keys_def)

lemma op_keys_in: "key \<in> set (op_keys ops) \<longleftrightarrow> (\<exists>k. LeaderKeyRegister k \<in> set ops \<and> lk_public_key k = key)"
  by (auto simp: op_keys_def split: BlockstackOperationType.splits)

lemma retain_first_subset: "set (retain_first_keys K ops) \<subseteq> set ops"
  by (induction K ops rule: retain_first_keys.induct) auto

lemma retain_first_others: "op \<in> set ops \<Longrightarrow> (\<And>k. op \<noteq> LeaderKeyRegister k) \<Longrightarrow> op \<in> set (retain_first_keys K ops)"
  by (induction K ops rule: retain_first_keys.induct) auto

lemma retain_first_keys_eq: "set (op_keys (retain_first_keys K ops)) = set (op_keys ops) - K"
  by (induction K ops rule: retain_first_keys.induct) auto

lemma retain_first_distinct: "distinct (op_keys (retain_first_keys K ops))"
  by (induction K ops rule: retain_first_keys.induct) (auto simp: retain_first_keys_eq)

lemma retain_first_sorted: "ops_are_sorted ops \<Longrightarrow> ops_are_sorted (retain_first_keys K ops)"
  unfolding ops_are_sorted_iff
  by (induction K ops rule: retain_first_keys.induct) (auto dest: subsetD [OF retain_first_subset])

definition wins_key :: "BlockstackOperationType list \<Rightarrow> LeaderBlockCommitOp \<Rightarrow> bool" where
  "wins_key ops c \<longleftrightarrow> (\<forall>c'. LeaderBlockCommit c' \<in> set ops \<longrightarrow> commit_key_loc c' = commit_key_loc c \<longrightarrow>
     bc_burn_fee c' < bc_burn_fee c \<or> bc_burn_fee c' = bc_burn_fee c \<and> bc_vtxindex c \<le> bc_vtxindex c')"

definition kept_op :: "BlockstackOperationType list \<Rightarrow> BlockstackOperationType \<Rightarrow> bool" where
  "kept_op ops op = (case op of LeaderBlockCommit c \<Rightarrow> wins_key ops c | _ \<Rightarrow> True)"

definition collision_inv :: "BlockstackOperationType list \<Rightarrow> BlockstackOperationType list \<times> collisions \<Rightarrow> bool" where
  "collision_inv ops st \<longleftrightarrow> fst st = filter (\<lambda>op. \<forall>c. op \<noteq> LeaderBlockCommit c) ops \<and> distinct (map fst (snd st)) \<and>
     (\<forall>l op. map_of (snd st) l = Some op \<longrightarrow>
        (\<exists>c. op = LeaderBlockCommit c \<and> op \<in> set ops \<and> commit_key_loc c = l \<and> wins_key ops c)) \<and>
     (\<forall>c. LeaderBlockCommit c \<in> set ops \<longrightarrow> map_of (snd st) (commit_key_loc c) \<noteq> None)"

lemma wins_key_snoc:
  assumes "ops_are_sorted (ops @ [LeaderBlockCommit n])"
  shows "LeaderBlockCommit c \<in> set ops \<Longrightarrow> wins_key (ops @ [LeaderBlockCommit n]) c \<longleftrightarrow>
      wins_key ops c \<and> (commit_key_loc n = commit_key_loc c \<longrightarrow> bc_burn_fee n \<le> bc_burn_fee c)"
    and "wins_key (ops @ [LeaderBlockCommit n]) n \<longleftrightarrow>
      (\<forall>c. LeaderBlockCommit c \<in> set ops \<longrightarrow> commit_key_loc c = commit_key_loc n \<longrightarrow> bc_burn_fee c < bc_burn_fee n)"
proof -
  have lt: "bc_vtxindex c < bc_vtxindex n" if "LeaderBlockCommit c \<in> set ops" for c
    using assms that by (auto simp: ops_are_sorted_iff sorted_wrt_append)
  show "LeaderBlockCommit c \<in> set ops \<Longrightarrow> wins_key (ops @ [LeaderBlockCommit n]) c \<longleftrightarrow>
      wins_key ops c \<and> (commit_key_loc n = commit_key_loc c \<longrightarrow> bc_burn_fee n \<le> bc_burn_fee c)"
    using lt [of c] by (auto simp: wins_key_def le_less)
  show "wins_key (ops @ [LeaderBlockCommit n]) n \<longleftrightarrow>
      (\<forall>c. LeaderBlockCommit c \<in> set ops \<longrightarrow> commit_key_loc c = commit_key_loc n \<longrightarrow> bc_burn_fee c < bc_burn_fee n)"
    using lt by (fastforce simp: wins_key_def not_le [symmetric] simp del: not_le)
qed

lemma collision_invD:
  assumes "collision_inv ops (ret, cs)"
  shows "ret = filter (\<lambda>op. \<forall>c. op \<noteq> LeaderBlockCommit c) ops" and "distinct (map fst cs)"
    and "\<And>l op. map_of cs l = Some op \<Longrightarrow> \<exists>c. op = LeaderBlockCommit c \<and> LeaderBlockCommit c \<in> set ops \<and> commit_key_loc c = l \<and> wins_key ops c"
    and "\<And>c. LeaderBlockCommit c \<in> set ops \<Longrightarrow> map_of cs (commit_key_loc c) \<noteq> None"
  using assms unfolding collision_inv_def fst_conv snd_conv by blast+

lemma collision_invI:
  assumes "ret = filter (\<lambda>op. \<forall>c. op \<noteq> LeaderBlockCommit c) ops" and "distinct (map fst cs)"
    and "\<And>l op. map_of cs l = Some op \<Longrightarrow> \<exists>c. op = LeaderBlockCommit c \<and> LeaderBlockCommit c \<in> set ops \<and> commit_key_loc c = l \<and> wins_key ops c"
    and "\<And>c. LeaderBlockCommit c \<in> set ops \<Longrightarrow> map_of cs (commit_key_loc c) \<noteq> None"
  shows "collision_inv ops (ret, cs)"
  using assms unfolding collision_inv_def fst_conv snd_conv by blast

lemma collide_other:
  assumes inv: "collision_inv ops (ret, cs)" and op: "\<And>n. op \<noteq> LeaderBlockCommit n"
  shows "\<exists>st'. collide_step op (ret, cs) = Ok st' \<and> collision_inv (ops @ [op]) st'"
proof -
  have w: "wins_key (ops @ [op]) = wins_key ops" using op by (auto simp: wins_key_def fun_eq_iff)
  have old: "LeaderBlockCommit c \<in> set (ops @ [op]) \<longleftrightarrow> LeaderBlockCommit c \<in> set ops" for c using op [of c] by auto
  have "collision_inv (ops @ [op]) (ret @ [op], cs)"
  proof (rule collision_invI, unfold w old)
    show "ret @ [op] = filter (\<lambda>op. \<forall>c. op \<noteq> LeaderBlockCommit c) (ops @ [op])" using collision_invD(1) [OF inv] op by simp
  qed (use collision_invD [OF inv] in blast)+
  moreover have "collide_step op (ret, cs) = Ok (ret @ [op], cs)" using op by (cases op) (auto simp: collide_step_def)
  ultimately show ?thesis by blast
qed

lemma collide_put:
  assumes inv: "collision_inv ops (ret, cs)" and sorted: "ops_are_sorted (ops @ [LeaderBlockCommit n])"
    and win: "wins_key (ops @ [LeaderBlockCommit n]) n"
  shows "collision_inv (ops @ [LeaderBlockCommit n]) (ret, AList.update (commit_key_loc n) (LeaderBlockCommit n) cs)"
proof (rule collision_invI)
  fix l op' assume "map_of (AList.update (commit_key_loc n) (LeaderBlockCommit n) cs) l = Some op'"
  then consider "l = commit_key_loc n" "op' = LeaderBlockCommit n" | "l \<noteq> commit_key_loc n" "map_of cs l = Some op'"
    by (auto simp: update_conv' split: if_splits)
  then show "\<exists>c. op' = LeaderBlockCommit c \<and> LeaderBlockCommit c \<in> set (ops @ [LeaderBlockCommit n]) \<and> commit_key_loc c = l \<and>
      wins_key (ops @ [LeaderBlockCommit n]) c"
  proof cases
    case 2
    with collision_invD(3) [OF inv] obtain c where "op' = LeaderBlockCommit c" "LeaderBlockCommit c \<in> set ops" "commit_key_loc c = l" "wins_key ops c"
      by blast
    with 2 wins_key_snoc(1) [OF sorted, of c] show ?thesis by auto
  qed (use win in auto)
next
  fix c assume "LeaderBlockCommit c \<in> set (ops @ [LeaderBlockCommit n])"
  then show "map_of (AList.update (commit_key_loc n) (LeaderBlockCommit n) cs) (commit_key_loc c) \<noteq> None"
    using collision_invD(4) [OF inv, of c] by (auto simp: update_conv')
qed (use collision_invD [OF inv] in \<open>simp_all add: distinct_update\<close>)

lemma collide_keep:
  assumes inv: "collision_inv ops (ret, cs)" and sorted: "ops_are_sorted (ops @ [LeaderBlockCommit n])"
    and e: "map_of cs (commit_key_loc n) = Some (LeaderBlockCommit e)" "bc_burn_fee n \<le> bc_burn_fee e"
  shows "collision_inv (ops @ [LeaderBlockCommit n]) (ret, cs)"
proof (rule collision_invI)
  fix l op' assume a: "map_of cs l = Some op'"
  with collision_invD(3) [OF inv] obtain c where c: "op' = LeaderBlockCommit c" "LeaderBlockCommit c \<in> set ops" "commit_key_loc c = l" "wins_key ops c"
    by blast
  have "commit_key_loc n = l \<Longrightarrow> c = e" using a e(1) c(1) by simp
  with c e(2) wins_key_snoc(1) [OF sorted c(2)] show "\<exists>c. op' = LeaderBlockCommit c \<and>
      LeaderBlockCommit c \<in> set (ops @ [LeaderBlockCommit n]) \<and> commit_key_loc c = l \<and> wins_key (ops @ [LeaderBlockCommit n]) c"
    by auto
next
  fix c assume "LeaderBlockCommit c \<in> set (ops @ [LeaderBlockCommit n])"
  then show "map_of cs (commit_key_loc c) \<noteq> None" using collision_invD(4) [OF inv, of c] e(1) by auto
qed (use collision_invD [OF inv] in simp_all)

lemma collision_inv_step:
  assumes inv: "collision_inv ops st" and sorted: "ops_are_sorted (ops @ [op])"
  shows "\<exists>st'. collide_step op st = Ok st' \<and> collision_inv (ops @ [op]) st'"
proof (cases "\<exists>n. op = LeaderBlockCommit n")
  case False
  with collide_other inv show ?thesis by (cases st) blast
next
  case True
  then obtain n where n: "op = LeaderBlockCommit n" by blast
  obtain ret cs where st: "st = (ret, cs)" by (cases st)
  note inv = inv [unfolded st] and sorted = sorted [unfolded n]
  show ?thesis
  proof (cases "map_of cs (commit_key_loc n)")
    case None
    then have "wins_key (ops @ [LeaderBlockCommit n]) n" using collision_invD(4) [OF inv] by (force simp: wins_key_snoc(2) [OF sorted])
    with collide_put [OF inv sorted] None show ?thesis by (simp add: collide_step_def st n)
  next
    case (Some op')
    with collision_invD(3) [OF inv] obtain e where e: "op' = LeaderBlockCommit e" "commit_key_loc e = commit_key_loc n" "wins_key ops e" by blast
    show ?thesis
    proof (cases "bc_burn_fee n > bc_burn_fee e")
      case True
      then have "wins_key (ops @ [LeaderBlockCommit n]) n" using e(2,3) by (fastforce simp: wins_key_snoc(2) [OF sorted] wins_key_def)
      with collide_put [OF inv sorted] True Some e show ?thesis by (simp add: collide_step_def st n)
    next
      case False
      with collide_keep [OF inv sorted] Some e show ?thesis by (simp add: collide_step_def st n)
    qed
  qed
qed

lemma collision_loop: "ops_are_sorted ops \<Longrightarrow> \<exists>st. (fold_res collide_step ops ([], []) :: ('e, _) res) = Ok st \<and> collision_inv ops st"
proof (induction ops rule: rev_induct)
  case Nil
  then show ?case by (simp add: collision_inv_def)
next
  case (snoc op ops)
  then have "ops_are_sorted ops" by (simp add: ops_are_sorted_iff sorted_wrt_append)
  with snoc obtain st where "(fold_res collide_step ops ([], []) :: ('e, _) res) = Ok st" "collision_inv ops st" by blast
  moreover from collision_inv_step [OF this(2) snoc.prems] obtain st' where "(collide_step op st :: ('e, _) res) = Ok st'" "collision_inv (ops @ [op]) st'"
    by blast
  ultimately show ?case by (intro exI [of _ st']) (simp add: fold_res_append)
qed

lemma winner_unique:
  assumes sorted: "ops_are_sorted ops"
    and "LeaderBlockCommit c \<in> set ops" "LeaderBlockCommit c' \<in> set ops" "commit_key_loc c = commit_key_loc c'" "wins_key ops c" "wins_key ops c'"
  shows "c = c'"
proof -
  have "bc_vtxindex c = bc_vtxindex c'" using assms(2-) unfolding wins_key_def by (metis order_antisym less_asym less_irrefl)
  then show ?thesis using sorted_ops_distinct [OF sorted] assms(2,3) unfolding distinct_map inj_on_def
    by (metis BlockstackOperationType.inject(2) op_vtxindex.simps(2))
qed

lemma filter_commits_result:
  assumes sorted: "ops_are_sorted ops"
  shows "(filter_block_commits_with_same_VRF_key ops :: ('e, _) res) = Ok (filter (kept_op ops) ops)"
proof -
  from collision_loop [OF sorted] obtain ret cs where o: "(fold_res collide_step ops ([], []) :: ('e, _) res) = Ok (ret, cs)" "collision_inv ops (ret, cs)" by auto
  note i = collision_invD [OF o(2)]
  note same = winner_unique [OF sorted]
  have cs: "op \<in> set (map snd cs) \<longleftrightarrow> (\<exists>c. op = LeaderBlockCommit c \<and> LeaderBlockCommit c \<in> set ops \<and> wins_key ops c)" for op
  proof -
    have "op \<in> set (map snd cs) \<longleftrightarrow> (\<exists>l. map_of cs l = Some op)" using i(2) by (force simp: image_iff)
    also have "\<dots> \<longleftrightarrow> (\<exists>c. op = LeaderBlockCommit c \<and> LeaderBlockCommit c \<in> set ops \<and> wins_key ops c)"
      using i(3) i(4) same by (metis not_None_eq)
    finally show ?thesis .
  qed
  have set: "set (ret @ map snd cs) = set (filter (kept_op ops) ops)"
  proof -
    have "kept_op ops op \<longleftrightarrow> (\<forall>c. op = LeaderBlockCommit c \<longrightarrow> wins_key ops c)" for op by (cases op) (auto simp: kept_op_def)
    moreover have "set (map snd cs) = {LeaderBlockCommit c |c. LeaderBlockCommit c \<in> set ops \<and> wins_key ops c}" using cs by blast
    ultimately show ?thesis unfolding set_append i(1) by auto
  qed
  have "distinct (map snd cs)"
  proof -
    have "(l, op) \<in> set cs \<Longrightarrow> \<exists>c. op = LeaderBlockCommit c \<and> commit_key_loc c = l" for l op using i(2,3) by (metis map_of_is_SomeI)
    then have "inj_on snd (set cs)" by (intro inj_onI) (metis BlockstackOperationType.inject(2) prod.collapse)
    then show ?thesis using i(2) by (simp add: distinct_map)
  qed
  moreover have "distinct ret" using sorted_ops_distinct [OF sorted] by (simp add: i(1) distinct_map)
  moreover have "set ret \<inter> set (map snd cs) = {}" using cs by (auto simp: i(1))
  ultimately have "distinct (ret @ map snd cs)" by simp
  moreover have "inj_on op_vtxindex (set (ret @ map snd cs))"
    using sorted_ops_distinct [OF sorted] unfolding set distinct_map by (auto intro: inj_on_subset)
  ultimately have "ops_are_sorted (sort_key op_vtxindex (ret @ map snd cs))" by (intro sort_ops_strict) (simp only: distinct_map simp_thms)
  then have "sort_key op_vtxindex (ret @ map snd cs) = filter (kept_op ops) ops"
    using sorted set by (intro sorted_ops_unique) (simp_all add: sorted_filter_ops)
  with o(1) sorted show ?thesis by (simp add: filter_block_commits_with_same_VRF_key_def)
qed

lemma winner_exists:
  assumes sorted: "ops_are_sorted ops" and c: "LeaderBlockCommit c \<in> set ops"
  shows "\<exists>c'. LeaderBlockCommit c' \<in> set (filter (kept_op ops) ops) \<and> commit_key_loc c' = commit_key_loc c \<and> bc_burn_fee c \<le> bc_burn_fee c'"
proof -
  from collision_loop [OF sorted] obtain ret cs where "collision_inv ops (ret, cs)" by auto
  note i = collision_invD [OF this]
  from i(4) [OF c] i(3) obtain e where "LeaderBlockCommit e \<in> set ops" "commit_key_loc e = commit_key_loc c" "wins_key ops e" by blast
  with c show ?thesis by (intro exI [of _ e]) (auto simp: kept_op_def wins_key_def)
qed

lemma op_keys_kept: "set (op_keys (filter (kept_op ops') ops)) = set (op_keys ops)" "distinct (op_keys ops) \<Longrightarrow> distinct (op_keys (filter (kept_op ops') ops))"
proof -
  have "op_keys (filter (kept_op ops') ops) = op_keys ops"
    by (induction ops) (auto simp: op_keys_def kept_op_def split: BlockstackOperationType.split)
  then show "set (op_keys (filter (kept_op ops') ops)) = set (op_keys ops)" "distinct (op_keys ops) \<Longrightarrow> distinct (op_keys (filter (kept_op ops') ops))"
    by simp_all
qed



section \<open>Reward cycle arithmetic\<close>

definition cycle_fits :: "Burnchain \<Rightarrow> u64 \<Rightarrow> bool" where
  "cycle_fits b c \<longleftrightarrow> unat (bch_first_block_height b) + unat c * unat (reward_cycle_length (pox_constants b)) + 1 < 2 ^ 64"

lemma unat_cycle_length: "unat (ucast (l :: u32) :: u64) = unat l"
proof -
  have "unat l < 2 ^ 64" using unsigned_less [of l, where 'a = nat] by simp
  then show ?thesis by (simp only: unsigned_ucast_eq) (simp add: take_bit_nat_eq_self)
qed

lemma cycle_height:
  assumes "cycle_fits b c"
  shows "unat (reward_cycle_to_block_height b c) =
    unat (bch_first_block_height b) + unat c * unat (reward_cycle_length (pox_constants b)) + 1"
  using assms unfolding reward_cycle_to_block_height_def cycle_fits_def
  by (simp add: unat_word_ariths unat_cycle_length)

lemma cycle_of_height:
  assumes len: "0 < unat (reward_cycle_length (pox_constants b))" and h: "unat h = unat (bch_first_block_height b) + n"
  shows "(block_height_to_reward_cycle b h :: ('e, u64 option) res) = Ok (Some (of_nat (n div unat (reward_cycle_length (pox_constants b)))))"
proof -
  let ?l = "ucast (reward_cycle_length (pox_constants b)) :: u64"
  have le: "bch_first_block_height b \<le> h" using h by (simp add: word_le_nat_alt)
  then have d: "unat (h - bch_first_block_height b) = n" using h by (simp add: unat_sub word_le_nat_alt)
  have "?l \<noteq> 0" using len unat_cycle_length [of "reward_cycle_length (pox_constants b)"] by auto
  moreover have "(h - bch_first_block_height b) div ?l = of_nat (n div unat (reward_cycle_length (pox_constants b)))"
    by (simp only: word_arith_nat_div d unat_cycle_length)
  ultimately show ?thesis using le by (simp add: block_height_to_reward_cycle_def not_less)
qed

lemma cycle_start_iff:
  assumes len: "1 < unat (reward_cycle_length (pox_constants b))" and h: "unat h = unat (bch_first_block_height b) + n" and "1 < n"
  shows "(is_reward_cycle_start b h :: ('e, bool) res) = Ok (n mod unat (reward_cycle_length (pox_constants b)) = 1)"
proof -
  let ?l = "ucast (reward_cycle_length (pox_constants b)) :: u64"
  have le: "bch_first_block_height b \<le> h" using h by (simp add: word_le_nat_alt)
  then have d: "unat (h - bch_first_block_height b) = n" using h by (simp add: unat_sub word_le_nat_alt)
  have nz: "?l \<noteq> 0" using len unat_cycle_length [of "reward_cycle_length (pox_constants b)"] by auto
  have "unat (bch_first_block_height b + 1) = unat (bch_first_block_height b) + 1"
    using h \<open>1 < n\<close> unsigned_less [of h, where 'a = nat] by (simp add: unat_word_ariths)
  then have "\<not> h \<le> bch_first_block_height b + 1" using h \<open>1 < n\<close> by (simp add: word_le_nat_alt)
  moreover have "(h - bch_first_block_height b) mod ?l = 1 \<longleftrightarrow> n mod unat (reward_cycle_length (pox_constants b)) = 1"
    by (simp add: word_unat_eq_iff unat_mod d unat_cycle_length)
  ultimately show ?thesis using nz by (simp add: is_reward_cycle_start_def Let_def)
qed

text \<open>C24. For a chain whose reward cycles are longer than one block, and heights within 64 bits: the first height of a
  positive cycle is a cycle start, every cycle start is the first height of one cycle, and the cycle of a
  first height is that cycle again. The last block of a cycle is already counted to the next.\<close>

theorem reward_cycle_arithmetic:
  assumes "1 < reward_cycle_length (pox_constants b)" and "cycle_fits b c" and "0 < c"
  shows "(is_reward_cycle_start b (reward_cycle_to_block_height b c) :: ('e, bool) res) = Ok True \<and>
    (block_height_to_reward_cycle b (reward_cycle_to_block_height b c) :: ('e, u64 option) res) = Ok (Some c) \<and>
    (block_height_to_reward_cycle b (reward_cycle_to_block_height b c - 1) :: ('e, u64 option) res) = Ok (Some c) \<and>
    (\<forall>h. unat (bch_first_block_height b) + 1 < 2 ^ 64 \<longrightarrow> (is_reward_cycle_start b h :: ('e, bool) res) = Ok True \<longrightarrow>
       (\<exists>c'. 0 < c' \<and> cycle_fits b c' \<and> h = reward_cycle_to_block_height b c'))"
proof (intro conjI allI impI)
  let ?L = "unat (reward_cycle_length (pox_constants b))" and ?f = "unat (bch_first_block_height b)"
  have len: "1 < ?L" using assms(1) by (simp add: word_less_nat_alt)
  have c: "0 < unat c" using assms(3) by (simp add: word_less_nat_alt)
  note h = cycle_height [OF assms(2)]
  have h0: "unat (reward_cycle_to_block_height b c) = ?f + (unat c * ?L + 1)" using h by simp
  have h1: "unat (reward_cycle_to_block_height b c - 1) = ?f + unat c * ?L" using h by (subst unat_sub) (simp_all add: word_le_nat_alt)
  have m: "1 < unat c * ?L + 1" "(unat c * ?L + 1) mod ?L = 1" "(unat c * ?L + 1) div ?L = unat c"
    using len c mod_mult_self3 [of "unat c" ?L 1] div_mult_self3 [of ?L "unat c" 1] by simp_all
  show "(is_reward_cycle_start b (reward_cycle_to_block_height b c) :: ('e, bool) res) = Ok True"
    using cycle_start_iff [OF len h0 m(1)] m(2) by simp
  show "(block_height_to_reward_cycle b (reward_cycle_to_block_height b c) :: ('e, u64 option) res) = Ok (Some c)"
    using cycle_of_height [OF _ h0] len m(3) by simp
  show "(block_height_to_reward_cycle b (reward_cycle_to_block_height b c - 1) :: ('e, u64 option) res) = Ok (Some c)"
    using cycle_of_height [OF _ h1] len by simp
  fix h assume f1: "?f + 1 < 2 ^ 64" and s: "(is_reward_cycle_start b h :: ('e, bool) res) = Ok True"
  define n where "n = unat h - ?f"
  have "unat (bch_first_block_height b + 1) = ?f + 1" using f1 by (simp add: unat_word_ariths)
  then have lt: "?f + 1 < unat h" using s by (simp add: is_reward_cycle_start_def word_le_nat_alt split: if_splits)
  then have n: "unat h = ?f + n" "1 < n" by (simp_all add: n_def)
  have "(is_reward_cycle_start b h :: ('e, bool) res) = Ok (n mod ?L = 1)" by (rule cycle_start_iff [OF len n])
  with s have "n mod ?L = 1" by simp
  then have q: "n = n div ?L * ?L + 1" by (metis div_mult_mod_eq)
  have b64: "unat h < 2 ^ 64" using unsigned_less [of h, where 'a = nat] by simp
  have "n div ?L \<le> n" by (rule div_le_dividend)
  then have "n div ?L < 2 ^ 64" using n(1) b64 by linarith
  then have u: "unat (of_nat (n div ?L) :: u64) = n div ?L" by (simp add: unat_of_nat)
  have fit: "cycle_fits b (of_nat (n div ?L))" using n(1) b64 q by (simp add: cycle_fits_def u)
  have "h = reward_cycle_to_block_height b (of_nat (n div ?L))"
    using cycle_height [OF fit] n(1) q by (simp add: word_unat_eq_iff u)
  moreover have "0 < n div ?L" using q n(2) by (metis add_0 bot_nat_0.not_eq_extremum less_irrefl mult_0)
  then have "0 < (of_nat (n div ?L) :: u64)" using u by (simp add: word_less_nat_alt)
  ultimately show "\<exists>c'. 0 < c' \<and> cycle_fits b c' \<and> h = reward_cycle_to_block_height b c'" using fit by blast
qed

theorem reward_cycle_arithmetic_witness:
  "\<exists>b. Burnchain_new ''/tmp'' ''bitcoin'' ''mainnet'' = Ok b \<and> (is_reward_cycle_start b (reward_cycle_to_block_height b 2) :: (burnchain_error, bool) res) = Ok True \<and>
     reward_cycle_to_block_height b 2 = 375602"
proof -
  obtain b where b: "Burnchain_new ''/tmp'' ''bitcoin'' ''mainnet'' = Ok b" "pox_constants b = \<lparr>reward_cycle_length = 1000, prepare_length = 240,
      anchor_threshold = 192, pox_rejection_fraction = 25\<rparr>" "bch_first_block_height b = 373601"
    by (simp add: Burnchain_new_def mainnet_default_def PoxConstants_new_def bitcoin_mainnet_def)
  have "1 < reward_cycle_length (pox_constants b)" "cycle_fits b 2" by (simp_all add: b cycle_fits_def)
  from reward_cycle_arithmetic [where 'e = burnchain_error, OF this] b show ?thesis by (intro exI [of _ b]) (simp add: reward_cycle_to_block_height_def)
qed

end
