(* ===== verification/SortitionForks.thy ===== *)
theory SortitionForks
  imports SortitionDB BurnchainOps
begin

text \<open>
  The operations of \<^verbatim>\<open>src/chainstate/burn/db/sortdb.rs\<close> that look across forks: the canonical tip, the
  queries by block, the PoX anchor block a prepare phase votes for, the ancestry of Stacks blocks, the
  invalidation of the descendants of a burn block, header inventories with their cache, and the view of
  the burnchain that peers exchange.
\<close>

primrec map_err :: "('e \<Rightarrow> 'f) \<Rightarrow> ('e, 'a) res \<Rightarrow> ('f, 'a) res" where
  "map_err f (Ok x) = Ok x"
| "map_err f (Err e) = Err (f e)"
| "map_err f Panic = Panic"

lemma map_err_Ok_iff [simp]: "map_err f r = Ok x \<longleftrightarrow> r = Ok x"
  by (cases r) auto

section \<open>The canonical tip\<close>

text \<open>Hashes are stored as hex strings, whose order is that of their bytes.\<close>

fun bytes_less :: "bytes \<Rightarrow> bytes \<Rightarrow> bool" where
  "bytes_less (x # xs) (y # ys) = (x < y \<or> x = y \<and> bytes_less xs ys)"
| "bytes_less [] (y # ys) = True"
| "bytes_less _ [] = False"

text \<open>The first row by decreasing height and increasing hash; among rows that agree in both, the one stored first.\<close>

definition first_by :: "('r \<Rightarrow> u64) \<Rightarrow> ('r \<Rightarrow> bytes) \<Rightarrow> 'r list \<Rightarrow> 'r option" where
  "first_by height hash rows =
     fold (\<lambda>r best. case best of
         None \<Rightarrow> Some r
       | Some b \<Rightarrow> if height r > height b \<or> height r = height b \<and> bytes_less (hash r) (hash b) then Some r else Some b) rows None"

definition get_canonical_burn_chain_tip :: "SortitionHandleTx \<Rightarrow> (db_error, BlockSnapshot) res" where
  "get_canonical_burn_chain_tip db = expect (first_by sn_block_height sn_burn_header_hash (filter sn_pox_valid (snapshots db)))"

definition get_canonical_sortition_tip :: "SortitionHandleTx \<Rightarrow> (db_error, bytes) res" where
  "get_canonical_sortition_tip db =
     expect (map_option sn_sortition_id (first_by sn_block_height sn_burn_header_hash (filter sn_pox_valid (snapshots db))))"

definition get_canonical_stacks_chain_tip_hash :: "SortitionHandleTx \<Rightarrow> (db_error, bytes \<times> bytes) res" where
  "get_canonical_stacks_chain_tip_hash db =
     and_then (get_canonical_burn_chain_tip db) (\<lambda>sn. Ok (sn_canonical_stacks_tip_consensus_hash sn, sn_canonical_stacks_tip_hash sn))"

section \<open>Rows of a block\<close>

definition get_user_burns_by_block :: "SortitionHandleTx \<Rightarrow> bytes \<Rightarrow> UserBurnSupportOp list" where
  "get_user_burns_by_block db sortition = sort_key ub_vtxindex (map fst (filter (\<lambda>(_, sid). sid = sortition) (user_burn_support db)))"

definition get_block_commits_by_block :: "SortitionHandleTx \<Rightarrow> bytes \<Rightarrow> LeaderBlockCommitOp list" where
  "get_block_commits_by_block db sortition = sort_key bc_vtxindex (map fst (filter (\<lambda>(_, sid). sid = sortition) (block_commits db)))"

definition get_leader_keys_by_block :: "SortitionHandleTx \<Rightarrow> bytes \<Rightarrow> LeaderKeyRegisterOp list" where
  "get_leader_keys_by_block db sortition = sort_key lk_vtxindex (map fst (filter (\<lambda>(_, sid). sid = sortition) (leader_keys db)))"

definition get_block_burn_amount :: "SortitionHandleTx \<Rightarrow> BlockSnapshot \<Rightarrow> (db_error, u64) res" where
  "get_block_burn_amount db sn =
     and_then (fold_res (\<lambda>u total. expect (checked_add total (ub_burn_fee u))) (get_user_burns_by_block db (sn_sortition_id sn)) 0)
       (fold_res (\<lambda>c total. expect (checked_add total (bc_burn_fee c))) (get_block_commits_by_block db (sn_sortition_id sn)))"

definition get_block_winning_vtxindex :: "SortitionHandleTx \<Rightarrow> bytes \<Rightarrow> (db_error, u16 option) res" where
  "get_block_winning_vtxindex db sortition =
     (case find (\<lambda>sn. sn_sortition_id sn = sortition) (snapshots db) of
        None \<Rightarrow> Ok None
      | Some sn \<Rightarrow>
          (case find (\<lambda>(c, sid). sid = sortition \<and> bc_txid c = sn_winning_block_txid sn) (block_commits db) of
             None \<Rightarrow> Ok None
           | Some (c, _) \<Rightarrow> if unat (bc_vtxindex c) < 2 ^ 16 then Ok (Some (ucast (bc_vtxindex c))) else Panic))"

definition get_winning_user_burns_by_block :: "externals \<Rightarrow> SortitionHandleTx \<Rightarrow> (db_error, UserBurnSupportOp list) res" where
  "get_winning_user_burns_by_block X db =
     and_then (db_get_block_snapshot db (chain_tip db)) (\<lambda>r.
       case r of
         None \<Rightarrow> Ok []
       | Some snapshot \<Rightarrow>
           if \<not> sn_sortition snapshot then Ok []
           else Ok (sort_key ub_vtxindex (map fst (filter (\<lambda>(u, sid). sid = sn_sortition_id snapshot \<and>
             ub_block_header_hash_160 u = ripemd160 X (sn_winning_stacks_block_hash snapshot)) (user_burn_support db)))))"

definition get_arrival_index_for :: "SortitionHandleTx \<Rightarrow> bytes \<Rightarrow> (db_error, u64) res" where
  "get_arrival_index_for db sortition_id =
     and_then (ok_or (find (\<lambda>sn. sn_sortition_id sn = sortition_id) (snapshots db)) NotFoundError) (\<lambda>sn. Ok (sn_arrival_index sn))"

definition get_block_commit_for_stacks_block :: "SortitionHandleTx \<Rightarrow> bytes \<Rightarrow> bytes \<Rightarrow> (db_error, LeaderBlockCommitOp option) res" where
  "get_block_commit_for_stacks_block db consensus_hash block_hash =
     and_then (get_block_snapshot_consensus db consensus_hash) (\<lambda>r.
       case r of
         None \<Rightarrow> Ok None
       | Some sn \<Rightarrow>
           if \<not> sn_pox_valid sn then Err InvalidPoxSortition
           else query_row_panic (map fst (filter (\<lambda>(c, sid). sid = sn_sortition_id sn \<and> bc_block_header_hash c = block_hash) (block_commits db))))"

definition get_sortition_id_for_bhh :: "SortitionHandleTx \<Rightarrow> bytes \<Rightarrow> (db_error, bytes option) res" where
  "get_sortition_id_for_bhh tx burn_header_hash =
     and_then (tx_get_indexed tx (chain_tip tx) (SortitionIdForBhh burn_header_hash)) (\<lambda>r.
       case r of None \<Rightarrow> Ok None | Some x \<Rightarrow> and_then (as_hash x) (\<lambda>id. Ok (Some id)))"

definition get_sortition_id :: "SortitionHandleTx \<Rightarrow> bytes \<Rightarrow> bytes \<Rightarrow> (burnchain_error, bytes option) res" where
  "get_sortition_id db burnchain_header_hash sortition_tip =
     map_err BurnDBError (get_sortition_id_for_bhh (db\<lparr>chain_tip := sortition_tip\<rparr>) burnchain_header_hash)"

definition is_sortition_processed :: "SortitionHandleTx \<Rightarrow> bytes \<Rightarrow> bytes \<Rightarrow> (burnchain_error, bool) res" where
  "is_sortition_processed db burnchain_header_hash sortition_tip =
     and_then (get_sortition_id db burnchain_header_hash sortition_tip) (\<lambda>x. Ok (x \<noteq> None))"

definition get_block_snapshot_of_parent_stacks_block :: "SortitionHandleTx \<Rightarrow> bytes \<Rightarrow> bytes
    \<Rightarrow> (db_error, (LeaderBlockCommitOp \<times> BlockSnapshot) option) res" where
  "get_block_snapshot_of_parent_stacks_block tx consensus_hash block_hash =
     and_then (get_block_commit_for_stacks_block tx consensus_hash block_hash) (\<lambda>r.
       case r of
         None \<Rightarrow> Ok None
       | Some block_commit \<Rightarrow>
           if bc_parent_block_ptr block_commit = 0 \<and> bc_parent_vtxindex block_commit = 0 then
             and_then (get_first_block_snapshot tx) (\<lambda>sn. Ok (Some (block_commit, sn)))
           else
             and_then (get_block_commit_parent tx (ucast (bc_parent_block_ptr block_commit)) (ucast (bc_parent_vtxindex block_commit)) (chain_tip tx)) (\<lambda>r.
               case r of
                 None \<Rightarrow> Ok None
               | Some parent_commit \<Rightarrow>
                   and_then (tx_get_block_snapshot tx (bc_burn_header_hash parent_commit) (chain_tip tx)) (\<lambda>r.
                   and_then (expect r) (\<lambda>sn. Ok (Some (block_commit, sn))))))"

definition get_tip_snapshot :: "SortitionHandleTx \<Rightarrow> (db_error, BlockSnapshot option) res" where
  "get_tip_snapshot tx = db_get_block_snapshot tx (chain_tip tx)"

definition open_reader_consensus :: "SortitionHandleTx \<Rightarrow> bytes \<Rightarrow> (db_error, SortitionHandleTx) res" where
  "open_reader_consensus db ch =
     and_then (get_block_snapshot_consensus db ch) (\<lambda>r.
       case r of
         None \<Rightarrow> Err NotFoundError
       | Some sn \<Rightarrow> if \<not> sn_pox_valid sn then Err InvalidPoxSortition else Ok (db\<lparr>chain_tip := sn_sortition_id sn\<rparr>))"

definition inner_get_burn_block_height :: "SortitionHandleTx \<Rightarrow> bytes \<Rightarrow> u64 option" where
  "inner_get_burn_block_height db h = map_option sn_block_height (find (\<lambda>sn. sn_burn_header_hash sn = h) (snapshots db))"

definition inner_get_burn_header_hash :: "SortitionHandleTx \<Rightarrow> u32 \<Rightarrow> (db_error, bytes option) res" where
  "inner_get_burn_header_hash db height =
     and_then (get_canonical_burn_chain_tip db) (\<lambda>tip.
     and_then (get_ancestor_snapshot db (ucast height) (sn_sortition_id tip)) (\<lambda>r. Ok (map_option sn_burn_header_hash r)))"

section \<open>Queries of the coordinator\<close>

definition is_stacks_block_pox_anchor :: "SortitionHandleTx \<Rightarrow> bytes \<Rightarrow> bytes \<Rightarrow> (burnchain_error, bytes option) res" where
  "is_stacks_block_pox_anchor db block sortition_tip =
     and_then (map_err BurnDBError (tx_get_indexed db sortition_tip (PoxAnchorToPrepareEnd block))) (\<lambda>r. Ok (map_option (\<lambda>_. block) r))"

definition get_prepare_end_for :: "SortitionHandleTx \<Rightarrow> bytes \<Rightarrow> bytes \<Rightarrow> (burnchain_error, BlockSnapshot option) res" where
  "get_prepare_end_for db sortition_tip anchor =
     and_then (map_err BurnDBError (tx_get_indexed db sortition_tip (PoxAnchorToPrepareEnd anchor))) (\<lambda>r.
       case r of
         None \<Rightarrow> Ok None
       | Some x \<Rightarrow>
           and_then (as_hash x) (\<lambda>prepare_end_sortid.
           and_then (map_err BurnDBError (db_get_block_snapshot db prepare_end_sortid)) (\<lambda>r.
           and_then (expect r) (\<lambda>sn. Ok (Some sn)))))"

definition get_sortition_result :: "SortitionHandleTx \<Rightarrow> bytes
    \<Rightarrow> (burnchain_error, (BlockSnapshot \<times> BlockstackOperationType list \<times> LeaderKeyRegisterOp list) option) res" where
  "get_sortition_result db sortition_id =
     and_then (map_err BurnDBError (db_get_block_snapshot db sortition_id)) (\<lambda>r.
       case r of
         None \<Rightarrow> Ok None
       | Some snapshot \<Rightarrow>
           and_then (expect (find (\<lambda>t. fst t = sortition_id) (snapshot_transition_ops db))) (\<lambda>t. Ok (Some (snapshot, snd t))))"

definition get_next_block_recipients :: "externals \<Rightarrow> (bytes \<Rightarrow> u32 \<Rightarrow> u32) \<Rightarrow> SortitionHandleTx \<Rightarrow> BlockSnapshot
    \<Rightarrow> PoxAnchorBlockStatus option \<Rightarrow> (burnchain_error, RewardSetInfo option) res" where
  "get_next_block_recipients X gen_range db parent_snapshot next_pox_info =
     (let reward_set_vrf_hash = mix_burn_header X (sn_sortition_hash parent_snapshot) (sn_burn_header_hash parent_snapshot)
      in map_err BurnDBError
           (pick_recipient gen_range (db\<lparr>chain_tip := sn_sortition_id parent_snapshot\<rparr>) reward_set_vrf_hash next_pox_info))"

definition is_stacks_block_in_sortition_set :: "SortitionHandleTx \<Rightarrow> bytes \<Rightarrow> bytes \<Rightarrow> (burnchain_error, bool) res" where
  "is_stacks_block_in_sortition_set db sortition_id block_to_check =
     and_then (map_err BurnDBError (tx_get_indexed db sortition_id (StacksBlockPresent block_to_check))) (\<lambda>r. Ok (r \<noteq> None))"

definition latest_stacks_blocks_processed :: "SortitionHandleTx \<Rightarrow> u64" where
  "latest_stacks_blocks_processed db = get_max_arrival_index db"

section \<open>Invalidating a fork\<close>

definition invalidate_children :: "SortitionHandleTx \<Rightarrow> bytes \<Rightarrow> SortitionHandleTx" where
  "invalidate_children db header =
     db\<lparr>snapshots := map (\<lambda>sn. if sn_parent_burn_header_hash sn = header then sn\<lparr>sn_pox_valid := False\<rparr> else sn) (snapshots db)\<rparr>"

definition child_headers :: "SortitionHandleTx \<Rightarrow> bytes \<Rightarrow> bytes list" where
  "child_headers db header =
     rev (remdups (rev (map sn_burn_header_hash (filter (\<lambda>sn. sn_parent_burn_header_hash sn = header) (snapshots db)))))"

text \<open>The queue is popped at its end. A loop that does not end has no value.\<close>

partial_function (option) invalidate_loop :: "bytes list \<Rightarrow> SortitionHandleTx \<Rightarrow> SortitionHandleTx option" where
  "invalidate_loop queue db =
     (if queue = [] then Some db
      else let header = last queue;
               db' = invalidate_children db header
           in invalidate_loop (butlast queue @ child_headers db' header) db')"

definition invalidate_descendants_of :: "SortitionHandleTx \<Rightarrow> bytes \<Rightarrow> SortitionHandleTx option" where
  "invalidate_descendants_of db burn_block = invalidate_loop [burn_block] db"

text \<open>Invalidation changes nothing but the validity of rows.\<close>

definition marks_invalid :: "SortitionHandleTx \<Rightarrow> SortitionHandleTx \<Rightarrow> bool" where
  "marks_invalid db db' \<longleftrightarrow> (\<exists>P. db' = db\<lparr>snapshots := map (\<lambda>s. if P s then s\<lparr>sn_pox_valid := False\<rparr> else s) (snapshots db)\<rparr>)"

lemma marks_invalid_trans:
  assumes "marks_invalid a b" and "marks_invalid b c"
  shows "marks_invalid a c"
proof -
  from assms obtain P Q where "b = a\<lparr>snapshots := map (\<lambda>s. if P s then s\<lparr>sn_pox_valid := False\<rparr> else s) (snapshots a)\<rparr>"
    "c = b\<lparr>snapshots := map (\<lambda>s. if Q s then s\<lparr>sn_pox_valid := False\<rparr> else s) (snapshots b)\<rparr>" unfolding marks_invalid_def by blast
  then show ?thesis unfolding marks_invalid_def
    by (intro exI [of _ "\<lambda>s. P s \<or> Q s"]) (auto simp: comp_def)
qed

lemma invalidate_marks:
  assumes "invalidate_loop queue db = Some db'"
  shows "marks_invalid db db'"
proof (rule invalidate_loop.raw_induct [OF _ assms])
  fix loop queue db db'
  assume IH: "\<And>queue db db'. loop queue db = Some db' \<Longrightarrow> marks_invalid db db'"
    and step: "(if queue = [] then Some db
      else let header = last queue; db' = invalidate_children db header
           in loop (butlast queue @ child_headers db' header) db') = Some db'"
  have refl: "marks_invalid db db" by (auto simp: marks_invalid_def intro!: exI [of _ "\<lambda>_. False"])
  have "marks_invalid db (invalidate_children db (last queue))" by (auto simp: marks_invalid_def invalidate_children_def)
  with IH step refl show "marks_invalid db db'" by (auto simp: Let_def split: if_splits intro: marks_invalid_trans)
qed

section \<open>Ancestry of Stacks blocks\<close>

definition get_block_height_of :: "SortitionHandleTx \<Rightarrow> bytes \<Rightarrow> (db_error, u32 option) res" where
  "get_block_height_of db sortition_id =
     (case find (\<lambda>sn. sn_sortition_id sn = sortition_id) (snapshots db) of
        None \<Rightarrow> Ok None
      | Some sn \<Rightarrow> if unat (sn_block_height sn) < 2 ^ 32 then Ok (Some (ucast (sn_block_height sn))) else Panic)"

text \<open>The sortition the winning commit of a snapshot builds on.\<close>

definition step_back :: "SortitionHandleTx \<Rightarrow> BlockSnapshot \<Rightarrow> (db_error, BlockSnapshot) res" where
  "step_back tx sn =
     and_then (get_block_commit_by_txid tx (sn_winning_block_txid sn)) (\<lambda>r.
     and_then (expect r) (\<lambda>block_commit.
     and_then (get_block_snapshot_by_height tx (ucast (bc_parent_block_ptr block_commit))) (\<lambda>r.
     ok_or r NotFoundError)))"

partial_function (option) descended_loop :: "SortitionHandleTx \<Rightarrow> u64 \<Rightarrow> bytes \<Rightarrow> BlockSnapshot \<Rightarrow> (db_error, bool) res option" where
  "descended_loop tx earliest_block_height potential_ancestor sn =
     (if sn_block_height sn < earliest_block_height then Some (Ok False)
      else if \<not> sn_sortition sn then Some (Ok False)
      else if sn_winning_stacks_block_hash sn = potential_ancestor then Some (Ok True)
      else (case step_back tx sn of
              Ok sn' \<Rightarrow> descended_loop tx earliest_block_height potential_ancestor sn'
            | Err e \<Rightarrow> Some (Err e)
            | Panic \<Rightarrow> Some Panic))"

definition earliest_height :: "SortitionHandleTx \<Rightarrow> bytes \<Rightarrow> u64 option" where
  "earliest_height tx potential_ancestor =
     (case map sn_block_height (filter (\<lambda>sn. sn_winning_stacks_block_hash sn = potential_ancestor) (snapshots tx)) of
        [] \<Rightarrow> None
      | h # hs \<Rightarrow> Some (fold min hs h))"

text \<open>A call that does not return is a call without a value.\<close>

definition descended_from :: "SortitionHandleTx \<Rightarrow> u64 \<Rightarrow> bytes \<Rightarrow> (db_error, bool) res option" where
  "descended_from tx block_at_burn_height potential_ancestor =
     (case earliest_height tx potential_ancestor of
        None \<Rightarrow> Some (Err SqliteError)
      | Some earliest_block_height \<Rightarrow>
          (case and_then (get_block_snapshot_by_height tx block_at_burn_height) (\<lambda>r. ok_or r NotFoundError) of
             Ok sn \<Rightarrow> descended_loop tx earliest_block_height potential_ancestor sn
           | Err e \<Rightarrow> Some (Err e)
           | Panic \<Rightarrow> Some Panic))"

section \<open>The anchor block of a reward cycle\<close>

datatype coordinator_error =
  BurnchainBlockAlreadyProcessed | CoordBurnchainError burnchain_error | ChainstateError | NonContiguousBurnchainBlock burnchain_error
  | NoSortitions | FailedToProcessSortition burnchain_error | CoordDBError db_error | NotPrepareEndBlock

definition winner_at :: "SortitionHandleTx \<Rightarrow> nat \<Rightarrow> (bytes \<times> u64) list \<Rightarrow> (burnchain_error, (bytes \<times> u64) list) res" where
  "winner_at tx height result =
     and_then (map_err BurnDBError (get_ancestor_snapshot tx (of_nat height) (chain_tip tx))) (\<lambda>r.
     and_then (ok_or r MissingParentBlock) (\<lambda>snapshot.
       Ok (if sn_sortition snapshot then result @ [(sn_winning_block_txid snapshot, sn_block_height snapshot)] else result)))"

definition get_sortition_winners_in_fork :: "SortitionHandleTx \<Rightarrow> u32 \<Rightarrow> u32 \<Rightarrow> (burnchain_error, (bytes \<times> u64) list) res" where
  "get_sortition_winners_in_fork tx block_height_begin block_height_end =
     fold_res (winner_at tx) [unat (block_height_begin + 1)..<unat (block_height_end + 1)] []"

definition parent_cursor :: "SortitionHandleTx \<Rightarrow> bytes \<Rightarrow> (db_error, bytes \<times> u64) res" where
  "parent_cursor tx txid =
     and_then (get_block_commit_by_txid tx txid) (\<lambda>r.
     and_then (expect r) (\<lambda>block_commit.
     and_then (get_ancestor_snapshot tx (ucast (bc_parent_block_ptr block_commit)) (chain_tip tx)) (\<lambda>r.
     and_then (expect r) (\<lambda>sn.
       if sn_sortition sn then Ok (sn_winning_block_txid sn, sn_block_height sn) else Panic))))"

partial_function (option) cursor_loop :: "SortitionHandleTx \<Rightarrow> u64 \<Rightarrow> (u64 \<Rightarrow> (bytes \<times> u64) option) \<Rightarrow> bytes \<times> u64
    \<Rightarrow> (db_error, bytes \<times> u64) res option" where
  "cursor_loop tx prepare_begin memoized cursor =
     (if snd cursor \<le> prepare_begin then Some (Ok cursor)
      else (case memoized (snd cursor) of
              Some ancestor \<Rightarrow> cursor_loop tx prepare_begin memoized ancestor
            | None \<Rightarrow>
                (case parent_cursor tx (fst cursor) of
                   Ok parent \<Rightarrow> cursor_loop tx prepare_begin memoized parent
                 | Err e \<Rightarrow> Some (Err e)
                 | Panic \<Rightarrow> Some Panic)))"

text \<open>The votes for each candidate, in the order the candidates were first voted for.\<close>

definition add_vote :: "u64 \<Rightarrow> (u64 \<times> u32) list \<Rightarrow> (u64 \<times> u32) list" where
  "add_vote highest_ancestor candidates =
     AList.update highest_ancestor (case map_of candidates highest_ancestor of Some x \<Rightarrow> x + 1 | None \<Rightarrow> 1) candidates"

fun vote_loop :: "SortitionHandleTx \<Rightarrow> u64 \<Rightarrow> (bytes \<times> u64) list \<Rightarrow> (u64 \<Rightarrow> (bytes \<times> u64) option) \<Rightarrow> (u64 \<times> u32) list
    \<Rightarrow> (db_error, (u64 \<times> u32) list) res option" where
  "vote_loop tx prepare_begin [] memoized candidates = Some (Ok candidates)"
| "vote_loop tx prepare_begin (winner # winners) memoized candidates =
     (case cursor_loop tx prepare_begin memoized winner of
        None \<Rightarrow> None
      | Some (Ok cursor) \<Rightarrow>
          vote_loop tx prepare_begin winners (memoized(snd winner \<mapsto> cursor)) (add_vote (snd cursor) candidates)
      | Some (Err e) \<Rightarrow> Some (Err e)
      | Some Panic \<Rightarrow> Some Panic)"

definition elect :: "SortitionHandleTx \<Rightarrow> u32 \<Rightarrow> u64 \<times> u32 \<Rightarrow> (bytes \<times> bytes) option \<Rightarrow> (db_error, (bytes \<times> bytes) option) res" where
  "elect tx threshold c result =
     (if snd c \<ge> threshold then
        and_then (get_ancestor_snapshot tx (fst c) (chain_tip tx)) (\<lambda>r.
        and_then (expect r) (\<lambda>sn.
          if result \<noteq> None then Panic else Ok (Some (sn_consensus_hash sn, sn_winning_stacks_block_hash sn))))
      else Ok result)"

definition chosen_anchor :: "SortitionHandleTx \<Rightarrow> PoxConstants \<Rightarrow> u32 \<Rightarrow> (coordinator_error, (bytes \<times> bytes) option) res option" where
  "chosen_anchor tx pox_consts prepare_end =
     (let prepare_begin = prepare_end - prepare_length pox_consts
      in case get_sortition_winners_in_fork tx prepare_begin prepare_end of
           Ok winners \<Rightarrow>
             map_option (\<lambda>votes. map_err CoordDBError (and_then votes (\<lambda>candidates.
                 fold_res (elect tx (anchor_threshold pox_consts)) candidates None)))
               (vote_loop tx (ucast prepare_begin) winners Map.empty [])
         | Err e \<Rightarrow> Some (Err (CoordBurnchainError e))
         | Panic \<Rightarrow> Some Panic)"

definition get_chosen_pox_anchor :: "SortitionHandleTx \<Rightarrow> bytes \<Rightarrow> PoxConstants
    \<Rightarrow> (coordinator_error, (bytes \<times> bytes) option) res option" where
  "get_chosen_pox_anchor tx prepare_end_bhh pox_consts =
     (case and_then (map_err CoordDBError (get_sortition_id_for_bhh tx prepare_end_bhh)) (\<lambda>r.
           and_then (ok_or r (CoordBurnchainError MissingParentBlock)) (\<lambda>prepare_end_sortid.
           and_then (map_err CoordDBError (get_block_height_of tx prepare_end_sortid)) (\<lambda>r.
           and_then (expect r) (\<lambda>my_height.
             if reward_cycle_length pox_consts = 0 then Panic
             else if my_height mod reward_cycle_length pox_consts \<noteq> 0 then Err NotPrepareEndBlock
             else if my_height < prepare_length pox_consts then Err NotPrepareEndBlock
             else Ok my_height)))) of
        Ok prepare_end \<Rightarrow> chosen_anchor tx pox_consts prepare_end
      | Err e \<Rightarrow> Some (Err e)
      | Panic \<Rightarrow> Some Panic)"

section \<open>Header inventories\<close>

type_synonym BlockHeaderCache = "bytes \<Rightarrow> (bytes option \<times> bytes) option"

fun header_loop :: "SortitionHandleTx \<Rightarrow> BlockHeaderCache \<Rightarrow> nat \<Rightarrow> bytes \<Rightarrow> (bytes \<times> bytes option) list
    \<Rightarrow> (db_error, (bytes \<times> bytes option) list) res" where
  "header_loop tx cache 0 ancestor_consensus_hash ret = Ok ret"
| "header_loop tx cache (Suc n) ancestor_consensus_hash ret =
     (case cache ancestor_consensus_hash of
        Some (header_hash_opt, prev_consensus_hash) \<Rightarrow>
          header_loop tx cache n prev_consensus_hash (ret @ [(ancestor_consensus_hash, header_hash_opt)])
      | None \<Rightarrow>
          and_then (get_block_snapshot_consensus tx ancestor_consensus_hash) (\<lambda>r.
          and_then (expect r) (\<lambda>ancestor_snapshot.
            if \<not> sn_pox_valid ancestor_snapshot then Panic
            else let header_hash_opt = (if sn_sortition ancestor_snapshot then Some (sn_winning_stacks_block_hash ancestor_snapshot) else None)
                 in and_then (tx_get_block_snapshot tx (sn_parent_burn_header_hash ancestor_snapshot) (chain_tip tx)) (\<lambda>r.
                    and_then (expect r) (\<lambda>ancestor_snapshot_parent.
                      header_loop tx cache n (sn_consensus_hash ancestor_snapshot_parent)
                        (ret @ [(sn_consensus_hash ancestor_snapshot, header_hash_opt)]))))))"

definition get_stacks_header_hashes :: "SortitionHandleTx \<Rightarrow> u64 \<Rightarrow> bytes \<Rightarrow> BlockHeaderCache
    \<Rightarrow> (db_error, (bytes \<times> bytes option) list) res" where
  "get_stacks_header_hashes db num_headers tip_consensus_hash cache =
     and_then (get_block_snapshot_consensus db tip_consensus_hash) (\<lambda>r.
     and_then (ok_or r NotFoundError) (\<lambda>tip_snapshot.
       if \<not> sn_pox_valid tip_snapshot then Err InvalidPoxSortition
       else if sn_block_height tip_snapshot < first_block_height db then Panic
       else let headers_count = min (sn_block_height tip_snapshot - first_block_height db) num_headers
            in and_then (header_loop (db\<lparr>chain_tip := sn_sortition_id tip_snapshot\<rparr>) cache (unat headers_count) (sn_consensus_hash tip_snapshot) [])
                 (\<lambda>ret. Ok (rev ret))))"

text \<open>The loop runs down from the last entry to the second. On an empty list \<^verbatim>\<open>len() - 1\<close> wraps and the first index is out of range.\<close>

fun merge_loop :: "(bytes \<times> bytes option) list \<Rightarrow> nat \<Rightarrow> BlockHeaderCache \<Rightarrow> BlockHeaderCache" where
  "merge_loop header_data 0 cache = cache"
| "merge_loop header_data (Suc i) cache =
     (let (cur_consensus_hash, cur_block_opt) = header_data ! Suc i
      in merge_loop header_data i
           (if cache cur_consensus_hash = None then cache(cur_consensus_hash \<mapsto> (cur_block_opt, fst (header_data ! i))) else cache))"

definition merge_block_header_cache :: "BlockHeaderCache \<Rightarrow> (bytes \<times> bytes option) list \<Rightarrow> ('e, BlockHeaderCache) res" where
  "merge_block_header_cache cache header_data =
     (if header_data = [] then Panic else Ok (merge_loop header_data (length header_data - 1) cache))"

section \<open>The view of the burnchain\<close>

definition MAX_NEIGHBOR_BLOCK_DELAY :: u64 where
  "MAX_NEIGHBOR_BLOCK_DELAY = 288"

record BurnchainView =
  view_burn_block_height :: u64
  view_burn_block_hash :: bytes
  view_burn_stable_block_height :: u64
  view_burn_stable_block_hash :: bytes
  view_last_burn_block_hashes :: "u64 \<Rightarrow> bytes option"

definition view_hash :: "SortitionHandleTx \<Rightarrow> bytes \<Rightarrow> nat \<Rightarrow> (u64 \<Rightarrow> bytes option) \<Rightarrow> (db_error, u64 \<Rightarrow> bytes option) res" where
  "view_hash db tip height hashes =
     and_then (get_ancestor_snapshot db (of_nat height) tip) (\<lambda>r.
       Ok (hashes(of_nat height \<mapsto> (case r of Some sn \<Rightarrow> sn_burn_header_hash sn | None \<Rightarrow> replicate 32 0))))"

definition get_burnchain_view :: "SortitionHandleTx \<Rightarrow> Burnchain \<Rightarrow> BlockSnapshot \<Rightarrow> (db_error, BurnchainView) res" where
  "get_burnchain_view db burnchain tip =
     (if sn_block_height tip < bch_first_block_height burnchain then Err Corruption
      else if sn_block_height tip < ucast (stable_confirmations burnchain) then Err Corruption
      else let stable_block_height = max (bch_first_block_height burnchain) (sn_block_height tip - ucast (stable_confirmations burnchain))
           in and_then (get_block_snapshot_by_height (db\<lparr>chain_tip := sn_sortition_id tip\<rparr>) stable_block_height) (\<lambda>r.
              and_then (ok_or r Corruption) (\<lambda>stable_snapshot.
                let oldest_height = (if sn_block_height stable_snapshot < MAX_NEIGHBOR_BLOCK_DELAY then 0
                                     else sn_block_height stable_snapshot - MAX_NEIGHBOR_BLOCK_DELAY)
                in and_then (fold_res (view_hash db (sn_sortition_id tip)) [unat oldest_height..<unat (sn_block_height tip)] Map.empty) (\<lambda>hashes.
                     Ok \<lparr>view_burn_block_height = sn_block_height tip, view_burn_block_hash = sn_burn_header_hash tip,
                         view_burn_stable_block_height = stable_block_height, view_burn_stable_block_hash = sn_burn_header_hash stable_snapshot,
                         view_last_burn_block_hashes = hashes\<rparr>))))"

end
