(* ===== verification/SortitionInv.thy ===== *)
theory SortitionInv
  imports SortitionForks
begin

text \<open>
  The invariant of the sortition database, over every sequence of appended snapshots (on any fork) and
  accepted Stacks blocks: each stored snapshot ends a chain of stored snapshots of consecutive heights,
  the index holds exactly that chain under the snapshot's identifier, and the keys of the index
  (sortition identifiers by burn hash, last sortition, winning blocks, registered VRF keys, reward set)
  are what the chain says. The fork-aware queries are then correct on every fork.
\<close>

section \<open>Steps\<close>

text \<open>A step opens a handle on a stored tip, changes the database through it, and commits. A snapshot is
  appended before any Stacks block is accepted for it. The operations that led to a snapshot are stored
  beside it, and the descendants of a burn block can be marked as off the canonical PoX fork.\<close>

inductive sortition_step :: "((db_key, db_value) TrieStorage \<Rightarrow> bytes) \<Rightarrow> SortitionHandleTx \<Rightarrow> SortitionHandleTx \<Rightarrow> bool"
  for root where
  step_append: "parent \<in> set (snapshots db) \<Longrightarrow> sn_sortition_id sn \<noteq> SENTINEL_ARRAY \<Longrightarrow>
    \<not> sn_stacks_block_accepted sn \<Longrightarrow> sn_arrival_index sn = 0 \<Longrightarrow>
    append_chain_tip_snapshot root (db\<lparr>chain_tip := sn_sortition_id parent\<rparr>) parent sn ops info recip = Ok (r, tx) \<Longrightarrow>
    handle_commit tx = Ok db' \<Longrightarrow> sortition_step root db db'"
| step_accept: "set_stacks_block_accepted (db\<lparr>chain_tip := tip\<rparr>) ch parent_bhh bhh height = Ok tx \<Longrightarrow>
    sortition_step root db tx"
| step_transition: "store_transition_ops db sid transition = Ok db' \<Longrightarrow> sortition_step root db db'"
| step_invalidate: "invalidate_descendants_of db burn_block = Some db' \<Longrightarrow> sortition_step root db db'"

inductive sortition_reachable :: "externals \<Rightarrow> ((db_key, db_value) TrieStorage \<Rightarrow> bytes) \<Rightarrow> SortitionHandleTx \<Rightarrow> bool"
  for X root where
  reach_new: "first_burn_hash \<noteq> SENTINEL_ARRAY \<Longrightarrow> SortitionId_stubbed X first_burn_hash \<noteq> SENTINEL_ARRAY \<Longrightarrow>
    instantiate X root first_height first_burn_hash time = Ok db \<Longrightarrow> sortition_reachable X root db"
| reach_next: "sortition_reachable X root db \<Longrightarrow> sortition_step root db db' \<Longrightarrow> sortition_reachable X root db'"

section \<open>What the database says of a chain\<close>

definition last_write :: "('k \<times> 'v) list \<Rightarrow> 'k \<Rightarrow> 'v option" where
  "last_write kvs = map_of (rev kvs)"

definition view_at :: "SortitionHandleTx \<Rightarrow> BlockSnapshot \<Rightarrow> db_key \<Rightarrow> db_value option" where
  "view_at db sn = index_view (handle_index db) (sn_sortition_id sn)"

definition stored_chain :: "SortitionHandleTx \<Rightarrow> BlockSnapshot list \<Rightarrow> bool" where
  "stored_chain db rows \<longleftrightarrow> rows \<noteq> [] \<and> set rows \<subseteq> set (snapshots db) \<and>
     index_chain (handle_index db) (sn_sortition_id (last rows)) (map sn_sortition_id rows) \<and>
     sn_consensus_hash (hd rows) = ConsensusHash_empty \<and>
     (\<forall>i < length rows. unat (sn_block_height (rows ! i)) = unat (first_block_height db) + i \<and>
        sn_block_height (rows ! i) < BLOCK_HEIGHT_MAX) \<and>
     (\<forall>i. Suc i < length rows \<longrightarrow> sn_parent_burn_header_hash (rows ! Suc i) = sn_burn_header_hash (rows ! i))"

definition registered :: "SortitionHandleTx \<Rightarrow> BlockSnapshot list \<Rightarrow> bytes set" where
  "registered db rows = (\<lambda>(k, _). lk_public_key k) ` {x \<in> set (leader_keys db). snd x \<in> sn_sortition_id ` set rows}"

definition holds_reward_set :: "SortitionHandleTx \<Rightarrow> BlockSnapshot \<Rightarrow> StacksAddress list \<Rightarrow> bool" where
  "holds_reward_set db sn rs \<longleftrightarrow> length rs < 2 ^ 16 \<and> view_at db sn PoxRewardSetSize = Some (VSize (of_nat (length rs))) \<and>
     (\<forall>i < length rs. view_at db sn (PoxRewardSetEntry (of_nat i)) = Some (VAddress (rs ! i)))"

definition chain_keys :: "SortitionHandleTx \<Rightarrow> BlockSnapshot list \<Rightarrow> bool" where
  "chain_keys db rows \<longleftrightarrow>
     (\<forall>h. view_at db (last rows) (SortitionIdForBhh h) =
        map_option VHash (last_write (map (\<lambda>r. (sn_burn_header_hash r, sn_sortition_id r)) rows) h)) \<and>
     view_at db (last rows) LastSortition = map_option (\<lambda>r. VHash (sn_burn_header_hash r)) (find sn_sortition (rev rows)) \<and>
     (\<forall>w. view_at db (last rows) (StacksBlockPresent w) =
        map_option VHash (last_write (map (\<lambda>r. (sn_winning_stacks_block_hash r, sn_sortition_id r)) (filter sn_sortition rows)) w)) \<and>
     (\<forall>k. view_at db (last rows) (VrfKeyStatus k) = (if k \<in> registered db rows then Some (VStatus 1) else None)) \<and>
     (\<exists>p. view_at db (last rows) PoxIdentifier = Some (VPoxId p)) \<and>
     (\<exists>a. view_at db (last rows) PoxLastAnchor = Some a \<and> (a = VEmpty \<or> (\<exists>h. a = VHash h))) \<and>
     (\<exists>rs. holds_reward_set db (last rows) rs) \<and>
     view_at db (last rows) StacksBlockMaxArrivalIndex \<in> insert None (range (Some \<circ> VNumber))"

definition sort_inv :: "SortitionHandleTx \<Rightarrow> bool" where
  "sort_inv db \<longleftrightarrow> index_ready (handle_index db) \<and> distinct (map sn_sortition_id (snapshots db)) \<and>
     distinct (map sn_consensus_hash (snapshots db)) \<and>
     snd ` set (leader_keys db) \<subseteq> sn_sortition_id ` set (snapshots db) \<and>
     (\<forall>b ps. index_chain (handle_index db) b ps \<longrightarrow> b \<in> sn_sortition_id ` set (snapshots db)) \<and>
     (\<forall>sn \<in> set (snapshots db). \<exists>rows. last rows = sn \<and> stored_chain db rows \<and> chain_keys db rows)"

section \<open>What an append writes\<close>

lemma last_write_Nil [simp]: "last_write [] k = None"
  by (simp add: last_write_def)

lemma last_write_append [simp]: "last_write (xs @ ys) k = (case last_write ys k of Some v \<Rightarrow> Some v | None \<Rightarrow> last_write xs k)"
  by (simp add: last_write_def map_add_def split: option.split)

lemma last_write_Cons [simp]: "last_write ((k', v) # xs) k = (case last_write xs k of Some v \<Rightarrow> Some v | None \<Rightarrow> if k = k' then Some v else None)"
  by (simp add: last_write_def map_add_def split: option.split)

lemma last_write_None: "k \<notin> fst ` set xs \<Longrightarrow> last_write xs k = None"
  by (simp add: last_write_def map_of_eq_None_iff)

lemma assert_that_Ok [simp]: "assert_that b = Ok u \<longleftrightarrow> b"
  by (simp add: assert_that_def)

text \<open>The index after begin, write and commit.\<close>

lemma index_put_split:
  assumes "put_indexed_begin i p n = Ok i1" and "put_indexed_all root i1 ks vs = Ok (r, i2)" and "index_commit i2 = Ok i3"
  shows "index_put i p n ks vs = Ok i3"
proof -
  have "put_indexed_all (\<lambda>_. []) i1 ks vs = Ok ([], i2)"
    using assms(2) by (auto simp: put_indexed_all_def and_then_Ok_iff split: if_splits)
  with assms show ?thesis by (simp add: index_put_def)
qed

text \<open>The rows.\<close>

definition key_rows :: "BlockstackOperationType list \<Rightarrow> bytes \<Rightarrow> (LeaderKeyRegisterOp \<times> bytes) list" where
  "key_rows ops sid = concat (map (\<lambda>op. case op of LeaderKeyRegister k \<Rightarrow> [(k, sid)] | _ \<Rightarrow> []) ops)"

definition commit_rows :: "BlockstackOperationType list \<Rightarrow> bytes \<Rightarrow> (LeaderBlockCommitOp \<times> bytes) list" where
  "commit_rows ops sid = concat (map (\<lambda>op. case op of LeaderBlockCommit c \<Rightarrow> [(c, sid)] | _ \<Rightarrow> []) ops)"

lemma key_rows_snd: "(k, x) \<in> set (key_rows ops sid) \<Longrightarrow> x = sid"
  by (auto simp: key_rows_def split: BlockstackOperationType.splits)

lemma store_ops_rows:
  assumes "fold_res (\<lambda>op tx. store_burnchain_transaction tx op sid) ops tx = Ok tx'"
  shows "leader_keys tx' = leader_keys tx @ key_rows ops sid \<and> block_commits tx' = block_commits tx @ commit_rows ops sid \<and>
    handle_index tx' = handle_index tx \<and> snapshots tx' = snapshots tx \<and> chain_tip tx' = chain_tip tx \<and>
    first_block_height tx' = first_block_height tx"
  using assms
proof (induction ops arbitrary: tx)
  case (Cons op ops)
  then obtain tx1 where tx1: "store_burnchain_transaction tx op sid = Ok tx1"
    "fold_res (\<lambda>op tx. store_burnchain_transaction tx op sid) ops tx1 = Ok tx'" by (auto simp: and_then_Ok_iff)
  from tx1(1) Cons.IH [OF tx1(2)] show ?case
    by (cases op) (auto simp: insert_leader_key_def insert_block_commit_def insert_user_burn_def and_then_Ok_iff
        key_rows_def commit_rows_def split: if_splits)
qed (simp add: key_rows_def commit_rows_def)

lemma insert_snapshot_rows:
  assumes "insert_block_snapshot tx sn = Ok tx'"
  shows "tx' = tx\<lparr>snapshots := snapshots tx @ [sn]\<rparr> \<and> sn_block_height sn < BLOCK_HEIGHT_MAX \<and>
    sn_sortition_id sn \<notin> sn_sortition_id ` set (snapshots tx) \<and> sn_consensus_hash sn \<notin> sn_consensus_hash ` set (snapshots tx)"
  using assms by (auto simp: insert_block_snapshot_def and_then_Ok_iff split: if_splits)

definition append_writes :: "BlockSnapshot \<Rightarrow> BlockstackOperationType list \<Rightarrow> (db_key \<times> db_value) list \<Rightarrow> (db_key \<times> db_value) list
    \<Rightarrow> (db_key \<times> db_value) list" where
  "append_writes sn ops pox arrivals = concat (map vrf_entry ops) @
     [(SortitionIdForBhh (sn_burn_header_hash sn), VHash (sn_sortition_id sn))] @
     (if sn_sortition sn then
        [(LastSortition, VHash (sn_burn_header_hash sn)), (StacksBlockPresent (sn_winning_stacks_block_hash sn), VHash (sn_sortition_id sn))]
      else []) @ pox @ arrivals"

lemma arrivals_parent:
  assumes "process_new_block_arrivals tx parent = Ok (arrivals, parent')"
  shows "sn_sortition_id parent' = sn_sortition_id parent"
    and "last_write arrivals StacksBlockMaxArrivalIndex = Some (VNumber (get_max_arrival_index tx))"
    and "fst ` set arrivals \<subseteq> insert StacksBlockMaxArrivalIndex (range StacksBlockIndex)"
  using assms by (auto simp: process_new_block_arrivals_def and_then_Ok_iff Let_def case_prod_beta)

lemma fork_info_result:
  assumes "index_add_fork_info root tx parent sn ops info recip = Ok (r, tx', parent')" and "index_commit (handle_index tx') = Ok idx"
  shows "\<exists>pox arrivals. pox_entries tx parent sn info recip = Ok pox \<and> process_new_block_arrivals tx parent = Ok (arrivals, parent') \<and>
    index_put (handle_index tx) (sn_sortition_id parent) (sn_sortition_id sn)
      (map fst (append_writes sn ops pox arrivals)) (map snd (append_writes sn ops pox arrivals)) = Ok idx \<and>
    tx' = tx\<lparr>handle_index := handle_index tx', chain_tip := sn_sortition_id sn\<rparr>"
proof -
  from assms(1) obtain pox arrivals i1 i2 where o: "pox_entries tx parent sn info recip = Ok pox"
      "process_new_block_arrivals tx parent = Ok (arrivals, parent')"
      "put_indexed_begin (handle_index tx) (sn_sortition_id parent') (sn_sortition_id sn) = Ok i1"
      "put_indexed_all root i1 (map fst (append_writes sn ops pox arrivals)) (map snd (append_writes sn ops pox arrivals)) = Ok (r, i2)"
      "tx' = tx\<lparr>handle_index := i2, chain_tip := sn_sortition_id sn\<rparr>"
    unfolding index_add_fork_info_def Let_def append_writes_def [symmetric]
    by (auto simp: and_then_Ok_iff split: prod.splits)
  have "index_put (handle_index tx) (sn_sortition_id parent') (sn_sortition_id sn)
      (map fst (append_writes sn ops pox arrivals)) (map snd (append_writes sn ops pox arrivals)) = Ok idx"
    using index_put_split [OF o(3,4)] assms(2) o(5) by simp
  then show ?thesis using o arrivals_parent(1) [OF o(2)] by auto
qed

text \<open>The fields of a snapshot that no later operation changes.\<close>

definition same_core :: "BlockSnapshot \<Rightarrow> BlockSnapshot \<Rightarrow> bool" where
  "same_core a b \<longleftrightarrow> sn_sortition_id a = sn_sortition_id b \<and> sn_burn_header_hash a = sn_burn_header_hash b \<and>
     sn_parent_burn_header_hash a = sn_parent_burn_header_hash b \<and> sn_block_height a = sn_block_height b \<and>
     sn_consensus_hash a = sn_consensus_hash b \<and> sn_sortition a = sn_sortition b \<and>
     sn_winning_stacks_block_hash a = sn_winning_stacks_block_hash b \<and> sn_winning_block_txid a = sn_winning_block_txid b \<and>
     sn_total_burn a = sn_total_burn b \<and> sn_num_sortitions a = sn_num_sortitions b \<and> sn_sortition_hash a = sn_sortition_hash b"

text \<open>The row of an appended snapshot: the snapshot with the canonical Stacks tip of its parent.\<close>

definition takes_tip :: "BlockSnapshot \<Rightarrow> BlockSnapshot \<Rightarrow> BlockSnapshot \<Rightarrow> bool" where
  "takes_tip sn' sn parent \<longleftrightarrow> (\<exists>r. sn' = sn\<lparr>sn_index_root := r,
     sn_canonical_stacks_tip_height := sn_canonical_stacks_tip_height parent,
     sn_canonical_stacks_tip_hash := sn_canonical_stacks_tip_hash parent,
     sn_canonical_stacks_tip_consensus_hash := sn_canonical_stacks_tip_consensus_hash parent\<rparr>)"

lemma append_result:
  assumes "append_chain_tip_snapshot root tx parent sn ops info recip = Ok (r, tx1)" and "handle_commit tx1 = Ok db'"
  shows "\<exists>pox arrivals parent' sn'. pox_entries tx parent sn info recip = Ok pox \<and>
    process_new_block_arrivals tx parent = Ok (arrivals, parent') \<and>
    index_put (handle_index tx) (sn_sortition_id parent) (sn_sortition_id sn)
      (map fst (append_writes sn ops pox arrivals)) (map snd (append_writes sn ops pox arrivals)) = Ok (handle_index db') \<and>
    same_core sn' sn \<and> snapshots db' = snapshots tx @ [sn'] \<and> leader_keys db' = leader_keys tx @ key_rows ops (sn_sortition_id sn) \<and>
    block_commits db' = block_commits tx @ commit_rows ops (sn_sortition_id sn) \<and>
    first_block_height db' = first_block_height tx \<and> sn_block_height sn < BLOCK_HEIGHT_MAX \<and>
    sn_sortition_id sn \<notin> sn_sortition_id ` set (snapshots tx) \<and> sn_consensus_hash sn \<notin> sn_consensus_hash ` set (snapshots tx) \<and>
    sn_parent_burn_header_hash sn = sn_burn_header_hash parent \<and> sn_block_height parent + 1 = sn_block_height sn \<and>
    takes_tip sn' sn parent'"
proof -
  from assms(1) obtain tx2 parent' tx3 where o: "sn_parent_burn_header_hash sn = sn_burn_header_hash parent"
      "sn_block_height parent + 1 = sn_block_height sn"
      "index_add_fork_info root tx parent sn ops info recip = Ok (r, tx2, parent')"
      "insert_block_snapshot tx2 (sn\<lparr>sn_index_root := r,
             sn_canonical_stacks_tip_height := sn_canonical_stacks_tip_height parent',
             sn_canonical_stacks_tip_hash := sn_canonical_stacks_tip_hash parent',
             sn_canonical_stacks_tip_consensus_hash := sn_canonical_stacks_tip_consensus_hash parent'\<rparr>) = Ok tx3"
      "fold_res (\<lambda>op tx. store_burnchain_transaction tx op (sn_sortition_id sn)) ops tx3 = Ok tx1"
    by (auto simp: append_chain_tip_snapshot_def and_then_Ok_iff Let_def split: prod.splits)
  define sn' where "sn' = sn\<lparr>sn_index_root := r,
             sn_canonical_stacks_tip_height := sn_canonical_stacks_tip_height parent',
             sn_canonical_stacks_tip_hash := sn_canonical_stacks_tip_hash parent',
             sn_canonical_stacks_tip_consensus_hash := sn_canonical_stacks_tip_consensus_hash parent'\<rparr>"
  have core: "same_core sn' sn" by (simp add: sn'_def same_core_def)
  have tip: "takes_tip sn' sn parent'" by (auto simp: sn'_def takes_tip_def)
  note rows = store_ops_rows [OF o(5)] and ins = insert_snapshot_rows [OF o(4) [folded sn'_def]]
  from assms(2) obtain idx where c: "index_commit (handle_index tx1) = Ok idx" "db' = tx1\<lparr>handle_index := idx\<rparr>"
    by (auto simp: handle_commit_def and_then_Ok_iff)
  have "index_commit (handle_index tx2) = Ok idx" using c(1) rows ins by simp
  from fork_info_result [OF o(3) this] obtain pox arrivals where f: "pox_entries tx parent sn info recip = Ok pox"
    "process_new_block_arrivals tx parent = Ok (arrivals, parent')"
    "index_put (handle_index tx) (sn_sortition_id parent) (sn_sortition_id sn)
      (map fst (append_writes sn ops pox arrivals)) (map snd (append_writes sn ops pox arrivals)) = Ok idx"
    "tx2 = tx\<lparr>handle_index := handle_index tx2, chain_tip := sn_sortition_id sn\<rparr>" by blast
  have "snapshots tx2 = snapshots tx" "leader_keys tx2 = leader_keys tx" "first_block_height tx2 = first_block_height tx" "block_commits tx2 = block_commits tx"
    using arg_cong [OF f(4), of snapshots] arg_cong [OF f(4), of block_commits] arg_cong [OF f(4), of leader_keys] arg_cong [OF f(4), of first_block_height] by simp_all
  moreover have "sn_sortition_id sn' = sn_sortition_id sn" "sn_consensus_hash sn' = sn_consensus_hash sn" "sn_block_height sn' = sn_block_height sn"
    using core by (simp_all add: same_core_def)
  ultimately have "index_put (handle_index tx) (sn_sortition_id parent) (sn_sortition_id sn)
      (map fst (append_writes sn ops pox arrivals)) (map snd (append_writes sn ops pox arrivals)) = Ok (handle_index db') \<and>
    same_core sn' sn \<and> snapshots db' = snapshots tx @ [sn'] \<and> leader_keys db' = leader_keys tx @ key_rows ops (sn_sortition_id sn) \<and>
    block_commits db' = block_commits tx @ commit_rows ops (sn_sortition_id sn) \<and>
    first_block_height db' = first_block_height tx \<and> sn_block_height sn < BLOCK_HEIGHT_MAX \<and>
    sn_sortition_id sn \<notin> sn_sortition_id ` set (snapshots tx) \<and> sn_consensus_hash sn \<notin> sn_consensus_hash ` set (snapshots tx)"
    using rows ins c(2) core f(3) by simp
  with f(1,2) o(1,2) tip show ?thesis by blast
qed

section \<open>The keys an append writes\<close>

definition pox_key :: "db_key \<Rightarrow> bool" where
  "pox_key k \<longleftrightarrow> k \<in> {PoxIdentifier, PoxRewardSetSize, PoxLastAnchor} \<union> range PoxRewardSetEntry \<union> range PoxAnchorToPrepareEnd"

lemma pox_key_simps [simp]: "pox_key PoxIdentifier" "pox_key PoxRewardSetSize" "pox_key PoxLastAnchor" "pox_key (PoxRewardSetEntry i)"
    "pox_key (PoxAnchorToPrepareEnd b)" "\<not> pox_key LastSortition" "\<not> pox_key (SortitionIdForBhh h)" "\<not> pox_key (StacksBlockPresent w)"
    "\<not> pox_key (VrfKeyStatus v)" "\<not> pox_key StacksBlockMaxArrivalIndex" "\<not> pox_key (StacksBlockIndex w)"
  by (auto simp: pox_key_def)

lemma reward_set_entries_keys: "reward_set_entries rs = Ok kvs \<Longrightarrow> (k, v) \<in> set kvs \<Longrightarrow> pox_key k"
  by (auto simp: reward_set_entries_def and_then_Ok_iff)

lemma pox_keys:
  assumes "pox_entries tx parent sn info recip = Ok pox" and "(k, v) \<in> set pox"
  shows "pox_key k"
proof (cases "is_initial sn \<or> info = None")
  case True
  with assms show ?thesis
    by (auto simp: pox_entries_def same_cycle_entries_def and_then_Ok_iff Let_def split: if_splits option.splits)
next
  case False
  with assms show ?thesis
    by (auto simp: pox_entries_def new_cycle_entries_def and_then_Ok_iff Let_def
        split: option.splits intro: reward_set_entries_keys)
qed

lemma vrf_keys: "(k, v) \<in> set (concat (map vrf_entry ops)) \<Longrightarrow> k \<in> range VrfKeyStatus"
  by (auto simp: vrf_entry_def split: BlockstackOperationType.splits)

lemma vrf_writes:
  "last_write (concat (map vrf_entry ops)) (VrfKeyStatus k) =
     (if k \<in> (\<lambda>(op, _). lk_public_key op) ` set (key_rows ops sid) then Some (VStatus 1) else None)"
  by (induction ops) (auto simp: vrf_entry_def key_rows_def split: BlockstackOperationType.split)

lemma append_writes_at:
  fixes ops :: "BlockstackOperationType list"
  assumes pox: "pox_entries tx parent sn info recip = Ok pox" and arr: "process_new_block_arrivals tx parent = Ok (arrivals, parent')"
  defines "W \<equiv> append_writes sn ops pox arrivals"
  shows "last_write W (SortitionIdForBhh h) = (if h = sn_burn_header_hash sn then Some (VHash (sn_sortition_id sn)) else None)"
    and "last_write W LastSortition = (if sn_sortition sn then Some (VHash (sn_burn_header_hash sn)) else None)"
    and "last_write W (StacksBlockPresent w) =
      (if sn_sortition sn \<and> w = sn_winning_stacks_block_hash sn then Some (VHash (sn_sortition_id sn)) else None)"
    and "last_write W (VrfKeyStatus k) = last_write (concat (map vrf_entry ops)) (VrfKeyStatus k)"
    and "pox_key q \<Longrightarrow> last_write W q = last_write pox q"
    and "last_write W StacksBlockMaxArrivalIndex = Some (VNumber (get_max_arrival_index tx))"
proof -
  have arrivals: "last_write arrivals k = None" if "k \<noteq> StacksBlockMaxArrivalIndex" "k \<notin> range StacksBlockIndex" for k
    using that arrivals_parent(3) [OF arr] by (intro last_write_None) auto
  have poxes: "last_write pox k = None" if "\<not> pox_key k" for k
    using that pox_keys [OF pox] by (intro last_write_None) auto
  have vrfs: "last_write (concat (map vrf_entry ops)) k = None" if "k \<notin> range VrfKeyStatus" for k
    using that by (auto simp del: set_concat intro!: last_write_None dest: vrf_keys)
  show "last_write W (SortitionIdForBhh h) = (if h = sn_burn_header_hash sn then Some (VHash (sn_sortition_id sn)) else None)"
    by (auto simp: W_def append_writes_def arrivals poxes vrfs image_iff)
  show "last_write W LastSortition = (if sn_sortition sn then Some (VHash (sn_burn_header_hash sn)) else None)"
    by (auto simp: W_def append_writes_def arrivals poxes vrfs image_iff)
  show "last_write W (StacksBlockPresent w) =
      (if sn_sortition sn \<and> w = sn_winning_stacks_block_hash sn then Some (VHash (sn_sortition_id sn)) else None)"
    by (auto simp: W_def append_writes_def arrivals poxes vrfs image_iff)
  show "last_write W (VrfKeyStatus k) = last_write (concat (map vrf_entry ops)) (VrfKeyStatus k)"
    by (auto simp: W_def append_writes_def arrivals poxes image_iff)
  show "last_write W q = last_write pox q" if "pox_key q"
    using that by (auto simp: W_def append_writes_def arrivals vrfs pox_key_def image_iff split: option.split)
  show "last_write W StacksBlockMaxArrivalIndex = Some (VNumber (get_max_arrival_index tx))"
    using arrivals_parent(2) [OF arr] by (auto simp: W_def append_writes_def)
qed

section \<open>The reward set along a chain\<close>

text \<open>What an append leaves of the reward set: the first block of a cycle with a known anchor installs
  the new set without its own recipient; a later block moves the last address into its recipient's
  place.\<close>

definition reward_after :: "BlockSnapshot \<Rightarrow> PoxAnchorBlockStatus option \<Rightarrow> RewardSetInfo option \<Rightarrow> StacksAddress list \<Rightarrow> StacksAddress list" where
  "reward_after sn info recip rs =
     (if is_initial sn then []
      else case info of
        Some i \<Rightarrow> (case known_selected_anchor_block i of
            None \<Rightarrow> []
          | Some reward_set \<Rightarrow> (case recip of
                None \<Rightarrow> []
              | Some ri \<Rightarrow> take (unat (snd (recipient ri))) reward_set @ drop (Suc (unat (snd (recipient ri)))) reward_set))
      | None \<Rightarrow> (case recip of None \<Rightarrow> rs | Some ri \<Rightarrow> (butlast rs)[unat (snd (recipient ri)) := last rs]))"

lemma last_write_distinct: "distinct (map fst xs) \<Longrightarrow> (k, v) \<in> set xs \<Longrightarrow> last_write xs k = Some v"
  by (simp add: last_write_def map_of_eq_Some_iff rev_map [symmetric] distinct_rev)

lemma of_nat_u16_inj: "i < 2 ^ 16 \<Longrightarrow> j < 2 ^ 16 \<Longrightarrow> (of_nat i :: u16) = of_nat j \<longleftrightarrow> i = j"
  by (simp add: word_unat_eq_iff unat_of_nat)

lemma reward_set_entries_write:
  assumes "reward_set_entries rs = Ok kvs"
  shows "length rs < 2 ^ 16" and "last_write kvs PoxRewardSetSize = Some (VSize (of_nat (length rs)))"
    and "i < length rs \<Longrightarrow> last_write kvs (PoxRewardSetEntry (of_nat i)) = Some (VAddress (rs ! i))"
proof -
  let ?es = "map (\<lambda>ix. (PoxRewardSetEntry (of_nat ix), VAddress (rs ! ix))) [0..<length rs]"
  from assms show len: "length rs < 2 ^ 16"
    by (auto simp: reward_set_entries_def reward_set_size_to_string_def and_then_Ok_iff split: if_splits)
  with assms have kvs: "kvs = (PoxRewardSetSize, VSize (of_nat (length rs))) # ?es"
    by (simp add: reward_set_entries_def reward_set_size_to_string_def)
  have d: "distinct (map fst kvs)"
    using len by (auto simp: kvs distinct_map inj_on_def of_nat_u16_inj)
  show "last_write kvs PoxRewardSetSize = Some (VSize (of_nat (length rs)))"
    by (rule last_write_distinct [OF d]) (simp add: kvs)
  show "last_write kvs (PoxRewardSetEntry (of_nat i)) = Some (VAddress (rs ! i))" if "i < length rs"
    using that by (intro last_write_distinct [OF d]) (simp add: kvs)
qed

lemma remove_used_Ok:
  assumes "remove_used rs recip = Ok rs'"
  shows "rs' = (case recip of None \<Rightarrow> [] | Some ri \<Rightarrow> take (unat (snd (recipient ri))) rs @ drop (Suc (unat (snd (recipient ri)))) rs)"
    and "rs \<noteq> [] \<Longrightarrow> \<exists>ri. recip = Some ri \<and> unat (snd (recipient ri)) < length rs \<and> rs ! unat (snd (recipient ri)) = fst (recipient ri)"
  using assms by (auto simp: remove_used_def and_then_Ok_iff nth_res_def Let_def case_prod_beta split: if_splits option.split)

lemma pox_entries_new_cycle:
  assumes "new_cycle_entries tx parent i recip = Ok pox" and "\<not> is_initial sn"
  shows "(\<exists>p. last_write pox PoxIdentifier = Some (VPoxId p)) \<and>
    (\<exists>a. last_write pox PoxLastAnchor = Some a \<and> (a = VEmpty \<or> (\<exists>h. a = VHash h))) \<and>
    length (reward_after sn (Some i) recip rs) < 2 ^ 16 \<and>
    last_write pox PoxRewardSetSize = Some (VSize (of_nat (length (reward_after sn (Some i) recip rs)))) \<and>
    (\<forall>j < length (reward_after sn (Some i) recip rs).
       last_write pox (PoxRewardSetEntry (of_nat j)) = Some (VAddress (reward_after sn (Some i) recip rs ! j)))"
proof -
  from assms(1) obtain p anchor rewards where o: "pox = anchor @ rewards @ [(PoxIdentifier, VPoxId p)]"
    "anchor = [(PoxLastAnchor, VEmpty)] \<or> (\<exists>b h. anchor = [(PoxAnchorToPrepareEnd b, h), (PoxLastAnchor, VHash b)])"
    "(case known_selected_anchor_block i of
        Some reward_set \<Rightarrow> and_then (remove_used reward_set recip) reward_set_entries
      | None \<Rightarrow> and_then (reward_set_size_to_string 0) (\<lambda>n. Ok [(PoxRewardSetSize, n)])) = Ok rewards"
    by (auto simp: new_cycle_entries_def and_then_Ok_iff Let_def split: option.splits)
  have r: "\<exists>rs'. reward_set_entries rs' = Ok rewards \<and> rs' = reward_after sn (Some i) recip rs"
  proof (cases "known_selected_anchor_block i")
    case None
    with o(3) assms(2) show ?thesis
      by (auto simp: reward_set_entries_def reward_after_def and_then_Ok_iff)
  next
    case (Some reward_set)
    with o(3) assms(2) show ?thesis
      by (auto simp: reward_after_def and_then_Ok_iff dest!: remove_used_Ok(1))
  qed
  then have w: "reward_set_entries (reward_after sn (Some i) recip rs) = Ok rewards" by auto
  have none: "last_write rewards PoxIdentifier = None" "last_write rewards PoxLastAnchor = None"
    using w by (auto intro!: last_write_None simp: reward_set_entries_def and_then_Ok_iff)
  show ?thesis using o(2) none reward_set_entries_write [OF w] by (auto simp: o(1))
qed

lemma tx_get_view: "index_ready (handle_index tx) \<Longrightarrow> tx_get_indexed tx (sn_sortition_id sn) k = Ok (view_at tx sn k)"
  by (simp add: tx_get_indexed_def view_at_def get_indexed_view)

lemma reward_set_reads:
  assumes "index_ready (handle_index tx)" and "chain_tip tx = sn_sortition_id sn" and "holds_reward_set tx sn rs"
  shows "get_reward_set_size tx = Ok (of_nat (length rs))"
    and "i < length rs \<Longrightarrow> get_reward_set_entry tx (of_nat i) = Ok (rs ! i)"
  using assms(3) by (auto simp: get_reward_set_size_def get_reward_set_entry_def assms(2) tx_get_view [OF assms(1)] holds_reward_set_def)

lemma same_cycle_writes:
  assumes "index_ready (handle_index tx)" and "chain_tip tx = sn_sortition_id sn" and rs: "holds_reward_set tx sn rs"
    and ok: "same_cycle_entries tx (Some ri) = Ok pox"
  shows "unat (snd (recipient ri)) < length rs \<and>
    pox = [(PoxRewardSetSize, VSize (of_nat (length rs - 1))), (PoxRewardSetEntry (snd (recipient ri)), VAddress (last rs))]"
proof -
  have len: "length rs < 2 ^ 16" using rs by (simp add: holds_reward_set_def)
  note rd = reward_set_reads [OF assms(1-3)]
  have ix: "\<not> of_nat (length rs) \<le> snd (recipient ri)"
    using ok rd(1) by (auto simp: same_cycle_entries_def Let_def split: if_splits)
  then have lt: "unat (snd (recipient ri)) < length rs"
    using len by (simp add: word_le_nat_alt unat_of_nat)
  then obtain n where n: "length rs = Suc n" by (cases rs) auto
  have un: "unat (of_nat n :: u16) = n" using len n by (simp add: unat_of_nat)
  have m1: "(of_nat (Suc n) :: u16) - 1 = of_nat n" by simp
  have "rs \<noteq> []" using n by auto
  then have "rs ! n = last rs" using n by (simp add: last_conv_nth)
  then have entry: "get_reward_set_entry tx (of_nat n) = Ok (last rs)" using rd(2) [of n] n by simp
  have size: "(reward_set_size_to_string n :: (db_error, db_value) res) = Ok (VSize (of_nat n))"
    using len n by (simp add: reward_set_size_to_string_def)
  show ?thesis using ok lt unfolding same_cycle_entries_def rd(1) n and_then.simps Let_def option.case m1 un entry size
    using ix n by simp
qed

lemma append_pox_view:
  assumes ready: "index_ready (handle_index tx)" and tip: "chain_tip tx = sn_sortition_id parent" and rs: "holds_reward_set tx parent rs"
    and p: "\<exists>p. view_at tx parent PoxIdentifier = Some (VPoxId p)"
    and a: "\<exists>a. view_at tx parent PoxLastAnchor = Some a \<and> (a = VEmpty \<or> (\<exists>h. a = VHash h))"
    and ok: "pox_entries tx parent sn info recip = Ok pox"
    and V: "\<And>k. pox_key k \<Longrightarrow> V k = (case last_write pox k of Some v \<Rightarrow> Some v | None \<Rightarrow> view_at tx parent k)"
  shows "(\<exists>p. V PoxIdentifier = Some (VPoxId p)) \<and> (\<exists>a. V PoxLastAnchor = Some a \<and> (a = VEmpty \<or> (\<exists>h. a = VHash h))) \<and>
    length (reward_after sn info recip rs) < 2 ^ 16 \<and> V PoxRewardSetSize = Some (VSize (of_nat (length (reward_after sn info recip rs)))) \<and>
    (\<forall>j < length (reward_after sn info recip rs). V (PoxRewardSetEntry (of_nat j)) = Some (VAddress (reward_after sn info recip rs ! j)))"
proof -
  consider (first) "is_initial sn" | (cycle) i where "\<not> is_initial sn" "info = Some i"
    | (same) "\<not> is_initial sn" "info = None" "recip = None" | (used) ri where "\<not> is_initial sn" "info = None" "recip = Some ri"
    by (cases info; cases recip) auto
  then show ?thesis
  proof cases
    case first
    with ok show ?thesis
      by (auto simp: V pox_entries_def reward_set_size_to_string_def and_then_Ok_iff reward_after_def split: if_splits)
  next
    case cycle
    with ok have "new_cycle_entries tx parent i recip = Ok pox" by (simp add: pox_entries_def)
    from pox_entries_new_cycle [OF this cycle(1), of rs] cycle(2) show ?thesis by (auto simp: V)
  next
    case same
    with ok have "pox = []" by (simp add: pox_entries_def same_cycle_entries_def)
    with same p a rs show ?thesis by (simp add: V reward_after_def holds_reward_set_def)
  next
    case used
    from ok used have "same_cycle_entries tx (Some ri) = Ok pox" by (simp add: pox_entries_def)
    note w = same_cycle_writes [OF ready tip rs this]
    let ?ix = "snd (recipient ri)"
    have entry: "view_at tx parent (PoxRewardSetEntry (of_nat j)) = Some (VAddress (rs ! j))" if "j < length rs" for j
      using that rs by (simp add: holds_reward_set_def)
    have eq: "(of_nat j :: u16) = ?ix \<longleftrightarrow> j = unat ?ix" if "j < length rs" for j
      using that rs by (auto simp: holds_reward_set_def word_unat_eq_iff unat_of_nat)
    show ?thesis using w p a used rs
      by (auto simp: V reward_after_def holds_reward_set_def entry eq nth_list_update nth_butlast)
  qed
qed

section \<open>Appending keeps the invariant\<close>

lemma append_view:
  assumes "index_ready (handle_index tx)" and "n \<noteq> SENTINEL_ARRAY"
    and "index_put (handle_index tx) p n (map fst kvs) (map snd kvs) = Ok (handle_index db')"
  shows "index_view (handle_index db') b k =
      (if b = n then (case last_write kvs k of Some v \<Rightarrow> Some v | None \<Rightarrow> index_view (handle_index tx) p k)
       else index_view (handle_index tx) b k)"
  using index_put_view(1) [OF assms] by (simp add: last_write_def zip_map_fst_snd)

lemma index_put_covers:
  assumes "index_ready tx" and "n \<noteq> SENTINEL_ARRAY" and "index_put tx p n ks vs = Ok tx'" and "index_chain tx' b ps"
  shows "b = n \<or> (\<exists>qs. index_chain tx b qs)"
proof (cases "b = n")
  case False
  with index_put_result [OF assms(1-3)] index_chain_stored [OF assms(4)] have "read_trie (storage (index_tx tx)) b \<noteq> None" by auto
  then show ?thesis using assms(1) unfolding index_ready_def marf_inv_def forest_def index_chain_def by blast
qed simp

lemma old_chain_kept:
  assumes ready: "index_ready (handle_index db)" and n: "n \<noteq> SENTINEL_ARRAY"
    and put: "index_put (handle_index db) p n (map fst kvs) (map snd kvs) = Ok (handle_index db')"
    and rows: "snapshots db' = snapshots db @ [sn]" "leader_keys db' = leader_keys db @ key_rows ops n"
      "first_block_height db' = first_block_height db"
    and c: "stored_chain db rows" and k: "chain_keys db rows"
  shows "stored_chain db' rows \<and> chain_keys db' rows"
proof -
  have ch: "index_chain (handle_index db) (sn_sortition_id (last rows)) (map sn_sortition_id rows)" using c by (simp add: stored_chain_def)
  have fresh: "x \<noteq> n" if "x \<in> sn_sortition_id ` set rows" for x
  proof -
    have "x \<in> set (map sn_sortition_id rows)" using that by simp
    then obtain qs where "index_chain (handle_index db) x qs"
      using ready ch anc_stored unfolding index_chain_def index_ready_def marf_inv_def forest_def by (metis option.exhaust)
    then show ?thesis using marf_index.put_keeps_chain [OF ready n put] by blast
  qed
  then have "n \<notin> sn_sortition_id ` set rows" by blast
  then have "{x \<in> set (leader_keys db'). snd x \<in> sn_sortition_id ` set rows} = {x \<in> set (leader_keys db). snd x \<in> sn_sortition_id ` set rows}"
    by (auto simp: rows dest: key_rows_snd)
  then have "registered db' rows = registered db rows" by (simp add: registered_def)
  moreover have "sn_sortition_id (last rows) \<noteq> n" using fresh c by (auto simp: stored_chain_def)
  then have "view_at db' (last rows) k = view_at db (last rows) k" for k
    by (simp add: view_at_def append_view [OF ready n put])
  ultimately show ?thesis using c k marf_index.put_keeps_chain [OF ready n put ch]
    by (auto simp: stored_chain_def chain_keys_def holds_reward_set_def rows)
qed

lemma new_chain_stored:
  assumes ready: "index_ready (handle_index db)" and n: "sn_sortition_id sn \<noteq> SENTINEL_ARRAY"
    and put: "index_put (handle_index db) (sn_sortition_id (last rows)) (sn_sortition_id sn) ks vs = Ok (handle_index db')"
    and rows: "snapshots db' = snapshots db @ [sn]" "first_block_height db' = first_block_height db"
    and link: "sn_parent_burn_header_hash sn = sn_burn_header_hash (last rows)" "sn_block_height (last rows) + 1 = sn_block_height sn"
      "sn_block_height sn < BLOCK_HEIGHT_MAX"
    and c: "stored_chain db rows"
  shows "stored_chain db' (rows @ [sn])"
proof -
  have ne: "rows \<noteq> []" and hi: "sn_block_height (rows ! i) < BLOCK_HEIGHT_MAX"
    and ht: "unat (sn_block_height (rows ! i)) = unat (first_block_height db) + i" if "i < length rows" for i
    using c that by (auto simp: stored_chain_def)
  have ne: "rows \<noteq> []" using c by (simp add: stored_chain_def)
  then have last: "last rows = rows ! (length rows - 1)" "length rows - 1 < length rows" by (simp_all add: last_conv_nth)
  have "unat (sn_block_height sn) = unat (sn_block_height (last rows)) + 1"
  proof -
    have "unat (sn_block_height (last rows)) + 1 < 2 ^ 64"
      using hi [OF last(2)] by (simp add: last(1) word_less_nat_alt BLOCK_HEIGHT_MAX_def)
    then show ?thesis unfolding link(2) [symmetric] by (simp add: unat_word_ariths)
  qed
  then have h: "unat (sn_block_height sn) = unat (first_block_height db) + length rows"
    using ht [OF last(2)] ne last(1) by (cases rows) auto
  have "index_chain (handle_index db') (sn_sortition_id sn) (map sn_sortition_id rows @ [sn_sortition_id sn])"
    using marf_index.put_chain [OF ready n put] c by (simp add: stored_chain_def)
  moreover have "sn_parent_burn_header_hash ((rows @ [sn]) ! Suc i) = sn_burn_header_hash ((rows @ [sn]) ! i)"
    if "Suc i < length (rows @ [sn])" for i
  proof (cases "Suc i < length rows")
    case True
    then show ?thesis using c by (simp add: stored_chain_def nth_append)
  next
    case False
    with that have "length rows = Suc i" by simp
    then show ?thesis using link(1) last(1) by (simp add: nth_append)
  qed
  ultimately show ?thesis using c h link(3) ht hi
    by (auto simp: stored_chain_def rows nth_append less_Suc_eq)
qed

lemma new_chain_keys:
  assumes ready: "index_ready (handle_index db)" and n: "sn_sortition_id sn \<noteq> SENTINEL_ARRAY"
    and tip: "chain_tip tx = sn_sortition_id (last rows)" and tx: "handle_index tx = handle_index db"
    and pox: "pox_entries tx (last rows) sn info recip = Ok pox" and arr: "process_new_block_arrivals tx (last rows) = Ok (arrivals, parent')"
    and put: "index_put (handle_index db) (sn_sortition_id (last rows)) (sn_sortition_id sn)
      (map fst (append_writes sn ops pox arrivals)) (map snd (append_writes sn ops pox arrivals)) = Ok (handle_index db')"
    and rows: "leader_keys db' = leader_keys db @ key_rows ops (sn_sortition_id sn)" "same_core sn' sn"
    and old: "sn_sortition_id sn \<notin> snd ` set (leader_keys db)" "sn_sortition_id sn \<notin> sn_sortition_id ` set rows"
    and k: "chain_keys db rows"
  shows "chain_keys db' (rows @ [sn'])"
    and "holds_reward_set db (last rows) rs \<Longrightarrow> holds_reward_set db' sn' (reward_after sn info recip rs)"
    and "view_at db' sn' StacksBlockMaxArrivalIndex = Some (VNumber (get_max_arrival_index tx))"
proof -
  let ?W = "append_writes sn ops pox arrivals"
  note at = append_writes_at [OF pox arr]
  have core: "sn_sortition_id sn' = sn_sortition_id sn" "sn_burn_header_hash sn' = sn_burn_header_hash sn"
    "sn_sortition sn' = sn_sortition sn" "sn_winning_stacks_block_hash sn' = sn_winning_stacks_block_hash sn"
    using rows(2) by (simp_all add: same_core_def)
  have view: "view_at db' sn' k = (case last_write ?W k of Some v \<Rightarrow> Some v | None \<Rightarrow> view_at db (last rows) k)" for k
    by (simp add: view_at_def core append_view [OF ready n put] split: option.split)
  have same: "view_at tx r = view_at db r" for r by (simp add: view_at_def tx)
  have hold: "holds_reward_set tx r = holds_reward_set db r" for r by (simp add: holds_reward_set_def same fun_eq_iff)
  have V: "view_at db' sn' k = (case last_write pox k of Some v \<Rightarrow> Some v | None \<Rightarrow> view_at tx (last rows) k)" if "pox_key k" for k
    using that by (simp add: view at(5) same split: option.split)
  have reg: "registered db' (rows @ [sn']) = registered db rows \<union> (\<lambda>(op, _). lk_public_key op) ` set (key_rows ops (sn_sortition_id sn))"
  proof -
    have "{x \<in> set (leader_keys db'). snd x \<in> sn_sortition_id ` set (rows @ [sn'])} =
        {x \<in> set (leader_keys db). snd x \<in> sn_sortition_id ` set rows} \<union> set (key_rows ops (sn_sortition_id sn))"
      using old by (auto simp: rows(1) core dest: key_rows_snd) force+
    then show ?thesis by (simp add: registered_def image_Un)
  qed
  have px: "\<exists>p. view_at tx (last rows) PoxIdentifier = Some (VPoxId p)"
    "\<exists>a. view_at tx (last rows) PoxLastAnchor = Some a \<and> (a = VEmpty \<or> (\<exists>h. a = VHash h))"
    using k by (simp_all add: chain_keys_def same)
  have ready': "index_ready (handle_index tx)" using ready tx by simp
  note P = append_pox_view [where V = "view_at db' sn'", OF ready' tip _ px pox V]
  show rs: "holds_reward_set db' sn' (reward_after sn info recip rs)" if "holds_reward_set db (last rows) rs" for rs
    using P [of rs] that by (simp add: hold holds_reward_set_def)
  obtain rs where r: "holds_reward_set db (last rows) rs" using k by (auto simp: chain_keys_def)
  have a: "\<exists>p. view_at db' sn' PoxIdentifier = Some (VPoxId p)"
    "\<exists>a. view_at db' sn' PoxLastAnchor = Some a \<and> (a = VEmpty \<or> (\<exists>h. a = VHash h))" "\<exists>rs. holds_reward_set db' sn' rs"
    using P [of rs] r rs [OF r] by (auto simp: hold)
  have b: "view_at db' sn' (SortitionIdForBhh h) =
      map_option VHash (last_write (map (\<lambda>r. (sn_burn_header_hash r, sn_sortition_id r)) (rows @ [sn'])) h)" for h
    using k by (simp add: view at(1) core chain_keys_def split: option.split)
  have c: "view_at db' sn' LastSortition = map_option (\<lambda>r. VHash (sn_burn_header_hash r)) (find sn_sortition (rev (rows @ [sn'])))"
    using k by (simp add: view at(2) core chain_keys_def)
  have d: "view_at db' sn' (StacksBlockPresent w) =
      map_option VHash (last_write (map (\<lambda>r. (sn_winning_stacks_block_hash r, sn_sortition_id r)) (filter sn_sortition (rows @ [sn']))) w)" for w
    using k by (simp add: view at(3) core chain_keys_def split: option.split)
  have e: "view_at db' sn' (VrfKeyStatus k) = (if k \<in> registered db' (rows @ [sn']) then Some (VStatus 1) else None)" for k
    using \<open>chain_keys db rows\<close> by (simp add: view at(4) vrf_writes [where sid = "sn_sortition_id sn"] reg chain_keys_def)
  show max: "view_at db' sn' StacksBlockMaxArrivalIndex = Some (VNumber (get_max_arrival_index tx))"
    using at(6) [of ops] by (simp add: view)
  then have f: "view_at db' sn' StacksBlockMaxArrivalIndex \<in> insert None (range (Some \<circ> VNumber))" by simp
  show "chain_keys db' (rows @ [sn'])" using a b c d e f unfolding chain_keys_def by simp
qed

lemma inv_append:
  assumes inv: "sort_inv db" and parent: "parent \<in> set (snapshots db)" and n: "sn_sortition_id sn \<noteq> SENTINEL_ARRAY"
    and ok: "append_chain_tip_snapshot root (db\<lparr>chain_tip := sn_sortition_id parent\<rparr>) parent sn ops info recip = Ok (r, tx)"
    and commit: "handle_commit tx = Ok db'"
  shows "sort_inv db'"
    and "\<exists>sn'. same_core sn' sn \<and> snapshots db' = snapshots db @ [sn'] \<and>
      (\<forall>rows. last rows = parent \<and> stored_chain db rows \<longrightarrow> stored_chain db' (rows @ [sn'])) \<and>
      (\<forall>rs. holds_reward_set db parent rs \<longrightarrow> holds_reward_set db' sn' (reward_after sn info recip rs)) \<and>
      (\<exists>arrivals parent'. process_new_block_arrivals (db\<lparr>chain_tip := sn_sortition_id parent\<rparr>) parent = Ok (arrivals, parent') \<and>
        takes_tip sn' sn parent') \<and>
      view_at db' sn' StacksBlockMaxArrivalIndex = Some (VNumber (get_max_arrival_index db)) \<and>
      (\<forall>s \<in> set (snapshots db). view_at db' s = view_at db s) \<and>
      (\<forall>rows. stored_chain db rows \<and> chain_keys db rows \<longrightarrow> stored_chain db' rows)"
proof -
  let ?tx = "db\<lparr>chain_tip := sn_sortition_id parent\<rparr>"
  from inv have ready: "index_ready (handle_index db)" and d: "distinct (map sn_sortition_id (snapshots db))"
    "distinct (map sn_consensus_hash (snapshots db))" "snd ` set (leader_keys db) \<subseteq> sn_sortition_id ` set (snapshots db)"
    and chains: "\<And>s. s \<in> set (snapshots db) \<Longrightarrow> \<exists>rows. last rows = s \<and> stored_chain db rows \<and> chain_keys db rows"
    by (auto simp: sort_inv_def)
  from append_result [OF ok commit] obtain pox arrivals parent' sn' where a:
    "pox_entries ?tx parent sn info recip = Ok pox" "process_new_block_arrivals ?tx parent = Ok (arrivals, parent')"
    "index_put (handle_index db) (sn_sortition_id parent) (sn_sortition_id sn)
      (map fst (append_writes sn ops pox arrivals)) (map snd (append_writes sn ops pox arrivals)) = Ok (handle_index db')"
    "same_core sn' sn" "snapshots db' = snapshots db @ [sn']" "leader_keys db' = leader_keys db @ key_rows ops (sn_sortition_id sn)"
    "first_block_height db' = first_block_height db" "sn_block_height sn < BLOCK_HEIGHT_MAX"
    "sn_sortition_id sn \<notin> sn_sortition_id ` set (snapshots db)" "sn_consensus_hash sn \<notin> sn_consensus_hash ` set (snapshots db)"
    "sn_parent_burn_header_hash sn = sn_burn_header_hash parent" "sn_block_height parent + 1 = sn_block_height sn"
    "takes_tip sn' sn parent'"
    by auto
  have core: "sn_sortition_id sn' = sn_sortition_id sn" "sn_consensus_hash sn' = sn_consensus_hash sn" "sn_block_height sn' = sn_block_height sn"
    "sn_parent_burn_header_hash sn' = sn_parent_burn_header_hash sn" using a(4) by (simp_all add: same_core_def)
  have stored: "stored_chain db' (rows @ [sn'])" if "last rows = parent" "stored_chain db rows" for rows
    using new_chain_stored [OF ready, of sn' rows] n a that by (simp add: core)
  from chains [OF parent] obtain prows where p: "last prows = parent" "stored_chain db prows" "chain_keys db prows" by blast
  have "set prows \<subseteq> set (snapshots db)" using p(2) by (simp add: stored_chain_def)
  with a(9) d(3) have old: "sn_sortition_id sn \<notin> snd ` set (leader_keys db)" "sn_sortition_id sn \<notin> sn_sortition_id ` set prows" by auto
  note K = new_chain_keys [OF ready n _ _ _ _ _ a(6,4) old p(3), of ?tx info recip pox arrivals parent', unfolded p(1)]
  have keys: "chain_keys db' (prows @ [sn'])" using K(1) a(1-3) by simp
  have rs: "holds_reward_set db' sn' (reward_after sn info recip rs)" if "holds_reward_set db parent rs" for rs
    using K(2) a(1-3) that by simp
  have max: "view_at db' sn' StacksBlockMaxArrivalIndex = Some (VNumber (get_max_arrival_index db))"
    using K(3) a(1-3) by (simp add: get_max_arrival_index_def)
  have others: "view_at db' s = view_at db s" if "s \<in> set (snapshots db)" for s
  proof -
    have "sn_sortition_id s \<noteq> sn_sortition_id sn" using a(9) that by (metis image_eqI)
    then show ?thesis using append_view [OF ready n a(3)] by (simp add: view_at_def fun_eq_iff)
  qed
  have "\<exists>rows. last rows = s \<and> stored_chain db' rows \<and> chain_keys db' rows" if s: "s \<in> set (snapshots db')" for s
  proof (cases "s = sn'")
    case True
    then show ?thesis using stored [OF p(1,2)] keys by (intro exI [of _ "prows @ [sn']"]) simp
  next
    case False
    with s a(5) obtain rows where "last rows = s" "stored_chain db rows" "chain_keys db rows" using chains by auto
    then show ?thesis using old_chain_kept [OF ready n a(3,5,6,7)] by blast
  qed
  moreover have "index_ready (handle_index db')" by (rule marf_index.put_ready [OF ready n a(3)])
  moreover have "b \<in> sn_sortition_id ` set (snapshots db')" if "index_chain (handle_index db') b ps" for b ps
    using index_put_covers [OF ready n a(3) that] inv by (auto simp: sort_inv_def a(5) core)
  moreover have "snd ` set (leader_keys db') \<subseteq> sn_sortition_id ` set (snapshots db')"
    using d(3) by (auto simp: a(5,6) core dest: key_rows_snd)
  ultimately show "sort_inv db'" unfolding sort_inv_def using d(1,2) a(9,10) by (simp add: a(5) core)
  show "\<exists>sn'. same_core sn' sn \<and> snapshots db' = snapshots db @ [sn'] \<and>
      (\<forall>rows. last rows = parent \<and> stored_chain db rows \<longrightarrow> stored_chain db' (rows @ [sn'])) \<and>
      (\<forall>rs. holds_reward_set db parent rs \<longrightarrow> holds_reward_set db' sn' (reward_after sn info recip rs)) \<and>
      (\<exists>arrivals parent'. process_new_block_arrivals (db\<lparr>chain_tip := sn_sortition_id parent\<rparr>) parent = Ok (arrivals, parent') \<and>
        takes_tip sn' sn parent') \<and>
      view_at db' sn' StacksBlockMaxArrivalIndex = Some (VNumber (get_max_arrival_index db)) \<and>
      (\<forall>s \<in> set (snapshots db). view_at db' s = view_at db s) \<and>
      (\<forall>rows. stored_chain db rows \<and> chain_keys db rows \<longrightarrow> stored_chain db' rows)"
    using a(2,4,5,13) stored rs max others old_chain_kept [OF ready n a(3,5,6,7)] by blast
qed

section \<open>Accepting a Stacks block keeps the invariant\<close>

definition updates_rows :: "SortitionHandleTx \<Rightarrow> SortitionHandleTx \<Rightarrow> bool" where
  "updates_rows tx tx' \<longleftrightarrow> handle_index tx' = handle_index tx \<and> leader_keys tx' = leader_keys tx \<and> block_commits tx' = block_commits tx \<and>
     first_block_height tx' = first_block_height tx \<and> (\<exists>f. (\<forall>s. same_core (f s) s) \<and> snapshots tx' = map f (snapshots tx))"

lemma updates_rowsI: "(\<And>s. same_core (f s) s) \<Longrightarrow> updates_rows tx (tx\<lparr>snapshots := map f (snapshots tx)\<rparr>)"
  by (auto simp: updates_rows_def)

lemma updates_rows_trans: "updates_rows a b \<Longrightarrow> updates_rows b c \<Longrightarrow> updates_rows a c"
proof -
  assume "updates_rows a b" "updates_rows b c"
  then obtain f g where "\<forall>s. same_core (f s) s" "snapshots b = map f (snapshots a)" "\<forall>s. same_core (g s) s" "snapshots c = map g (snapshots b)"
    "handle_index c = handle_index a \<and> leader_keys c = leader_keys a \<and> block_commits c = block_commits a \<and> first_block_height c = first_block_height a"
    by (auto simp: updates_rows_def)
  then show "updates_rows a c" unfolding updates_rows_def
    by (intro conjI exI [of _ "g \<circ> f"]) (auto simp: same_core_def)
qed

lemma insert_pointer_updates: "insert_accepted_stacks_block_pointer tx a b c h = Ok tx' \<Longrightarrow> updates_rows tx tx'"
  by (auto simp: insert_accepted_stacks_block_pointer_def and_then_Ok_iff updates_rows_def same_core_def intro!: exI [of _ id])

lemma memoize_updates: "memoize_tip a b c h tx = Ok tx' \<Longrightarrow> updates_rows tx tx'"
  by (auto simp: memoize_tip_def and_then_Ok_iff same_core_def intro!: updates_rowsI)

lemma accepted_updates:
  assumes "set_stacks_block_accepted_at_tip tx tip ch parent bhh h = Ok tx'"
  shows "updates_rows tx tx'"
proof -
  define T where "T = tx\<lparr>snapshots := map (\<lambda>sn. if sn_consensus_hash sn = ch \<and> sn_winning_stacks_block_hash sn = bhh
      then sn\<lparr>sn_stacks_block_accepted := True, sn_stacks_block_height := h, sn_arrival_index := get_max_arrival_index tx + 1\<rparr> else sn) (snapshots tx)\<rparr>"
  have T: "updates_rows tx T" unfolding T_def by (rule updates_rowsI) (simp add: same_core_def)
  have step: "updates_rows tx tx'" if "insert_accepted_stacks_block_pointer tx2 a b c d = Ok tx'" "T = tx2 \<or> memoize_tip e b c d T = Ok tx2" for tx2 a b c d e
    using that T by (metis insert_pointer_updates memoize_updates updates_rows_trans)
  show ?thesis
    using assms unfolding set_stacks_block_accepted_at_tip_def Let_def T_def [symmetric]
    using T by (auto simp: and_then_Ok_iff split: if_splits option.splits intro: step)
qed

lemma find_map_core: "(\<And>s. sn_sortition (f s) = sn_sortition s) \<Longrightarrow> find sn_sortition (map f xs) = map_option f (find sn_sortition xs)"
  by (induction xs) auto

lemma inv_updates:
  assumes inv: "sort_inv db" and up: "updates_rows db db'"
  shows "sort_inv db'"
proof -
  from up obtain f where f: "\<And>s. same_core (f s) s" "snapshots db' = map f (snapshots db)"
    and same: "handle_index db' = handle_index db" "leader_keys db' = leader_keys db" "first_block_height db' = first_block_height db"
    by (auto simp: updates_rows_def)
  have core: "sn_sortition_id (f s) = sn_sortition_id s" "sn_burn_header_hash (f s) = sn_burn_header_hash s"
     "sn_parent_burn_header_hash (f s) = sn_parent_burn_header_hash s" "sn_block_height (f s) = sn_block_height s"
     "sn_consensus_hash (f s) = sn_consensus_hash s" "sn_sortition (f s) = sn_sortition s"
     "sn_winning_stacks_block_hash (f s) = sn_winning_stacks_block_hash s" for s
    using f(1) by (simp_all add: same_core_def)
  have view: "view_at db' (f s) = view_at db s" for s by (simp add: view_at_def same core)
  have filt: "filter sn_sortition (map f rows) = map f (filter sn_sortition rows)" for rows
    by (simp add: filter_map comp_def core)
  have "stored_chain db' (map f rows) \<and> chain_keys db' (map f rows)" if c: "stored_chain db rows" and k: "chain_keys db rows" for rows
  proof -
    have ne: "rows \<noteq> []" using c by (simp add: stored_chain_def)
    have "stored_chain db' (map f rows)"
      using c by (auto simp: stored_chain_def f(2) same core comp_def last_map hd_map)
    moreover have "chain_keys db' (map f rows)"
      using k ne by (simp add: chain_keys_def last_map view core comp_def holds_reward_set_def filt registered_def image_image same
          rev_map find_map_core option.map_comp)
    ultimately show ?thesis ..
  qed
  then have "\<exists>rows. last rows = f s \<and> stored_chain db' rows \<and> chain_keys db' rows" if "s \<in> set (snapshots db)" for s
    using inv that unfolding sort_inv_def by (metis last_map stored_chain_def)
  then show ?thesis using inv by (auto simp: sort_inv_def f(2) same core comp_def image_image)
qed

lemma inv_new:
  assumes "first_burn_hash \<noteq> SENTINEL_ARRAY" and n: "SortitionId_stubbed X first_burn_hash \<noteq> SENTINEL_ARRAY"
    and ok: "instantiate X root first_height first_burn_hash time = Ok db"
  shows "sort_inv db" and "\<exists>r. snapshots db = [snapshot_initial X first_height first_burn_hash time\<lparr>sn_index_root := r\<rparr>]"
    and "first_block_height db = first_height"
    and "s \<in> set (snapshots db) \<Longrightarrow> view_at db s StacksBlockMaxArrivalIndex = Some (VNumber 0)"
proof -
  define sn where "sn = snapshot_initial X first_height first_burn_hash time"
  define p where "p = sn\<lparr>sn_sortition_id := SENTINEL_ARRAY\<rparr>"
  define T where "T = empty_sortition_db first_height"
  have init: "is_initial sn" "sn_sortition_id sn = SortitionId_stubbed X first_burn_hash" "sn_consensus_hash sn = ConsensusHash_empty"
    "sn_block_height sn = first_height" "sn_sortition sn"
    by (simp_all add: sn_def snapshot_initial_def is_initial_def FIRST_BURNCHAIN_CONSENSUS_HASH_def ConsensusHash_empty_def)
  from ok obtain r tx parent' tx2 tx3 where o: "index_add_fork_info root T p sn [] None None = Ok (r, tx, parent')"
    "insert_block_snapshot tx (sn\<lparr>sn_index_root := r\<rparr>) = Ok tx2"
    "store_transition_ops tx2 (sn_sortition_id sn) transition_noop = Ok tx3" "handle_commit tx3 = Ok db"
    unfolding instantiate_def Let_def sn_def [symmetric] p_def [symmetric] T_def [symmetric] by (auto simp: and_then_Ok_iff)
  let ?sn = "sn\<lparr>sn_index_root := r\<rparr>"
  note ins = insert_snapshot_rows [OF o(2)]
  have tx3: "handle_index tx3 = handle_index tx" "snapshots tx3 = snapshots tx2" "leader_keys tx3 = leader_keys tx"
    "first_block_height tx3 = first_block_height tx"
    using o(3) ins by (auto simp: store_transition_ops_def split: if_splits)
  from o(4) obtain idx where c: "index_commit (handle_index tx) = Ok idx" "db = tx3\<lparr>handle_index := idx\<rparr>"
    by (auto simp: handle_commit_def and_then_Ok_iff tx3)
  from fork_info_result [OF o(1) c(1)] obtain pox arrivals where f: "pox_entries T p sn None None = Ok pox"
    "process_new_block_arrivals T p = Ok (arrivals, parent')"
    "index_put (handle_index T) SENTINEL_ARRAY (sn_sortition_id sn)
      (map fst (append_writes sn [] pox arrivals)) (map snd (append_writes sn [] pox arrivals)) = Ok (handle_index db)"
    "tx = T\<lparr>handle_index := handle_index tx, chain_tip := sn_sortition_id sn\<rparr>" by (auto simp: p_def c(2))
  have "index_ready \<lparr>index_tx = empty_marf :: (db_key, db_value) MarfTransaction, block_linkage = None\<rparr>"
    using reachable_inv [OF reach_empty] by (auto simp: index_ready_def empty_marf_def read_trie_def)
  then have ready: "index_ready (handle_index T)" by (simp add: T_def empty_sortition_db_def)
  have empty: "snapshots tx = []" "leader_keys tx = []" "first_block_height tx = first_height"
    using arg_cong [OF f(4), of snapshots] arg_cong [OF f(4), of leader_keys] arg_cong [OF f(4), of first_block_height]
    by (simp_all add: T_def empty_sortition_db_def)
  have n': "sn_sortition_id sn \<noteq> SENTINEL_ARRAY" using n init by simp
  have none_stored: "read_trie (storage (index_tx (handle_index T))) b = None" for b
    by (simp add: T_def empty_sortition_db_def empty_marf_def read_trie_def)
  have none: "index_view (handle_index T) b k = None" for b k
    by (simp add: T_def empty_sortition_db_def index_view_def empty_marf_def read_trie_def)
  have view: "view_at db ?sn k = last_write (append_writes sn [] pox arrivals) k" for k
    by (simp add: view_at_def append_view [OF ready n' f(3)] none split: option.split)
  note at = append_writes_at [OF f(1,2), where ops = "[]"]
  have pox: "pox = [(PoxIdentifier, VPoxId PoxId_initial), (PoxRewardSetSize, VSize 0), (PoxLastAnchor, VEmpty)]"
    using f(1) init(1) by (simp add: pox_entries_def reward_set_size_to_string_def)
  have row: "snapshots db = [?sn]" "leader_keys db = []" "first_block_height db = first_height" using ins empty tx3 by (simp_all add: c(2))
  have "stored_chain db [?sn]"
    using marf_index.put_chain_first [OF ready n' f(3)] ins init by (simp add: stored_chain_def row)
  moreover have "chain_keys db [?sn]"
  proof -
    have "last_write pox PoxIdentifier = Some (VPoxId PoxId_initial)" "last_write pox PoxRewardSetSize = Some (VSize 0)"
      "last_write pox PoxLastAnchor = Some VEmpty" by (simp_all add: pox)
    then have "\<exists>p. view_at db ?sn PoxIdentifier = Some (VPoxId p)"
      "\<exists>a. view_at db ?sn PoxLastAnchor = Some a \<and> (a = VEmpty \<or> (\<exists>h. a = VHash h))" "holds_reward_set db ?sn []"
      by (simp_all add: view at(5) holds_reward_set_def)
    moreover have "view_at db ?sn StacksBlockMaxArrivalIndex \<in> insert None (range (Some \<circ> VNumber))" using at(6) by (auto simp: view)
    ultimately show ?thesis unfolding chain_keys_def by (auto simp: view at(1-4) init registered_def row)
  qed
  moreover have "index_ready (handle_index db)" by (rule marf_index.put_ready [OF ready n' f(3)])
  moreover have "b = sn_sortition_id sn" if "index_chain (handle_index db) b ps" for b ps
    using index_put_covers [OF ready n' f(3) that] index_chain_stored none_stored by blast
  ultimately show "sort_inv db" by (auto simp: sort_inv_def row intro!: exI [of _ "[?sn]"])
  show "\<exists>r. snapshots db = [snapshot_initial X first_height first_burn_hash time\<lparr>sn_index_root := r\<rparr>]"
    using row(1) unfolding sn_def by blast
  show "first_block_height db = first_height" by (rule row(3))
  have "get_max_arrival_index T = 0" by (simp add: T_def empty_sortition_db_def get_max_arrival_index_def)
  then have "view_at db ?sn StacksBlockMaxArrivalIndex = Some (VNumber 0)" using at(6) by (simp add: view)
  then show "view_at db s StacksBlockMaxArrivalIndex = Some (VNumber 0)" if "s \<in> set (snapshots db)" using that row(1) by simp
qed

lemma transition_updates: "store_transition_ops db sid tr = Ok db' \<Longrightarrow> updates_rows db db'"
  by (auto simp: store_transition_ops_def updates_rows_def same_core_def intro!: exI [of _ id] split: if_splits)

lemma invalidate_updates: "invalidate_descendants_of db h = Some db' \<Longrightarrow> updates_rows db db'"
  by (drule invalidate_marks [of "[h]", folded invalidate_descendants_of_def])
    (auto simp: marks_invalid_def same_core_def intro!: updates_rowsI)

lemma handle_updates: "updates_rows db (db\<lparr>chain_tip := tip\<rparr>)"
  by (auto simp: updates_rows_def same_core_def intro!: exI [of _ id])

text \<open>Every step that is not an append only updates rows.\<close>

lemma step_updates:
  assumes "sortition_step root db db'"
    and "\<And>parent sn ops info recip r tx. parent \<in> set (snapshots db) \<Longrightarrow> sn_sortition_id sn \<noteq> SENTINEL_ARRAY \<Longrightarrow>
      \<not> sn_stacks_block_accepted sn \<Longrightarrow> sn_arrival_index sn = 0 \<Longrightarrow>
      append_chain_tip_snapshot root (db\<lparr>chain_tip := sn_sortition_id parent\<rparr>) parent sn ops info recip = Ok (r, tx) \<Longrightarrow>
      handle_commit tx = Ok db' \<Longrightarrow> P"
    and "updates_rows db db' \<Longrightarrow> P"
  shows P
  using assms(1)
proof cases
  case step_append
  then show ?thesis using assms(2) by blast
next
  case (step_accept tip ch parent_bhh bhh height)
  then have "updates_rows (db\<lparr>chain_tip := tip\<rparr>) db'"
    by (auto simp: set_stacks_block_accepted_def and_then_Ok_iff intro: accepted_updates)
  then show ?thesis using assms(3) updates_rows_trans handle_updates by blast
qed (use assms(3) transition_updates invalidate_updates in blast)+

theorem reachable_sort_inv: "sortition_reachable X root db \<Longrightarrow> sort_inv db"
proof (induction rule: sortition_reachable.induct)
  case (reach_next db db')
  from reach_next(2) show ?case
    by (rule step_updates) (use inv_append(1) [OF reach_next.IH] inv_updates [OF reach_next.IH] in blast)+
qed (rule inv_new(1))

end
