(* ===== verification/SortitionQueries.thy ===== *)
theory SortitionQueries
  imports SortitionInv
begin

text \<open>
  The fork-aware queries of the sortition database are correct in every reachable database: ancestors by
  height, consensus-hash freshness, the last sortition, winning blocks and VRF keys of a fork, and the
  reward set as it is consumed.
\<close>

section \<open>Rows of a chain\<close>

lemma expect_simps [simp]: "expect (Some x) = Ok x" "expect None = Panic" "ok_or (Some x) e = Ok x" "ok_or None e = Err e"
  by (simp_all add: expect_def ok_or_def)

lemma assert_that_simps [simp]: "assert_that True = Ok ()" "assert_that False = Panic"
  by (simp_all add: assert_that_def)

lemma filter_key_unique: "distinct (map f xs) \<Longrightarrow> x \<in> set xs \<Longrightarrow> filter (\<lambda>y. f y = f x) xs = [x]"
proof (induction xs)
  case (Cons y ys)
  show ?case
  proof (cases "x = y")
    case True
    with Cons.prems have "f x \<notin> f ` set ys" by simp
    then have "\<forall>z \<in> set ys. f z \<noteq> f x" by (metis image_eqI)
    then have "filter (\<lambda>z. f z = f x) ys = []" by (simp add: filter_empty_conv)
    with True show ?thesis by simp
  next
    case False
    with Cons show ?thesis by auto
  qed
qed simp

lemma in_set_drop: "x \<in> set (drop k xs) \<longleftrightarrow> (\<exists>j. k \<le> j \<and> j < length xs \<and> xs ! j = x)"
proof
  assume "x \<in> set (drop k xs)"
  then obtain i where "i < length xs - k" "drop k xs ! i = x" by (auto simp: in_set_conv_nth)
  then show "\<exists>j. k \<le> j \<and> j < length xs \<and> xs ! j = x" by (intro exI [of _ "k + i"]) auto
next
  assume "\<exists>j. k \<le> j \<and> j < length xs \<and> xs ! j = x"
  then obtain j where "k \<le> j" "j < length xs" "xs ! j = x" by blast
  then show "x \<in> set (drop k xs)" unfolding in_set_conv_nth by (intro exI [of _ "j - k"]) auto
qed

lemma snapshot_of_id:
  assumes "sort_inv db" and "r \<in> set (snapshots db)"
  shows "db_get_block_snapshot db (sn_sortition_id r) = Ok (Some r)"
    and "get_block_snapshot_consensus db (sn_consensus_hash r) = Ok (Some r)"
  using assms filter_key_unique [of sn_sortition_id "snapshots db" r] filter_key_unique [of sn_consensus_hash "snapshots db" r]
  by (simp_all add: sort_inv_def db_get_block_snapshot_def get_block_snapshot_consensus_def query_row_panic_def)

lemma chain_ancestry: "stored_chain db rows \<Longrightarrow>
    ancestry (read_trie (storage (index_tx (handle_index db)))) (sn_sortition_id (last rows)) (map sn_sortition_id rows)"
  unfolding stored_chain_def index_chain_def by blast

lemma chain_row: "stored_chain db rows \<Longrightarrow> i < length rows \<Longrightarrow> rows ! i \<in> set (snapshots db)"
  by (auto simp: stored_chain_def)

lemma chain_distinct:
  assumes "sort_inv db" and "stored_chain db rows"
  shows "distinct rows" and "length rows \<le> 2 ^ 32"
proof -
  have "index_chain (handle_index db) (sn_sortition_id (last rows)) (map sn_sortition_id rows)" "index_ready (handle_index db)"
    using assms by (simp_all add: stored_chain_def sort_inv_def)
  from index_chain_ok [OF this(2,1)] show "distinct rows" "length rows \<le> 2 ^ 32" by (auto simp: distinct_map)
qed

lemma chain_unique: "stored_chain db rows \<Longrightarrow> stored_chain db rows' \<Longrightarrow> sort_inv db \<Longrightarrow> last rows = last rows' \<Longrightarrow> rows = rows'"
proof -
  assume a: "stored_chain db rows" "stored_chain db rows'" "sort_inv db" "last rows = last rows'"
  have "map sn_sortition_id rows = map sn_sortition_id rows'"
    using anc_det [OF chain_ancestry [OF a(2)]] chain_ancestry [OF a(1)] a(4) by metis
  moreover have "inj_on sn_sortition_id (set rows \<union> set rows')"
    using a(1-3) unfolding stored_chain_def sort_inv_def distinct_map by (meson Un_least inj_on_subset)
  ultimately show ?thesis by (rule map_inj_on)
qed

lemma chain_prefix:
  assumes inv: "sort_inv db" and c: "stored_chain db rows" and i: "i < length rows"
  shows "stored_chain db (take (Suc i) rows) \<and> chain_keys db (take (Suc i) rows)"
proof -
  obtain qs where q: "last qs = rows ! i" "stored_chain db qs" "chain_keys db qs"
    using inv chain_row [OF c i] unfolding sort_inv_def by blast
  let ?rd = "read_trie (storage (index_tx (handle_index db)))"
  have "ancestry ?rd (sn_sortition_id (rows ! i)) (map sn_sortition_id qs)"
    using chain_ancestry [OF q(2)] q(1) by simp
  moreover have "ancestry ?rd (map sn_sortition_id rows ! i) (take (Suc i) (map sn_sortition_id rows))"
    using anc_prefix [OF chain_ancestry [OF c]] i by simp
  then have "ancestry ?rd (sn_sortition_id (rows ! i)) (map sn_sortition_id (take (Suc i) rows))" using i by (simp add: take_map)
  ultimately have "map sn_sortition_id qs = map sn_sortition_id (take (Suc i) rows)" using anc_det by fast
  moreover have "inj_on sn_sortition_id (set qs \<union> set (take (Suc i) rows))"
    using inv c q(2) set_take_subset [of "Suc i" rows] unfolding stored_chain_def sort_inv_def distinct_map
    by (meson Un_least inj_on_subset subset_trans)
  ultimately have "qs = take (Suc i) rows" by (rule map_inj_on)
  with q show ?thesis by simp
qed

section \<open>Queries on a chain\<close>

definition height_index :: "SortitionHandleTx \<Rightarrow> u64 \<Rightarrow> nat" where
  "height_index db h = unat h - unat (first_block_height db)"

definition row_at :: "SortitionHandleTx \<Rightarrow> BlockSnapshot list \<Rightarrow> u64 \<Rightarrow> BlockSnapshot option" where
  "row_at db rows h =
     (if first_block_height db \<le> h \<and> height_index db h < length rows then Some (rows ! height_index db h) else None)"

lemma ancestor_sort_id:
  assumes inv: "sort_inv db" and c: "stored_chain db rows" and h: "unat h < unat (first_block_height db) + 2 ^ 32"
  shows "get_ancestor_sort_id db h (sn_sortition_id (last rows)) = Ok (map_option sn_sortition_id (row_at db rows h))"
proof (cases "h < first_block_height db")
  case True
  then have "\<not> first_block_height db \<le> h" by simp
  with True show ?thesis by (simp add: get_ancestor_sort_id_def get_adjusted_block_height_def row_at_def)
next
  case False
  then have le: "first_block_height db \<le> h" by simp
  then have u: "unat (h - first_block_height db) = height_index db h"
    by (simp add: height_index_def unat_sub)
  have lt: "height_index db h < 2 ^ 32" using h by (simp add: height_index_def)
  have ready: "index_ready (handle_index db)" and
    ch: "index_chain (handle_index db) (sn_sortition_id (last rows)) (map sn_sortition_id rows)"
    using inv c by (simp_all add: sort_inv_def stored_chain_def)
  from marf_index.ancestor_nth [OF ready ch, of "h - first_block_height db"] lt le leD [OF le]
  show ?thesis by (simp add: get_ancestor_sort_id_def get_adjusted_block_height_def row_at_def u)
qed

lemma ancestor_snapshot:
  assumes inv: "sort_inv db" and c: "stored_chain db rows" and h: "unat h < unat (first_block_height db) + 2 ^ 32" "h < BLOCK_HEIGHT_MAX"
  shows "get_ancestor_snapshot db h (sn_sortition_id (last rows)) = Ok (row_at db rows h)"
  using snapshot_of_id(1) [OF inv chain_row [OF c]] h(2)
  by (simp add: get_ancestor_snapshot_def ancestor_sort_id [OF inv c h(1)] assert_that_def row_at_def)

lemma row_at_height:
  assumes "stored_chain db rows" and "i < length rows"
  shows "row_at db rows (sn_block_height (rows ! i)) = Some (rows ! i)"
proof -
  have "unat (sn_block_height (rows ! i)) = unat (first_block_height db) + i" using assms by (simp add: stored_chain_def)
  then show ?thesis using assms(2) by (simp add: row_at_def height_index_def word_le_nat_alt)
qed

lemma last_write_find: "last_write (map (\<lambda>r. (f r, g r)) rows) k = map_option g (find (\<lambda>r. f r = k) (rev rows))"
proof -
  have "map_of (map (\<lambda>r. (f r, g r)) xs) k = map_option g (find (\<lambda>r. f r = k) xs)" for xs by (induction xs) auto
  then show ?thesis by (simp add: last_write_def rev_map)
qed

lemma find_SomeD: "find P xs = Some x \<Longrightarrow> x \<in> set xs \<and> P x"
  by (induction xs) (auto split: if_splits)

lemma snapshot_by_burn_hash:
  assumes inv: "sort_inv db" and c: "stored_chain db rows" and k: "chain_keys db rows"
  shows "tx_get_block_snapshot db h (sn_sortition_id (last rows)) = Ok (find (\<lambda>r. sn_burn_header_hash r = h) (rev rows))"
proof -
  have ready: "index_ready (handle_index db)" using inv by (simp add: sort_inv_def)
  have "view_at db (last rows) (SortitionIdForBhh h) = map_option VHash (map_option sn_sortition_id (find (\<lambda>r. sn_burn_header_hash r = h) (rev rows)))"
    using k by (simp add: chain_keys_def last_write_find)
  moreover have "r \<in> set (snapshots db)" if "find (\<lambda>r. sn_burn_header_hash r = h) (rev rows) = Some r" for r
    using find_SomeD [OF that] c by (auto simp: stored_chain_def)
  ultimately show ?thesis using snapshot_of_id(1) [OF inv]
    by (auto simp: tx_get_block_snapshot_def tx_get_view [OF ready] split: option.split)
qed

lemma find_filter: "find P xs = (case filter P xs of [] \<Rightarrow> None | x # _ \<Rightarrow> Some x)"
  by (induction xs) auto

lemma find_distinct: "distinct (map f xs) \<Longrightarrow> x \<in> set xs \<Longrightarrow> find (\<lambda>y. f y = f x) xs = Some x"
  by (simp add: find_filter filter_key_unique)

lemma snapshot_of_burn_hash:
  assumes "sort_inv db" and "stored_chain db rows" and "chain_keys db rows" and "distinct (map sn_burn_header_hash rows)" and "r \<in> set rows"
  shows "tx_get_block_snapshot db (sn_burn_header_hash r) (sn_sortition_id (last rows)) = Ok (Some r)"
proof -
  have "find (\<lambda>x. sn_burn_header_hash x = sn_burn_header_hash r) (rev rows) = Some r"
    using find_distinct [of sn_burn_header_hash "rev rows" r] assms(4,5) by (simp add: rev_map [symmetric])
  then show ?thesis by (simp add: snapshot_by_burn_hash [OF assms(1-3)])
qed

lemma first_snapshot:
  assumes inv: "sort_inv db" and c: "stored_chain db rows"
  shows "get_first_block_snapshot db = Ok (hd rows)"
proof -
  have r: "hd rows \<in> set (snapshots db)" "sn_consensus_hash (hd rows) = ConsensusHash_empty" using c by (auto simp: stored_chain_def)
  have "filter (\<lambda>sn. sn_consensus_hash sn = ConsensusHash_empty) (snapshots db) = [hd rows]"
    using filter_key_unique [of sn_consensus_hash "snapshots db" "hd rows"] inv r by (simp add: sort_inv_def)
  then show ?thesis by (simp add: get_first_block_snapshot_def query_row_panic_def)
qed

text \<open>A handle on the chain \<open>rows\<close>.\<close>

definition handle_on :: "SortitionHandleTx \<Rightarrow> BlockSnapshot list \<Rightarrow> bool" where
  "handle_on tx rows \<longleftrightarrow> sort_inv tx \<and> stored_chain tx rows \<and> chain_keys tx rows \<and> chain_tip tx = sn_sortition_id (last rows)"

lemma view_handle [simp]: "view_at (db\<lparr>chain_tip := t\<rparr>) = view_at db"
  by (simp add: view_at_def fun_eq_iff)

lemma holds_handle [simp]: "holds_reward_set (db\<lparr>chain_tip := t\<rparr>) = holds_reward_set db"
  by (simp add: holds_reward_set_def fun_eq_iff)

lemma registered_handle [simp]: "registered (db\<lparr>chain_tip := t\<rparr>) = registered db"
  by (simp add: registered_def fun_eq_iff)

lemma stored_handle [simp]: "stored_chain (db\<lparr>chain_tip := t\<rparr>) = stored_chain db"
  by (simp add: stored_chain_def fun_eq_iff)

lemma keys_handle [simp]: "chain_keys (db\<lparr>chain_tip := t\<rparr>) = chain_keys db"
  by (simp add: chain_keys_def fun_eq_iff)

lemma inv_handle [simp]: "sort_inv (db\<lparr>chain_tip := t\<rparr>) = sort_inv db"
  by (simp add: sort_inv_def)

lemma handle_exists:
  assumes "sort_inv db" and "sn \<in> set (snapshots db)"
  shows "\<exists>rows. last rows = sn \<and> handle_on (db\<lparr>chain_tip := sn_sortition_id sn\<rparr>) rows"
  using assms by (auto simp: sort_inv_def handle_on_def)

lemma check_fresh_loop_eq:
  assumes h: "handle_on tx rows" and d: "distinct (map sn_burn_header_hash rows)" and i: "i < length rows" "n \<le> i"
  shows "check_fresh_loop tx check n (rows ! i) = Ok (\<exists>j. i - n \<le> j \<and> j < i \<and> check (sn_consensus_hash (rows ! j)))"
  using i
proof (induction n arbitrary: i)
  case (Suc n)
  then obtain k where k: "i = Suc k" by (cases i) auto
  have link: "sn_parent_burn_header_hash (rows ! i) = sn_burn_header_hash (rows ! k)"
    using h Suc.prems k by (simp add: handle_on_def stored_chain_def)
  have "tx_get_block_snapshot tx (sn_burn_header_hash (rows ! k)) (chain_tip tx) = Ok (Some (rows ! k))"
    using snapshot_of_burn_hash [of tx rows "rows ! k"] h d Suc.prems k by (simp add: handle_on_def)
  then have "check_fresh_loop tx check (Suc n) (rows ! i) =
      (if check (sn_consensus_hash (rows ! k)) then Ok True else check_fresh_loop tx check n (rows ! k))"
    by (simp add: link)
  also have "\<dots> = Ok (\<exists>j. i - Suc n \<le> j \<and> j < i \<and> check (sn_consensus_hash (rows ! j)))"
    using Suc.IH [of k] Suc.prems k by (auto simp: less_Suc_eq) (use diff_le_self in blast)
  finally show ?case .
qed simp

lemma check_fresh_eq:
  assumes h: "handle_on tx rows" and d: "distinct (map sn_burn_header_hash rows)"
  shows "check_fresh_consensus_hash tx lifetime check =
    Ok (\<exists>r \<in> set (drop (length rows - Suc (unat lifetime)) rows). check (sn_consensus_hash r))"
proof -
  from h have c: "stored_chain tx rows" and inv: "sort_inv tx" and tip: "chain_tip tx = sn_sortition_id (last rows)"
    by (simp_all add: handle_on_def)
  have ne: "rows \<noteq> []" and ht: "\<And>i. i < length rows \<Longrightarrow> unat (sn_block_height (rows ! i)) = unat (first_block_height tx) + i"
    using c by (simp_all add: stored_chain_def)
  define m where "m = length rows - 1"
  have m: "length rows = Suc m" "last rows = rows ! m" "hd rows = rows ! 0" using ne by (simp_all add: m_def last_conv_nth hd_conv_nth)
  have hm: "unat (sn_block_height (rows ! m)) = unat (first_block_height tx) + m" "unat (sn_block_height (rows ! 0)) = unat (first_block_height tx)"
    using ht [of m] ht [of 0] m(1) by simp_all
  define old where "old = (let o1 = (if sn_block_height (rows ! m) < lifetime then 0 else sn_block_height (rows ! m) - lifetime)
      in if o1 < sn_block_height (rows ! 0) then sn_block_height (rows ! 0) else o1)"
  have n: "unat (sn_block_height (rows ! m)) - unat old = min m (unat lifetime)"
    using hm unfolding old_def Let_def by (auto simp: word_less_nat_alt unat_sub word_le_nat_alt not_less min_def)
  have "check_fresh_consensus_hash tx lifetime check =
      (if check (sn_consensus_hash (rows ! m)) then Ok True else check_fresh_loop tx check (min m (unat lifetime)) (rows ! m))"
    unfolding check_fresh_consensus_hash_def first_snapshot [OF inv c] tip
    using snapshot_of_id(1) [OF inv chain_row [OF c, of m]] m n
    by (simp add: old_def [unfolded Let_def, symmetric] ok_or_def Let_def)
  also have "\<dots> = Ok (\<exists>j. m - min m (unat lifetime) \<le> j \<and> j < length rows \<and> check (sn_consensus_hash (rows ! j)))"
    using check_fresh_loop_eq [OF h d, of m "min m (unat lifetime)"] m(1) by (auto simp: less_Suc_eq) (use diff_le_self in blast)
  also have "(\<exists>j. m - min m (unat lifetime) \<le> j \<and> j < length rows \<and> check (sn_consensus_hash (rows ! j))) \<longleftrightarrow>
      (\<exists>r \<in> set (drop (length rows - Suc (unat lifetime)) rows). check (sn_consensus_hash r))"
  proof -
    have e: "m - min m (unat lifetime) = length rows - Suc (unat lifetime)" unfolding m(1) by (simp add: min_def)
    show ?thesis unfolding Bex_def in_set_drop e by blast
  qed
  finally show ?thesis .
qed

lemma last_sortition_eq:
  assumes h: "handle_on tx rows" and d: "distinct (map sn_burn_header_hash rows)" and i: "i < length rows"
  shows "get_last_snapshot_with_sortition tx (sn_block_height (rows ! i)) =
    Ok (case find sn_sortition (rev (take (Suc i) rows)) of Some r \<Rightarrow> r | None \<Rightarrow> hd rows)"
proof -
  from h have c: "stored_chain tx rows" and inv: "sort_inv tx" and k: "chain_keys tx rows" and tip: "chain_tip tx = sn_sortition_id (last rows)"
    by (simp_all add: handle_on_def)
  have ht: "unat (sn_block_height (rows ! i)) = unat (first_block_height tx) + i" "sn_block_height (rows ! i) < BLOCK_HEIGHT_MAX"
    using c i by (simp_all add: stored_chain_def)
  have lt: "unat (sn_block_height (rows ! i)) < unat (first_block_height tx) + 2 ^ 32"
    using chain_distinct(2) [OF inv c] ht(1) i by simp
  have anc: "get_ancestor_sort_id tx (sn_block_height (rows ! i)) (chain_tip tx) = Ok (Some (sn_sortition_id (rows ! i)))"
    using ancestor_sort_id [OF inv c lt] row_at_height [OF c i] tip by simp
  have ready: "index_ready (handle_index tx)" using inv by (simp add: sort_inv_def)
  have last: "last (take (Suc i) rows) = rows ! i" using i by (simp add: take_Suc_conv_app_nth)
  have "view_at tx (rows ! i) LastSortition = map_option (\<lambda>r. VHash (sn_burn_header_hash r)) (find sn_sortition (rev (take (Suc i) rows)))"
    using chain_prefix [OF inv c i] unfolding chain_keys_def last by blast
  then have get: "tx_get_indexed tx (sn_sortition_id (rows ! i)) LastSortition =
      Ok (map_option (\<lambda>r. VHash (sn_burn_header_hash r)) (find sn_sortition (rev (take (Suc i) rows))))"
    by (simp add: tx_get_view [OF ready])
  show ?thesis
  proof (cases "find sn_sortition (rev (take (Suc i) rows))")
    case None
    with ht(2) anc get first_snapshot [OF inv c] show ?thesis by (simp add: get_last_snapshot_with_sortition_def)
  next
    case (Some r)
    from find_SomeD [OF Some] have "r \<in> set rows" by (auto dest: in_set_takeD)
    from snapshot_of_burn_hash [OF inv c k d this] ht(2) anc get Some tip
    show ?thesis by (simp add: get_last_snapshot_with_sortition_def)
  qed
qed

lemma fork_keys_eq:
  assumes h: "handle_on tx rows"
  shows "expects_stacks_block_in_fork tx w = Ok (\<exists>r \<in> set rows. sn_sortition r \<and> sn_winning_stacks_block_hash r = w)"
    and "has_VRF_public_key tx key = Ok (key \<in> registered tx rows)"
    and "lk_block_height op < BLOCK_HEIGHT_MAX \<Longrightarrow> is_leader_key_consumed tx op = Ok False"
proof -
  from h have ready: "index_ready (handle_index tx)" and k: "chain_keys tx rows" and tip: "chain_tip tx = sn_sortition_id (last rows)"
    by (simp_all add: handle_on_def sort_inv_def)
  have "view_at tx (last rows) (StacksBlockPresent w) \<noteq> None \<longleftrightarrow> (\<exists>r \<in> set rows. sn_sortition r \<and> sn_winning_stacks_block_hash r = w)"
    using k by (auto simp: chain_keys_def last_write_def map_of_eq_None_iff rev_map [symmetric] image_iff)
  then show "expects_stacks_block_in_fork tx w = Ok (\<exists>r \<in> set rows. sn_sortition r \<and> sn_winning_stacks_block_hash r = w)"
    by (simp add: expects_stacks_block_in_fork_def tip tx_get_view [OF ready])
  have v: "view_at tx (last rows) (VrfKeyStatus key) = (if key \<in> registered tx rows then Some (VStatus 1) else None)" for key
    using k by (simp add: chain_keys_def)
  show "has_VRF_public_key tx key = Ok (key \<in> registered tx rows)"
    by (simp add: has_VRF_public_key_def tip tx_get_view [OF ready] v)
  show "is_leader_key_consumed tx op = Ok False" if "lk_block_height op < BLOCK_HEIGHT_MAX"
    using that by (simp add: is_leader_key_consumed_def tip tx_get_view [OF ready] v)
qed

lemma chain_handle:
  assumes inv: "sort_inv db" and c: "stored_chain db rows"
  shows "handle_on (db\<lparr>chain_tip := sn_sortition_id (last rows)\<rparr>) rows"
proof -
  have "last rows \<in> set (snapshots db)" using c by (auto simp: stored_chain_def last_in_set)
  then obtain qs where "last qs = last rows" "stored_chain db qs" "chain_keys db qs" using inv unfolding sort_inv_def by blast
  then have "chain_keys db rows" using chain_unique [OF c _ inv] by metis
  with inv c show ?thesis by (simp add: handle_on_def)
qed

section \<open>Consuming the reward set\<close>

definition available_rewards :: "PoxAnchorBlockStatus option \<Rightarrow> StacksAddress list \<Rightarrow> StacksAddress list" where
  "available_rewards info rs =
     (case info of None \<Rightarrow> rs | Some i \<Rightarrow> (case known_selected_anchor_block i of Some reward_set \<Rightarrow> reward_set | None \<Rightarrow> []))"

lemma choose_index_Ok: "choose_index gen seed n = Ok i \<Longrightarrow> i < n"
  by (auto simp: choose_index_def Let_def split: if_splits)

lemma u16_try_from_Ok: "u16_try_from x = Ok y \<Longrightarrow> unat y = unat x"
  by (auto simp: u16_try_from_def unsigned_ucast_eq take_bit_eq_mod split: if_splits)

lemma pick_recipient_Ok:
  assumes ready: "index_ready (handle_index tx)" and tip: "chain_tip tx = sn_sortition_id sn" and rs: "holds_reward_set tx sn rs"
    and ok: "pick_recipient gen tx seed info = Ok ri"
  shows "case ri of
      None \<Rightarrow> info = None \<or> available_rewards info rs = []
    | Some r \<Rightarrow> unat (snd (recipient r)) < length (available_rewards info rs) \<and>
        available_rewards info rs ! unat (snd (recipient r)) = fst (recipient r)"
proof (cases info)
  case None
  have len: "length rs < 2 ^ 16" using rs by (simp add: holds_reward_set_def)
  note rd = reward_set_reads [OF ready tip rs]
  have "unat (snd (recipient r)) < length rs \<and> rs ! unat (snd (recipient r)) = fst (recipient r)" if "ri = Some r" for r
  proof -
    from ok None that obtain anchor c ix addr where o: "choose_index gen seed (ucast (of_nat (length rs) :: u16)) = (Ok c :: (db_error, u32) res)"
      "u16_try_from c = (Ok ix :: (db_error, u16) res)" "get_reward_set_entry tx ix = Ok addr" "r = \<lparr>anchor_block = anchor, recipient = (addr, ix)\<rparr>"
      by (auto simp: pick_recipient_def and_then_Ok_iff rd(1) split: option.splits if_splits)
    have "unat ix < length rs"
      using choose_index_Ok [OF o(1)] u16_try_from_Ok [OF o(2)] len by (simp add: word_less_nat_alt unsigned_ucast_eq take_bit_eq_mod unat_of_nat)
    with rd(2) [of "unat ix"] o(3,4) show ?thesis by simp
  qed
  with None show ?thesis by (simp add: available_rewards_def split: option.split)
next
  case (Some i)
  show ?thesis
  proof (cases i)
    case (SelectedAndKnown anchor reward_set)
    have "unat (snd (recipient r)) < length reward_set \<and> reward_set ! unat (snd (recipient r)) = fst (recipient r)" if "ri = Some r" for r
    proof -
      from ok Some SelectedAndKnown that obtain c ix addr where o: "nth_res reward_set (unat c) = (Ok addr :: (db_error, _) res)"
        "u16_try_from c = (Ok ix :: (db_error, u16) res)" "r = \<lparr>anchor_block = anchor, recipient = (addr, ix)\<rparr>"
        by (auto simp: pick_recipient_def and_then_Ok_iff split: if_splits)
      with u16_try_from_Ok [OF o(2)] show ?thesis by (auto simp: nth_res_def split: if_splits)
    qed
    moreover have "reward_set = []" if "ri = None"
      using ok Some SelectedAndKnown that by (auto simp: pick_recipient_def and_then_Ok_iff split: if_splits)
    ultimately show ?thesis using Some SelectedAndKnown by (simp add: available_rewards_def split: option.split)
  qed (use ok Some in \<open>simp_all add: pick_recipient_def available_rewards_def split: option.split\<close>)
qed

lemma mset_take_drop: "i < length xs \<Longrightarrow> add_mset (xs ! i) (mset (take i xs @ drop (Suc i) xs)) = mset xs"
  by (metis add_mset_commute id_take_nth_drop mset.simps(2) mset_append union_mset_add_mset_right append_Cons union_code)

lemma mset_swap_remove:
  assumes "i < length xs"
  shows "add_mset (xs ! i) (mset ((butlast xs)[i := last xs])) = mset xs"
proof -
  from assms obtain ys z where xs: "xs = ys @ [z]" by (cases xs rule: rev_cases) auto
  show ?thesis
  proof (cases "i < length ys")
    case True
    then have "ys ! i \<in># mset ys" by simp
    with True show ?thesis by (simp add: xs nth_append mset_update)
  next
    case False
    with assms xs have "i = length ys" by simp
    then show ?thesis by (simp add: xs list_update_beyond)
  qed
qed

lemma rewards_consumed:
  assumes "case ri of None \<Rightarrow> info = None \<or> available_rewards info rs = []
    | Some r \<Rightarrow> unat (snd (recipient r)) < length (available_rewards info rs) \<and>
        available_rewards info rs ! unat (snd (recipient r)) = fst (recipient r)" and "\<not> is_initial sn"
  shows "mset (available_rewards info rs) =
    (case ri of None \<Rightarrow> {#} | Some r \<Rightarrow> {#fst (recipient r)#}) + mset (reward_after sn info ri rs)"
proof (cases ri)
  case None
  with assms show ?thesis by (auto simp: reward_after_def available_rewards_def split: option.splits)
next
  case (Some r)
  with assms have r: "unat (snd (recipient r)) < length (available_rewards info rs)"
    "available_rewards info rs ! unat (snd (recipient r)) = fst (recipient r)" by simp_all
  show ?thesis
  proof (cases info)
    case None
    with r mset_swap_remove [OF r(1)] Some assms(2) show ?thesis by (simp add: available_rewards_def reward_after_def)
  next
    case (Some i)
    with r mset_take_drop [OF r(1)] \<open>ri = Some r\<close> assms(2) show ?thesis
      by (auto simp: available_rewards_def reward_after_def split: option.splits)
  qed
qed

end
