(* ===== verification/Sortition.thy ===== *)
theory Sortition
  imports SortitionQueries
begin

text \<open>
  The sortition of \<^verbatim>\<open>src/chainstate/burn/sortition.rs\<close>: choosing the winning block commit of a burn block
  with the last winner's VRF seed, and making the snapshot of the block. The lemmas relate a made snapshot
  to its parent: it always passes the checks of the append, its total burn is the parent's plus what the
  block burned, and its winner is a candidate of the burn distribution.
\<close>

definition select_winning_block :: "externals \<Rightarrow> SortitionHandleTx \<Rightarrow> BurnchainBlockHeader \<Rightarrow> bytes \<Rightarrow> BurnSamplePoint list
    \<Rightarrow> (db_error, LeaderBlockCommitOp option) res" where
  "select_winning_block X tx header sortition_hash burn_dist =
     and_then (get_last_snapshot_with_sortition tx (hdr_block_height header - 1)) (\<lambda>last_sortition_snapshot.
     and_then (if is_initial last_sortition_snapshot then Ok VRFSeed_initial
               else and_then (get_block_commit tx (sn_winning_block_txid last_sortition_snapshot) (sn_sortition_id last_sortition_snapshot)) (\<lambda>r.
                    and_then (expect r) (\<lambda>c. Ok (bc_new_seed c)))) (\<lambda>VRF_seed.
     and_then (sample_burn_distribution X burn_dist VRF_seed sortition_hash) (\<lambda>win_idx_opt.
       case win_idx_opt of
         None \<Rightarrow> Ok None
       | Some win_idx \<Rightarrow> and_then (nth_res burn_dist win_idx) (\<lambda>s. Ok (Some (candidate s))))))"

definition make_snapshot_no_sortition :: "externals \<Rightarrow> SortitionHandleTx \<Rightarrow> bytes \<Rightarrow> PoxId \<Rightarrow> BlockSnapshot \<Rightarrow> BurnchainBlockHeader
    \<Rightarrow> u64 \<Rightarrow> u64 \<Rightarrow> bytes \<Rightarrow> bytes list \<Rightarrow> (db_error, BlockSnapshot) res" where
  "make_snapshot_no_sortition X tx sortition_id pox_id parent_snapshot header first_height burn_total sortition_hash txids =
     (let ops_hash = from_txids X txids
      in and_then (from_parent_block_data X (get_consensus_at tx) ops_hash (hdr_block_height header - 1) first_height
             (hdr_block_hash header) burn_total pox_id) (\<lambda>ch.
         Ok \<lparr>sn_block_height = hdr_block_height header, sn_burn_header_timestamp = hdr_timestamp header,
             sn_burn_header_hash = hdr_block_hash header, sn_parent_burn_header_hash = hdr_parent_block_hash header,
             sn_consensus_hash = ch, sn_ops_hash = ops_hash, sn_total_burn = burn_total, sn_sortition = False,
             sn_sortition_hash = sortition_hash, sn_winning_block_txid = replicate 32 0, sn_winning_stacks_block_hash = replicate 32 0,
             sn_index_root = TrieHash_from_empty_data, sn_num_sortitions = sn_num_sortitions parent_snapshot,
             sn_stacks_block_accepted = False, sn_stacks_block_height = 0, sn_arrival_index = 0,
             sn_canonical_stacks_tip_height = sn_canonical_stacks_tip_height parent_snapshot,
             sn_canonical_stacks_tip_hash = sn_canonical_stacks_tip_hash parent_snapshot,
             sn_canonical_stacks_tip_consensus_hash = sn_canonical_stacks_tip_consensus_hash parent_snapshot,
             sn_sortition_id = sortition_id, sn_pox_valid = True\<rparr>))"

text \<open>The last part of \<^verbatim>\<open>make_snapshot\<close>, once the new burn total is known.\<close>

definition make_snapshot_sortition :: "externals \<Rightarrow> SortitionHandleTx \<Rightarrow> Burnchain \<Rightarrow> bytes \<Rightarrow> PoxId \<Rightarrow> BlockSnapshot \<Rightarrow> BurnchainBlockHeader
    \<Rightarrow> BurnSamplePoint list \<Rightarrow> bytes list \<Rightarrow> bytes \<Rightarrow> u64 \<Rightarrow> (db_error, BlockSnapshot) res" where
  "make_snapshot_sortition X tx burnchain my_sortition_id my_pox_id parent_snapshot header burn_dist txids next_sortition_hash next_burn_total =
     and_then (select_winning_block X tx header next_sortition_hash burn_dist) (\<lambda>r.
     and_then (expect r) (\<lambda>winning_block.
       let next_ops_hash = from_txids X txids
       in and_then (from_parent_block_data X (get_consensus_at tx) next_ops_hash (hdr_block_height header - 1)
              (bch_first_block_height burnchain) (hdr_block_hash header) next_burn_total my_pox_id) (\<lambda>next_ch.
          Ok \<lparr>sn_block_height = hdr_block_height header, sn_burn_header_timestamp = hdr_timestamp header,
              sn_burn_header_hash = hdr_block_hash header, sn_parent_burn_header_hash = hdr_parent_block_hash header,
              sn_consensus_hash = next_ch, sn_ops_hash = next_ops_hash, sn_total_burn = next_burn_total, sn_sortition = True,
              sn_sortition_hash = mix_VRF_seed X next_sortition_hash (bc_new_seed winning_block),
              sn_winning_block_txid = bc_txid winning_block, sn_winning_stacks_block_hash = bc_block_header_hash winning_block,
              sn_index_root = TrieHash_from_empty_data, sn_num_sortitions = sn_num_sortitions parent_snapshot + 1,
              sn_stacks_block_accepted = False, sn_stacks_block_height = 0, sn_arrival_index = 0,
              sn_canonical_stacks_tip_height = sn_canonical_stacks_tip_height parent_snapshot,
              sn_canonical_stacks_tip_hash = sn_canonical_stacks_tip_hash parent_snapshot,
              sn_canonical_stacks_tip_consensus_hash = sn_canonical_stacks_tip_consensus_hash parent_snapshot,
              sn_sortition_id = my_sortition_id, sn_pox_valid = True\<rparr>)))"

definition make_snapshot :: "externals \<Rightarrow> SortitionHandleTx \<Rightarrow> Burnchain \<Rightarrow> bytes \<Rightarrow> PoxId \<Rightarrow> BlockSnapshot \<Rightarrow> BurnchainBlockHeader
    \<Rightarrow> BurnSamplePoint list \<Rightarrow> bytes list \<Rightarrow> (db_error, BlockSnapshot) res" where
  "make_snapshot X tx burnchain my_sortition_id my_pox_id parent_snapshot header burn_dist txids =
     and_then (assert_that (sn_burn_header_hash parent_snapshot = hdr_parent_block_hash header)) (\<lambda>_.
     and_then (assert_that (sn_block_height parent_snapshot + 1 = hdr_block_height header)) (\<lambda>_.
       let last_burn_total = sn_total_burn parent_snapshot;
           next_sortition_hash = mix_burn_header X (sn_sortition_hash parent_snapshot) (hdr_block_hash header);
           no_sortition = make_snapshot_no_sortition X tx my_sortition_id my_pox_id parent_snapshot header
             (bch_first_block_height burnchain) last_burn_total next_sortition_hash txids
       in if length burn_dist = 0 then no_sortition
          else (case get_total_burns burn_dist of
                  None \<Rightarrow> no_sortition
                | Some block_total \<Rightarrow>
                    if block_total = 0 then no_sortition
                    else (case checked_add last_burn_total block_total of
                            None \<Rightarrow> no_sortition
                          | Some next_burn_total \<Rightarrow>
                              make_snapshot_sortition X tx burnchain my_sortition_id my_pox_id parent_snapshot header burn_dist txids
                                next_sortition_hash next_burn_total))))"

section \<open>What a snapshot says of its block\<close>

lemma sample_winner:
  assumes "(sample_burn_distribution X burn_dist seed h :: ('e, _) res) = Ok (Some i)"
  shows "i < length burn_dist"
proof -
  have "(sample_loop idx k ds :: ('e, _) res) = Ok (Some i) \<Longrightarrow> i < k + length ds" for idx k ds
    by (induction idx k ds rule: sample_loop.induct) (auto split: if_splits)
  from this [of _ 0 burn_dist] assms show ?thesis by (auto simp: sample_burn_distribution_def split: if_splits)
qed

lemma winner_in_distribution:
  assumes "select_winning_block X tx header h burn_dist = Ok (Some c)"
  shows "c \<in> candidate ` set burn_dist"
  using assms by (auto simp: select_winning_block_def and_then_Ok_iff nth_res_def split: option.splits if_splits)

text \<open>What every made snapshot has, and the two ways its sortition can go.\<close>

definition follows :: "BlockSnapshot \<Rightarrow> BurnchainBlockHeader \<Rightarrow> bytes \<Rightarrow> BlockSnapshot \<Rightarrow> bool" where
  "follows parent header sid sn \<longleftrightarrow> sn_parent_burn_header_hash sn = sn_burn_header_hash parent \<and>
     sn_block_height parent + 1 = sn_block_height sn \<and> sn_burn_header_hash sn = hdr_block_hash header \<and>
     sn_num_sortitions sn = (if sn_sortition sn then sn_num_sortitions parent + 1 else sn_num_sortitions parent) \<and>
     sn_sortition_id sn = sid \<and> \<not> sn_stacks_block_accepted sn \<and> sn_stacks_block_height sn = 0 \<and> sn_arrival_index sn = 0 \<and> sn_pox_valid sn \<and>
     sn_block_height sn = hdr_block_height header \<and> sn_parent_burn_header_hash sn = hdr_parent_block_hash header"

definition drawn_from :: "BurnSamplePoint list \<Rightarrow> BlockSnapshot \<Rightarrow> BlockSnapshot \<Rightarrow> bool" where
  "drawn_from burn_dist parent sn \<longleftrightarrow>
     (if sn_sortition sn then
        (\<exists>s \<in> set burn_dist. sn_winning_block_txid sn = bc_txid (candidate s) \<and> sn_winning_stacks_block_hash sn = bc_block_header_hash (candidate s)) \<and>
        (\<exists>block_total. get_total_burns burn_dist = Some block_total \<and> 0 < block_total \<and> unat (sn_total_burn sn) = unat (sn_total_burn parent) + unat block_total)
      else sn_winning_stacks_block_hash sn = replicate 32 0 \<and> sn_total_burn sn = sn_total_burn parent \<and>
        (case get_total_burns burn_dist of None \<Rightarrow> True | Some block_total \<Rightarrow> burn_dist = [] \<or> block_total = 0 \<or> 2 ^ 64 \<le> unat (sn_total_burn parent) + unat block_total))"

lemma make_snapshot_Ok:
  assumes "make_snapshot X tx burnchain sid pox parent header burn_dist txids = Ok sn"
  shows "follows parent header sid sn \<and> drawn_from burn_dist parent sn"
proof -
  have link: "sn_burn_header_hash parent = hdr_parent_block_hash header" "sn_block_height parent + 1 = hdr_block_height header"
    using assms by (auto simp: make_snapshot_def and_then_Ok_iff)
  have n: "follows parent header sid sn \<and> \<not> sn_sortition sn \<and> sn_winning_stacks_block_hash sn = replicate 32 0 \<and> sn_total_burn sn = b"
    if "make_snapshot_no_sortition X tx sid pox parent header f b h t = Ok sn" for f b h t
    using that link by (auto simp: make_snapshot_no_sortition_def and_then_Ok_iff follows_def Let_def)
  have y: "follows parent header sid sn \<and> sn_sortition sn \<and> sn_total_burn sn = b \<and>
      (\<exists>s \<in> set burn_dist. sn_winning_block_txid sn = bc_txid (candidate s) \<and> sn_winning_stacks_block_hash sn = bc_block_header_hash (candidate s))"
    if "make_snapshot_sortition X tx burnchain sid pox parent header burn_dist txids h b = Ok sn" for h b
    using that link by (auto simp: make_snapshot_sortition_def and_then_Ok_iff follows_def Let_def dest!: winner_in_distribution)
  let ?h = "mix_burn_header X (sn_sortition_hash parent) (hdr_block_hash header)"
  consider (no) "make_snapshot_no_sortition X tx sid pox parent header (bch_first_block_height burnchain) (sn_total_burn parent) ?h txids = Ok sn"
      "case get_total_burns burn_dist of None \<Rightarrow> True | Some t \<Rightarrow> burn_dist = [] \<or> t = 0 \<or> 2 ^ 64 \<le> unat (sn_total_burn parent) + unat t"
    | (yes) t b where "get_total_burns burn_dist = Some t" "0 < t" "unat b = unat (sn_total_burn parent) + unat t"
      "make_snapshot_sortition X tx burnchain sid pox parent header burn_dist txids ?h b = Ok sn"
    using assms by (auto simp: make_snapshot_def and_then_Ok_iff Let_def checked_add_Some_iff checked_add_None_iff word_neq_0_conv
        split: if_splits option.splits)
  then show ?thesis
  proof cases
    case no
    show ?thesis using no(2) n [OF no(1)] by (auto simp: drawn_from_def)
  next
    case (yes t b)
    show ?thesis using yes(1,2,3) y [OF yes(4)] by (auto simp: drawn_from_def)
  qed
qed

end
