(* ===== verification/OpChecks.thy ===== *)
theory OpChecks
  imports Sortition
begin

text \<open>
  The checks an operation must pass before it is accepted (\<^verbatim>\<open>check\<close> in
  \<^verbatim>\<open>src/chainstate/burn/operations/\<close>) and the processing of the operations of a burn block
  (\<^verbatim>\<open>src/chainstate/burn/db/processing.rs\<close>, \<^verbatim>\<open>from_block_ops\<close> of \<^verbatim>\<open>src/burnchains/burnchain.rs\<close>,
  \<^verbatim>\<open>evaluate_sortition\<close> of \<^verbatim>\<open>src/chainstate/burn/db/sortdb.rs\<close>). A call that follows the ancestry of Stacks
  blocks may not return; it has then no value.
\<close>

primrec run_then :: "('e, 'a) res option \<Rightarrow> ('a \<Rightarrow> ('e, 'b) res option) \<Rightarrow> ('e, 'b) res option" where
  "run_then None f = None"
| "run_then (Some r) f = (case r of Ok x \<Rightarrow> f x | Err e \<Rightarrow> Some (Err e) | Panic \<Rightarrow> Some Panic)"

lemma run_then_Ok_iff: "run_then r f = Some (Ok y) \<longleftrightarrow> (\<exists>x. r = Some (Ok x) \<and> f x = Some (Ok y))"
  by (cases r) (auto split: res.splits)

section \<open>Checks\<close>

definition key_check :: "Burnchain \<Rightarrow> SortitionHandleTx \<Rightarrow> LeaderKeyRegisterOp \<Rightarrow> (op_error, unit) res" where
  "key_check burnchain tx op =
     and_then (map_err DBError (has_VRF_public_key tx (lk_public_key op))) (\<lambda>has_key_already.
       if has_key_already then Err LeaderKeyAlreadyRegistered
       else and_then (map_err DBError (is_fresh_consensus_hash tx (ucast (consensus_hash_lifetime burnchain)) (lk_consensus_hash op))) (\<lambda>recent.
         if \<not> recent then Err LeaderKeyBadConsensusHash else Ok ()))"

definition burn_check :: "Burnchain \<Rightarrow> SortitionHandleTx \<Rightarrow> UserBurnSupportOp \<Rightarrow> (op_error, unit) res" where
  "burn_check burnchain tx op =
     and_then (map_err DBError (is_fresh_consensus_hash_check_19b tx (ucast (consensus_hash_lifetime burnchain)) (ub_consensus_hash op))) (\<lambda>is_fresh.
       if \<not> is_fresh then Err UserBurnSupportBadConsensusHash
       else if ub_key_block_ptr op = 0 then Err ParseError
       else if ucast (ub_key_block_ptr op) > ub_block_height op then Err ParseError
       else and_then (map_err DBError (get_leader_key_at tx (ucast (ub_key_block_ptr op)) (ucast (ub_key_vtxindex op)) (chain_tip tx))) (\<lambda>register_key_opt.
         if register_key_opt = None then Err UserBurnSupportNoLeaderKey else Ok ()))"

text \<open>The outputs of a commit: PoX transfers exactly for commits that descend from the anchor block.\<close>

definition commit_outs_expected :: "LeaderBlockCommitOp \<Rightarrow> RewardSetInfo \<Rightarrow> (op_error, bool) res" where
  "commit_outs_expected op info =
     (if bc_commit_outs op = [] then Ok False
      else if length (bc_commit_outs op) \<noteq> 1 then Err BlockCommitBadOutputs
      else if fst (recipient info) \<notin> set (bc_commit_outs op) then Err BlockCommitBadOutputs
      else Ok True)"

definition commit_check_outs :: "SortitionHandleTx \<Rightarrow> LeaderBlockCommitOp \<Rightarrow> RewardSetInfo option \<Rightarrow> (op_error, unit) res option" where
  "commit_check_outs tx op reward_set_info =
     (case reward_set_info of
        Some info \<Rightarrow>
          run_then (Some (commit_outs_expected op info)) (\<lambda>expect_pox_descendant.
          run_then (map_option (map_err (\<lambda>_. BlockCommitAnchorCheck)) (descended_from tx (ucast (bc_parent_block_ptr op)) (anchor_block info)))
            (\<lambda>descended_from_anchor. Some (if descended_from_anchor \<noteq> expect_pox_descendant then Err BlockCommitBadOutputs else Ok ())))
      | None \<Rightarrow> Some (if bc_commit_outs op \<noteq> [] then Err BlockCommitBadOutputs else Ok ()))"

definition commit_check_rest :: "externals \<Rightarrow> SortitionHandleTx \<Rightarrow> LeaderBlockCommitOp \<Rightarrow> (op_error, unit) res" where
  "commit_check_rest X tx op =
     and_then (map_err DBError (get_first_block_snapshot tx)) (\<lambda>first_block_snapshot.
       if bc_block_height op < sn_block_height first_block_snapshot then Err BlockCommitPredatesGenesis
       else and_then (map_err DBError (expects_stacks_block_in_fork tx (bc_block_header_hash op))) (\<lambda>is_already_committed.
         if is_already_committed then Err BlockCommitAlreadyExists
         else if ucast (bc_key_block_ptr op) \<ge> bc_block_height op then Err BlockCommitNoLeaderKey
         else and_then (map_err DBError (get_leader_key_at tx (ucast (bc_key_block_ptr op)) (ucast (bc_key_vtxindex op)) (chain_tip tx))) (\<lambda>r.
              and_then (ok_or r BlockCommitNoLeaderKey) (\<lambda>register_key.
              and_then (if ucast (bc_parent_block_ptr op) = bc_block_height op then Err BlockCommitNoParent
                        else if bc_parent_block_ptr op \<noteq> 0 \<or> bc_parent_vtxindex op \<noteq> 0 then
                          and_then (map_err DBError (get_block_commit_parent tx (ucast (bc_parent_block_ptr op)) (ucast (bc_parent_vtxindex op)) (chain_tip tx)))
                            (\<lambda>parent. if parent = None then Err BlockCommitNoParent else Ok ())
                        else Ok ()) (\<lambda>_.
              and_then (to_address_bits X (bc_input op)) (\<lambda>input_address_bytes.
                if input_address_bytes \<noteq> addr_bytes (lk_address register_key) then Err BlockCommitBadInput else Ok ()))))))"

definition commit_check :: "externals \<Rightarrow> SortitionHandleTx \<Rightarrow> LeaderBlockCommitOp \<Rightarrow> RewardSetInfo option \<Rightarrow> (op_error, unit) res option" where
  "commit_check X tx op reward_set_info =
     (if bc_burn_fee op = 0 then Some (Err BlockCommitBadInput)
      else run_then (commit_check_outs tx op reward_set_info) (\<lambda>_. Some (commit_check_rest X tx op)))"

section \<open>Processing a block\<close>

definition check_transaction :: "externals \<Rightarrow> SortitionHandleTx \<Rightarrow> Burnchain \<Rightarrow> BlockstackOperationType \<Rightarrow> RewardSetInfo option
    \<Rightarrow> (burnchain_error, unit) res option" where
  "check_transaction X tx burnchain blockstack_op reward_info =
     (case blockstack_op of
        LeaderKeyRegister op \<Rightarrow> Some (map_err OpError (key_check burnchain tx op))
      | LeaderBlockCommit op \<Rightarrow> map_option (map_err OpError) (commit_check X tx op reward_info)
      | UserBurnSupport op \<Rightarrow> Some (map_err OpError (burn_check burnchain tx op)))"

text \<open>The \<^verbatim>\<open>retain\<close> of \<^verbatim>\<open>check_block_ops\<close>.\<close>

fun retain_checked :: "externals \<Rightarrow> SortitionHandleTx \<Rightarrow> Burnchain \<Rightarrow> RewardSetInfo option \<Rightarrow> BlockstackOperationType list
    \<Rightarrow> (burnchain_error, BlockstackOperationType list) res option" where
  "retain_checked X tx burnchain reward_info [] = Some (Ok [])"
| "retain_checked X tx burnchain reward_info (op # ops) =
     (case check_transaction X tx burnchain op reward_info of
        None \<Rightarrow> None
      | Some Panic \<Rightarrow> Some Panic
      | Some (Err _) \<Rightarrow> retain_checked X tx burnchain reward_info ops
      | Some (Ok _) \<Rightarrow> run_then (retain_checked X tx burnchain reward_info ops) (\<lambda>ops. Some (Ok (op # ops))))"

definition check_block_ops :: "externals \<Rightarrow> SortitionHandleTx \<Rightarrow> Burnchain \<Rightarrow> BlockstackOperationType list \<Rightarrow> RewardSetInfo option
    \<Rightarrow> (burnchain_error, BlockstackOperationType list) res option" where
  "check_block_ops X tx burnchain block_ops reward_info =
     run_then (retain_checked X tx burnchain reward_info block_ops) (\<lambda>block_ops.
     Some (and_then (filter_block_VRF_dups block_ops) (\<lambda>ret_filtered.
           and_then (assert_that (ops_are_sorted ret_filtered)) (\<lambda>_.
           and_then (filter_block_commits_with_same_VRF_key ret_filtered) (\<lambda>ret_filtered.
           and_then (assert_that (ops_are_sorted ret_filtered)) (\<lambda>_. Ok ret_filtered))))))"

definition op_commits :: "BlockstackOperationType list \<Rightarrow> LeaderBlockCommitOp list" where
  "op_commits ops = concat (map (\<lambda>op. case op of LeaderBlockCommit c \<Rightarrow> [c] | _ \<Rightarrow> []) ops)"

definition op_burns :: "BlockstackOperationType list \<Rightarrow> UserBurnSupportOp list" where
  "op_burns ops = concat (map (\<lambda>op. case op of UserBurnSupport u \<Rightarrow> [u] | _ \<Rightarrow> []) ops)"

definition is_key_op :: "BlockstackOperationType \<Rightarrow> bool" where
  "is_key_op op = (case op of LeaderKeyRegister _ \<Rightarrow> True | _ \<Rightarrow> False)"

definition from_block_ops :: "externals \<Rightarrow> SortitionHandleTx \<Rightarrow> BlockSnapshot \<Rightarrow> BlockstackOperationType list
    \<Rightarrow> (burnchain_error, BurnchainStateTransition) res" where
  "from_block_ops X tx parent_snapshot block_ops =
     and_then (assert_that (ops_are_sorted block_ops)) (\<lambda>_.
     and_then (map_err BurnDBError (get_consumed_leader_keys tx parent_snapshot (op_commits block_ops))) (\<lambda>consumed_leader_keys.
     and_then (make_distribution X (op_commits block_ops) consumed_leader_keys (op_burns block_ops)) (\<lambda>burn_dist.
       let accepted_ops = filter is_key_op block_ops @
             concat (map (\<lambda>point. LeaderBlockCommit (candidate point) # map UserBurnSupport (user_burns point)) burn_dist)
       in Ok \<lparr>tr_burn_dist = burn_dist, tr_accepted_ops = sort_key op_vtxindex accepted_ops, tr_consumed_leader_keys = consumed_leader_keys\<rparr>)))"

definition next_pox_id :: "PoxId \<Rightarrow> PoxAnchorBlockStatus option \<Rightarrow> PoxId" where
  "next_pox_id parent_pox next_pox_info =
     (case next_pox_info of
        None \<Rightarrow> parent_pox
      | Some info \<Rightarrow> if is_reward_info_known info then extend_with_present_block parent_pox else extend_with_not_present_block parent_pox)"

definition process_checked_block_ops :: "externals \<Rightarrow> ((db_key, db_value) TrieStorage \<Rightarrow> bytes) \<Rightarrow> SortitionHandleTx \<Rightarrow> Burnchain
    \<Rightarrow> BlockSnapshot \<Rightarrow> BurnchainBlockHeader \<Rightarrow> BlockstackOperationType list \<Rightarrow> PoxAnchorBlockStatus option \<Rightarrow> PoxId \<Rightarrow> RewardSetInfo option
    \<Rightarrow> (burnchain_error, (BlockSnapshot \<times> BurnchainStateTransition) \<times> SortitionHandleTx) res" where
  "process_checked_block_ops X root tx burnchain parent_snapshot header this_block_ops next_pox_info parent_pox reward_info =
     and_then (from_block_ops X tx parent_snapshot this_block_ops) (\<lambda>state_transition.
       let txids = map op_txid (tr_accepted_ops state_transition);
           next_pox = next_pox_id parent_pox next_pox_info;
           next_sortition_id = SortitionId_new X (hdr_block_hash header) next_pox
       in and_then (map_err BurnDBError (make_snapshot X tx burnchain next_sortition_id next_pox parent_snapshot header
              (tr_burn_dist state_transition) txids)) (\<lambda>snapshot.
          and_then (map_err BurnDBError (append_chain_tip_snapshot root tx parent_snapshot snapshot (tr_accepted_ops state_transition)
              next_pox_info reward_info)) (\<lambda>(index_root, tx).
            Ok ((snapshot\<lparr>sn_index_root := index_root\<rparr>, state_transition), tx))))"

definition process_block_ops :: "externals \<Rightarrow> ((db_key, db_value) TrieStorage \<Rightarrow> bytes) \<Rightarrow> SortitionHandleTx \<Rightarrow> Burnchain
    \<Rightarrow> BlockSnapshot \<Rightarrow> BurnchainBlockHeader \<Rightarrow> BlockstackOperationType list \<Rightarrow> PoxAnchorBlockStatus option \<Rightarrow> PoxId \<Rightarrow> RewardSetInfo option
    \<Rightarrow> (burnchain_error, (BlockSnapshot \<times> BurnchainStateTransition) \<times> SortitionHandleTx) res option" where
  "process_block_ops X root tx burnchain parent_snapshot header blockstack_txs next_pox_info parent_pox reward_set_info =
     run_then (check_block_ops X tx burnchain (sort_key op_vtxindex blockstack_txs) reward_set_info) (\<lambda>block_ops.
     Some (process_checked_block_ops X root tx burnchain parent_snapshot header block_ops next_pox_info parent_pox reward_set_info))"

definition process_block_txs :: "externals \<Rightarrow> ((db_key, db_value) TrieStorage \<Rightarrow> bytes) \<Rightarrow> SortitionHandleTx \<Rightarrow> BlockSnapshot
    \<Rightarrow> BurnchainBlockHeader \<Rightarrow> Burnchain \<Rightarrow> BlockstackOperationType list \<Rightarrow> PoxAnchorBlockStatus option \<Rightarrow> PoxId \<Rightarrow> RewardSetInfo option
    \<Rightarrow> (burnchain_error, (BlockSnapshot \<times> BurnchainStateTransition) \<times> SortitionHandleTx) res option" where
  "process_block_txs X root tx parent_snapshot header burnchain blockstack_txs next_pox_info parent_pox reward_set_info =
     (if sn_block_height parent_snapshot + 1 \<noteq> hdr_block_height header then Some Panic
      else if sn_burn_header_hash parent_snapshot \<noteq> hdr_parent_block_hash header then Some Panic
      else process_block_ops X root tx burnchain parent_snapshot header blockstack_txs next_pox_info parent_pox reward_set_info)"

definition evaluate_sortition :: "externals \<Rightarrow> ((db_key, db_value) TrieStorage \<Rightarrow> bytes) \<Rightarrow> (bytes \<Rightarrow> u32 \<Rightarrow> u32) \<Rightarrow> SortitionHandleTx
    \<Rightarrow> BurnchainBlockHeader \<Rightarrow> BlockstackOperationType list \<Rightarrow> Burnchain \<Rightarrow> bytes \<Rightarrow> PoxAnchorBlockStatus option
    \<Rightarrow> (burnchain_error, (BlockSnapshot \<times> BurnchainStateTransition) \<times> SortitionHandleTx) res option" where
  "evaluate_sortition X root gen_range db burn_header ops burnchain from_tip next_pox_info =
     run_then (Some (and_then (get_sortition_id db (hdr_parent_block_hash burn_header) from_tip) (\<lambda>r. ok_or r MissingParentBlock))) (\<lambda>parent_sort_id.
       let handle = db\<lparr>chain_tip := parent_sort_id\<rparr>
       in run_then (Some (and_then (map_err BurnDBError (tx_get_block_snapshot handle (hdr_parent_block_hash burn_header) parent_sort_id))
              (\<lambda>r. ok_or r MissingParentBlock))) (\<lambda>parent_snapshot.
          run_then (Some (map_err BurnDBError (get_pox_id handle))) (\<lambda>parent_pox.
          run_then (Some (map_err BurnDBError (pick_recipient gen_range handle
              (mix_burn_header X (sn_sortition_hash parent_snapshot) (sn_burn_header_hash parent_snapshot)) next_pox_info))) (\<lambda>reward_set_info.
          run_then (process_block_txs X root handle parent_snapshot burn_header burnchain ops next_pox_info parent_pox reward_set_info) (\<lambda>(new_snapshot, handle).
          run_then (Some (map_err BurnDBError (store_transition_ops handle (sn_sortition_id (fst new_snapshot)) (snd new_snapshot)))) (\<lambda>handle.
          Some (and_then (map_err BurnDBError (handle_commit handle)) (\<lambda>db. Ok (new_snapshot, db)))))))))"

end
