(* ===== verification/BurnchainDB.thy ===== *)
theory BurnchainDB
  imports OpChecks
begin

text \<open>
  The store of burnchain blocks, \<^verbatim>\<open>src/burnchains/db.rs\<close>: headers and the operations found in them, kept on
  every fork; and the two entry points of \<^verbatim>\<open>src/burnchains/burnchain.rs\<close> that hand a downloaded block to it.
  A column of serialised operations holds the operations.
\<close>

section \<open>Operations\<close>

record BurnchainBlockData =
  bd_header :: BurnchainBlockHeader
  bd_ops :: "BlockstackOperationType list"

record BurnchainDB =
  burnchain_db_block_headers :: "BurnchainBlockHeader list"
  burnchain_db_block_ops :: "(bytes \<times> BlockstackOperationType) list"

fun adjacent_equal :: "u32 list \<Rightarrow> bool" where
  "adjacent_equal (x # y # ys) \<longleftrightarrow> x = y \<or> adjacent_equal (y # ys)"
| "adjacent_equal _ \<longleftrightarrow> False"

definition apply_blockstack_txs_safety_checks :: "u64 \<Rightarrow> BlockstackOperationType list \<Rightarrow> (burnchain_error, BlockstackOperationType list) res" where
  "apply_blockstack_txs_safety_checks block_height blockstack_txs =
     (let blockstack_txs = sort_key op_vtxindex blockstack_txs
      in if adjacent_equal (map op_vtxindex blockstack_txs) then Panic
         else if list_ex (\<lambda>tx. op_block_height tx \<noteq> block_height) blockstack_txs then Panic
         else Ok blockstack_txs)"

definition store_burnchain_db_entry :: "BurnchainDB \<Rightarrow> BurnchainBlockHeader \<Rightarrow> (burnchain_error, BurnchainDB) res" where
  "store_burnchain_db_entry db header =
     and_then (map_err BurnDBError (map_res u64_to_sql [hdr_block_height header, hdr_num_txs header, hdr_timestamp header])) (\<lambda>_.
       if hdr_block_hash header \<in> hdr_block_hash ` set (burnchain_db_block_headers db) then Err (BurnDBError SqliteError)
       else Ok (db\<lparr>burnchain_db_block_headers := burnchain_db_block_headers db @ [header]\<rparr>))"

definition store_blockstack_ops :: "BurnchainDB \<Rightarrow> bytes \<Rightarrow> BlockstackOperationType list \<Rightarrow> BurnchainDB" where
  "store_blockstack_ops db block_hash block_ops =
     db\<lparr>burnchain_db_block_ops := burnchain_db_block_ops db @ map (\<lambda>op. (block_hash, op)) block_ops\<rparr>"

text \<open>Connecting to a file that does not exist yet creates it with the first block.\<close>

definition burnchain_db_connect :: "u64 \<Rightarrow> bytes \<Rightarrow> u64 \<Rightarrow> (burnchain_error, BurnchainDB) res" where
  "burnchain_db_connect first_height first_burn_header_hash first_burn_header_timestamp =
     store_burnchain_db_entry \<lparr>burnchain_db_block_headers = [], burnchain_db_block_ops = []\<rparr>
       \<lparr>hdr_block_height = first_height, hdr_block_hash = first_burn_header_hash, hdr_parent_block_hash = SENTINEL_ARRAY,
        hdr_num_txs = 0, hdr_timestamp = first_burn_header_timestamp\<rparr>"

definition get_canonical_chain_tip :: "BurnchainDB \<Rightarrow> (burnchain_error, BurnchainBlockHeader) res" where
  "get_canonical_chain_tip db = expect (first_by hdr_block_height hdr_block_hash (burnchain_db_block_headers db))"

definition get_burnchain_block :: "BurnchainDB \<Rightarrow> bytes \<Rightarrow> (burnchain_error, BurnchainBlockData) res" where
  "get_burnchain_block db block =
     and_then (ok_or (find (\<lambda>h. hdr_block_hash h = block) (burnchain_db_block_headers db)) (UnknownBlock block)) (\<lambda>block_header.
       Ok \<lparr>bd_header = block_header, bd_ops = map snd (filter (\<lambda>(h, _). h = block) (burnchain_db_block_ops db))\<rparr>)"

definition get_blockstack_transactions :: "externals \<Rightarrow> BurnchainBlock \<Rightarrow> BurnchainBlockHeader
    \<Rightarrow> (burnchain_error, BlockstackOperationType list) res" where
  "get_blockstack_transactions X block header =
     and_then (map_res (classify_transaction X header) (block_txs block)) (\<lambda>ops. Ok (List.map_filter id ops))"

text \<open>The rows of a block are written in one transaction: on an error the database is as it was.\<close>

definition store_new_burnchain_block :: "externals \<Rightarrow> BurnchainDB \<Rightarrow> BurnchainBlock
    \<Rightarrow> (burnchain_error, BlockstackOperationType list \<times> BurnchainDB) res" where
  "store_new_burnchain_block X db block =
     (let header = block_header block
      in and_then (get_blockstack_transactions X block header) (\<lambda>blockstack_ops.
         and_then (apply_blockstack_txs_safety_checks (hdr_block_height header) blockstack_ops) (\<lambda>blockstack_ops.
         and_then (store_burnchain_db_entry db header) (\<lambda>db.
           Ok (blockstack_ops, store_blockstack_ops db (hdr_block_hash header) blockstack_ops)))))"

definition process_block :: "externals \<Rightarrow> BurnchainDB \<Rightarrow> BurnchainBlock \<Rightarrow> (burnchain_error, BurnchainBlockHeader \<times> BurnchainDB) res" where
  "process_block X burnchain_db block =
     and_then (store_new_burnchain_block X burnchain_db block) (\<lambda>(_, burnchain_db). Ok (block_header block, burnchain_db))"

definition process_block_and_sortition_deprecated :: "externals \<Rightarrow> ((db_key, db_value) TrieStorage \<Rightarrow> bytes) \<Rightarrow> (bytes \<Rightarrow> u32 \<Rightarrow> u32)
    \<Rightarrow> SortitionHandleTx \<Rightarrow> BurnchainDB \<Rightarrow> Burnchain \<Rightarrow> BurnchainBlock
    \<Rightarrow> (burnchain_error, (BlockSnapshot \<times> BurnchainStateTransition) \<times> SortitionHandleTx \<times> BurnchainDB) res option" where
  "process_block_and_sortition_deprecated X root gen_range db burnchain_db burnchain block =
     run_then (Some (store_new_burnchain_block X burnchain_db block)) (\<lambda>(blockstack_txs, burnchain_db).
     run_then (Some (map_err BurnDBError (get_canonical_sortition_tip db))) (\<lambda>sortition_tip.
     run_then (evaluate_sortition X root gen_range db (block_header block) blockstack_txs burnchain sortition_tip None) (\<lambda>(result, db).
       Some (Ok (result, db, burnchain_db)))))"

section \<open>The order of the canonical tip\<close>

lemma bytes_less_irrefl [simp]: "\<not> bytes_less xs xs"
  by (induction xs) auto

lemma bytes_less_trans: "bytes_less xs ys \<Longrightarrow> bytes_less ys zs \<Longrightarrow> bytes_less xs zs"
proof (induction xs ys arbitrary: zs rule: bytes_less.induct)
  case (1 x xs y ys)
  then show ?case by (cases zs) auto
next
  case (2 y ys)
  then show ?case by (cases zs) auto
qed simp

lemma bytes_less_total: "xs = ys \<or> bytes_less xs ys \<or> bytes_less ys xs"
proof (induction xs ys rule: bytes_less.induct)
  case (3 xs)
  then show ?case by (cases xs) auto
qed auto

text \<open>The rank of a row before another in the order of the query.\<close>

definition precedes :: "('r \<Rightarrow> u64) \<Rightarrow> ('r \<Rightarrow> bytes) \<Rightarrow> 'r \<Rightarrow> 'r \<Rightarrow> bool" where
  "precedes height hash a b \<longleftrightarrow> height b < height a \<or> height a = height b \<and> bytes_less (hash a) (hash b)"

lemma precedes_trans: "precedes h k a b \<Longrightarrow> precedes h k b c \<Longrightarrow> precedes h k a c"
  by (auto simp: precedes_def dest: bytes_less_trans)

lemma first_by_snoc:
  "first_by h k (rows @ [r]) = Some (case first_by h k rows of None \<Rightarrow> r | Some b \<Rightarrow> if precedes h k r b then r else b)"
  by (simp add: first_by_def precedes_def split: option.split)

lemma first_by_least: "first_by h k rows = Some b \<Longrightarrow> b \<in> set rows \<and> (\<forall>r \<in> set rows. \<not> precedes h k r b)"
proof (induction rows arbitrary: b rule: rev_induct)
  case Nil
  then show ?case by (simp add: first_by_def)
next
  case (snoc r rows)
  have irrefl: "\<not> precedes h k x x" for x by (simp add: precedes_def)
  have none: "first_by h k rows = None \<Longrightarrow> rows = []"
    by (cases rows rule: rev_cases) (simp_all add: first_by_snoc)
  show ?case
  proof (cases "first_by h k rows")
    case None
    with snoc.prems none show ?thesis by (simp add: first_by_snoc irrefl)
  next
    case (Some a)
    from snoc.IH [OF this] have a: "a \<in> set rows" "\<And>x. x \<in> set rows \<Longrightarrow> \<not> precedes h k x a" by auto
    show ?thesis
    proof (cases "precedes h k r a")
      case True
      then have "\<not> precedes h k x r" if "x \<in> set rows" for x using a(2) [OF that] precedes_trans by metis
      with True Some snoc.prems show ?thesis by (simp add: first_by_snoc irrefl)
    qed (use Some snoc.prems a in \<open>simp add: first_by_snoc\<close>)
  qed
qed

lemma first_by_Some: "rows \<noteq> [] \<Longrightarrow> \<exists>b. first_by h k rows = Some b"
  by (cases rows rule: rev_cases) (simp_all add: first_by_snoc)

section \<open>Databases a node builds\<close>

inductive burn_db_reachable :: "externals \<Rightarrow> BurnchainDB \<Rightarrow> bool" for X where
  burn_db_new: "burnchain_db_connect first_height first_hash time = Ok db \<Longrightarrow> burn_db_reachable X db"
| burn_db_store: "burn_db_reachable X db \<Longrightarrow> store_new_burnchain_block X db block = Ok (ops, db') \<Longrightarrow> burn_db_reachable X db'"

definition burn_db_inv :: "BurnchainDB \<Rightarrow> bool" where
  "burn_db_inv db \<longleftrightarrow> burnchain_db_block_headers db \<noteq> [] \<and> distinct (map hdr_block_hash (burnchain_db_block_headers db)) \<and>
     fst ` set (burnchain_db_block_ops db) \<subseteq> hdr_block_hash ` set (burnchain_db_block_headers db)"

lemma store_entry_Ok:
  assumes "store_burnchain_db_entry db header = Ok db'"
  shows "hdr_block_hash header \<notin> hdr_block_hash ` set (burnchain_db_block_headers db) \<and>
    db' = db\<lparr>burnchain_db_block_headers := burnchain_db_block_headers db @ [header]\<rparr>"
  using assms by (simp add: store_burnchain_db_entry_def and_then_Ok_iff del: map_res.simps split: if_splits)

lemma store_block_Ok:
  assumes "store_new_burnchain_block X db block = Ok (ops, db')"
  obtains found where "get_blockstack_transactions X block (block_header block) = Ok found"
    "apply_blockstack_txs_safety_checks (hdr_block_height (block_header block)) found = Ok ops"
    "hdr_block_hash (block_header block) \<notin> hdr_block_hash ` set (burnchain_db_block_headers db)"
    "burnchain_db_block_headers db' = burnchain_db_block_headers db @ [block_header block]"
    "burnchain_db_block_ops db' = burnchain_db_block_ops db @ map (\<lambda>op. (hdr_block_hash (block_header block), op)) ops"
  using assms unfolding store_new_burnchain_block_def Let_def
  by (auto simp: and_then_Ok_iff store_blockstack_ops_def dest!: store_entry_Ok)

lemma reachable_burn_db_inv: "burn_db_reachable X db \<Longrightarrow> burn_db_inv db"
proof (induction rule: burn_db_reachable.induct)
  case (burn_db_new first_height first_hash time db)
  then show ?case by (auto simp: burnchain_db_connect_def burn_db_inv_def dest!: store_entry_Ok)
next
  case (burn_db_store db block ops db')
  from burn_db_store(2) show ?case by (rule store_block_Ok) (use burn_db_store(3) in \<open>auto simp: burn_db_inv_def\<close>)
qed

section \<open>What the safety checks keep\<close>

lemma adjacent_equal_sorted: "sorted xs \<Longrightarrow> \<not> adjacent_equal xs \<longleftrightarrow> strictly_increasing xs"
  by (induction xs rule: adjacent_equal.induct) (auto simp: less_le)

lemma safety_checks_Ok:
  assumes "apply_blockstack_txs_safety_checks h txs = Ok ops"
  shows "ops = sort_key op_vtxindex txs \<and> ops_are_sorted ops \<and> (\<forall>op \<in> set ops. op_block_height op = h)"
  using assms adjacent_equal_sorted [of "map op_vtxindex ops"]
  by (auto simp: apply_blockstack_txs_safety_checks_def Let_def ops_are_sorted_def list_ex_iff split: if_splits)

lemma map_res_set: "map_res f xs = Ok ys \<Longrightarrow> y \<in> set ys \<longleftrightarrow> (\<exists>x \<in> set xs. f x = Ok y)"
proof (induction xs arbitrary: ys)
  case (Cons x xs)
  then obtain z zs where "f x = Ok z" "map_res f xs = Ok zs" "ys = z # zs" by (auto simp: and_then_Ok_iff)
  with Cons.IH show ?case by auto
qed simp

lemma found_set:
  assumes "get_blockstack_transactions X block header = Ok found"
  shows "set found = {op. \<exists>tx \<in> set (block_txs block). classify_transaction X header tx = Ok (Some op)}"
proof -
  from assms obtain rs where rs: "map_res (classify_transaction X header) (block_txs block) = Ok rs" and "found = List.map_filter id rs"
    by (auto simp: get_blockstack_transactions_def and_then_Ok_iff)
  then have "op \<in> set found \<longleftrightarrow> Some op \<in> set rs" for op by (force simp: map_filter_def)
  with map_res_set [OF rs] show ?thesis by auto
qed

section \<open>Storing and reading back\<close>

lemma find_hash_snoc:
  "find (\<lambda>h. hdr_block_hash h = b) (rows @ [r]) =
     (case find (\<lambda>h. hdr_block_hash h = b) rows of Some h \<Rightarrow> Some h | None \<Rightarrow> if hdr_block_hash r = b then Some r else None)"
  by (induction rows) auto

lemma stored_block_read:
  assumes "burn_db_inv db" and "store_new_burnchain_block X db block = Ok (ops, db')"
  shows "get_burnchain_block db' b =
    (if b = hdr_block_hash (block_header block) then Ok \<lparr>bd_header = block_header block, bd_ops = ops\<rparr> else get_burnchain_block db b)"
proof -
  from assms(2) obtain found where s: "hdr_block_hash (block_header block) \<notin> hdr_block_hash ` set (burnchain_db_block_headers db)"
    "burnchain_db_block_headers db' = burnchain_db_block_headers db @ [block_header block]"
    "burnchain_db_block_ops db' = burnchain_db_block_ops db @ map (\<lambda>op. (hdr_block_hash (block_header block), op)) ops" by (rule store_block_Ok)
  let ?h = "hdr_block_hash (block_header block)"
  have new: "find (\<lambda>h. hdr_block_hash h = ?h) (burnchain_db_block_headers db) = None"
    using s(1) unfolding find_None_iff by (metis imageI)
  have ops: "filter (\<lambda>(h, _). h = b) (map (\<lambda>op. (?h, op)) ops) = (if b = ?h then map (\<lambda>op. (?h, op)) ops else [])"
    by (induction ops) auto
  have old: "filter (\<lambda>(h, _). h = ?h) (burnchain_db_block_ops db) = []"
  proof -
    have "?h \<notin> fst ` set (burnchain_db_block_ops db)" using assms(1) s(1) unfolding burn_db_inv_def by blast
    then show ?thesis unfolding filter_empty_conv by force
  qed
  show ?thesis unfolding get_burnchain_block_def s(2,3) find_hash_snoc filter_append ops
    by (cases "b = ?h") (simp_all add: new old ok_or_def comp_def split: option.split)
qed

text \<open>The canonical tip is the highest stored header, the least hash among the highest.\<close>

lemma tip_highest:
  assumes "burn_db_inv db"
  shows "\<exists>tip \<in> set (burnchain_db_block_headers db). get_canonical_chain_tip db = Ok tip \<and>
    (\<forall>h \<in> set (burnchain_db_block_headers db). h = tip \<or> precedes hdr_block_height hdr_block_hash tip h)"
proof -
  obtain tip where tip: "first_by hdr_block_height hdr_block_hash (burnchain_db_block_headers db) = Some tip"
    using assms first_by_Some unfolding burn_db_inv_def by metis
  from first_by_least [OF this] have t: "tip \<in> set (burnchain_db_block_headers db)"
    "\<And>h. h \<in> set (burnchain_db_block_headers db) \<Longrightarrow> \<not> precedes hdr_block_height hdr_block_hash h tip" by auto
  have "h = tip \<or> precedes hdr_block_height hdr_block_hash tip h" if h: "h \<in> set (burnchain_db_block_headers db)" for h
  proof -
    have "hdr_block_hash h = hdr_block_hash tip \<Longrightarrow> h = tip"
      using assms h t(1) by (auto simp: burn_db_inv_def distinct_map dest: inj_onD)
    then show ?thesis using t(2) [OF h] bytes_less_total [of "hdr_block_hash h" "hdr_block_hash tip"] by (auto simp: precedes_def)
  qed
  with t(1) tip show ?thesis by (auto simp: get_canonical_chain_tip_def expect_def)
qed

lemma stored_twice:
  assumes "store_new_burnchain_block X db block = Ok (ops, db')"
  shows "store_new_burnchain_block X db' block = Err (BurnDBError SqliteError)"
proof -
  from assms obtain found where s: "get_blockstack_transactions X block (block_header block) = Ok found"
    "apply_blockstack_txs_safety_checks (hdr_block_height (block_header block)) found = Ok ops"
    "burnchain_db_block_headers db' = burnchain_db_block_headers db @ [block_header block]" by (rule store_block_Ok)
  obtain vs where "map_res u64_to_sql [hdr_block_height (block_header block), hdr_num_txs (block_header block), hdr_timestamp (block_header block)] = Ok vs"
    using assms by (auto simp: store_new_burnchain_block_def store_burnchain_db_entry_def Let_def and_then_Ok_iff simp del: map_res.simps)
  then show ?thesis by (simp add: store_new_burnchain_block_def s store_burnchain_db_entry_def Let_def del: map_res.simps)
qed

text \<open>C37. A burnchain block that is stored reads back as its header with exactly the operations its
  transactions encode, in strictly increasing order of their position and all at the height of the block;
  every other stored block reads as before, storing the block again is refused, and the canonical tip is
  always the highest stored header, the one of least hash among the highest.\<close>

theorem burn_block_round_trip:
  assumes "burn_db_reachable X db" and "store_new_burnchain_block X db block = Ok (ops, db')"
  shows "get_burnchain_block db' b =
      (if b = hdr_block_hash (block_header block) then Ok \<lparr>bd_header = block_header block, bd_ops = ops\<rparr> else get_burnchain_block db b) \<and>
    set ops = {op. \<exists>tx \<in> set (block_txs block). classify_transaction X (block_header block) tx = Ok (Some op)} \<and>
    ops_are_sorted ops \<and> (\<forall>op \<in> set ops. op_block_height op = hdr_block_height (block_header block)) \<and>
    store_new_burnchain_block X db' block = Err (BurnDBError SqliteError) \<and>
    (\<exists>tip \<in> set (burnchain_db_block_headers db'). get_canonical_chain_tip db' = Ok tip \<and>
      (\<forall>h \<in> set (burnchain_db_block_headers db'). h = tip \<or> precedes hdr_block_height hdr_block_hash tip h))"
proof -
  from assms(2) obtain found where s: "get_blockstack_transactions X block (block_header block) = Ok found"
    "apply_blockstack_txs_safety_checks (hdr_block_height (block_header block)) found = Ok ops" by (rule store_block_Ok)
  have "burn_db_inv db" "burn_db_inv db'" using assms by (blast intro: reachable_burn_db_inv burn_db_store)+
  moreover have "set ops = set found" "ops_are_sorted ops" "\<forall>op \<in> set ops. op_block_height op = hdr_block_height (block_header block)"
    using safety_checks_Ok [OF s(2)] by auto
  ultimately show ?thesis using stored_block_read [OF _ assms(2)] tip_highest [of db'] stored_twice [OF assms(2)] found_set [OF s(1)] by blast
qed

definition example_burn_block :: BurnchainBlock where
  "example_burn_block = BitcoinBlk \<lparr>btcblk_height = 1, btcblk_hash = example_block 2, btcblk_parent_hash = example_block 1,
     btcblk_txs = [], btcblk_timestamp = 0\<rparr>"

theorem burn_block_round_trip_witness:
  "\<exists>db db'. burnchain_db_connect 0 (example_block 1) 0 = Ok db \<and> store_new_burnchain_block example_externals db example_burn_block = Ok ([], db') \<and>
     get_burnchain_block db' (example_block 2) = Ok \<lparr>bd_header = block_header example_burn_block, bd_ops = []\<rparr> \<and>
     get_canonical_chain_tip db' = Ok (block_header example_burn_block)"
proof -
  let ?h = "\<lparr>hdr_block_height = 0, hdr_block_hash = example_block 1, hdr_parent_block_hash = SENTINEL_ARRAY, hdr_num_txs = 0, hdr_timestamp = 0\<rparr>"
  define db where "db = \<lparr>burnchain_db_block_headers = [?h], burnchain_db_block_ops = []\<rparr>"
  have sql: "u64_to_sql 0 = Ok 0" "u64_to_sql 1 = Ok 1" by (simp_all add: u64_to_sql_def)
  have db: "burnchain_db_connect 0 (example_block 1) 0 = Ok db"
    by (simp add: burnchain_db_connect_def store_burnchain_db_entry_def db_def sql)
  have "\<exists>db'. store_new_burnchain_block example_externals db example_burn_block = Ok ([], db')"
    by (simp add: store_new_burnchain_block_def store_burnchain_db_entry_def get_blockstack_transactions_def example_burn_block_def Let_def
        map_filter_def apply_blockstack_txs_safety_checks_def example_block_def db_def sql)
  then obtain db' where db': "store_new_burnchain_block example_externals db example_burn_block = Ok ([], db')" by blast
  from db' have "get_canonical_chain_tip db' = Ok (block_header example_burn_block)"
    by (rule store_block_Ok) (simp add: db_def get_canonical_chain_tip_def first_by_def example_burn_block_def expect_def)
  with db db' burn_block_round_trip [OF burn_db_new [OF db] db', of "example_block 2"] show ?thesis
    by (auto simp: example_burn_block_def)
qed

end
