(* ===== verification/Arrivals.thy ===== *)
theory Arrivals
  imports SortitionQueries
begin

text \<open>
  Stacks blocks that arrived since a snapshot was made. Every accepted block has its own arrival index
  in every reachable database, and appending a snapshot commits to the blocks that arrived on its fork
  and moves the memoized canonical Stacks tip to the highest of them. When the same burn block has
  been processed on two PoX forks, an arrival on one of them makes every append to the other panic.
\<close>

section \<open>Arrival indices\<close>

definition arrival_inv :: "SortitionHandleTx \<Rightarrow> bool" where
  "arrival_inv db \<longleftrightarrow>
     (\<forall>s \<in> set (snapshots db). if sn_stacks_block_accepted s then 0 < sn_arrival_index s \<and> unat (sn_arrival_index s) < 2 ^ 63
        else sn_arrival_index s = 0) \<and>
     inj_on sn_arrival_index {s \<in> set (snapshots db). sn_stacks_block_accepted s}"

lemma arrival_handle [simp]: "arrival_inv (db\<lparr>chain_tip := t\<rparr>) = arrival_inv db"
  by (simp add: arrival_inv_def)

lemma fold_max_ge: "m \<le> fold (\<lambda>sn m. max (f sn) m) xs (m :: 'a::linorder) \<and> (\<forall>s \<in> set xs. f s \<le> fold (\<lambda>sn m. max (f sn) m) xs m)"
proof (induction xs arbitrary: m)
  case (Cons x xs)
  from Cons.IH [of "max (f x) m"] show ?case by auto
qed simp

lemma fold_max_in: "fold (\<lambda>sn m. max (f sn) m) xs (m :: 'a::linorder) \<in> insert m (f ` set xs)"
proof (induction xs arbitrary: m)
  case (Cons x xs)
  from Cons.IH [of "max (f x) m"] show ?case by (auto simp: max_def split: if_splits)
qed simp

lemma max_arrival_ge: "s \<in> set (snapshots db) \<Longrightarrow> sn_arrival_index s \<le> get_max_arrival_index db"
  using fold_max_ge [of 0 sn_arrival_index "snapshots db"] by (simp add: get_max_arrival_index_def)

lemma max_arrival_bound: "arrival_inv db \<Longrightarrow> unat (get_max_arrival_index db) < 2 ^ 63"
  using fold_max_in [of sn_arrival_index "snapshots db" 0]
  by (auto simp: get_max_arrival_index_def arrival_inv_def split: if_splits)

definition arrival_at :: "SortitionHandleTx \<Rightarrow> u64 \<Rightarrow> BlockSnapshot option" where
  "arrival_at db i = find (\<lambda>s. sn_arrival_index s = i \<and> sn_stacks_block_accepted s) (snapshots db)"

lemma arrival_at_Some: "arrival_at db i = Some a \<Longrightarrow> a \<in> set (snapshots db) \<and> sn_arrival_index a = i \<and> sn_stacks_block_accepted a"
  using find_SomeD by (fastforce simp: arrival_at_def)

lemma filter_unique:
  assumes "distinct xs" and "\<And>x y. x \<in> set xs \<Longrightarrow> y \<in> set xs \<Longrightarrow> P x \<Longrightarrow> P y \<Longrightarrow> x = y"
  shows "filter P xs = [] \<or> (\<exists>x. filter P xs = [x])"
proof (cases "filter P xs" rule: list.exhaust)
  case (Cons x ys)
  moreover have "distinct (filter P xs)" using assms(1) by simp
  moreover have "y = x" if "y \<in> set ys" for y
  proof -
    have "y \<in> set (filter P xs)" "x \<in> set (filter P xs)" using that Cons by simp_all
    then show ?thesis using assms(2) by auto
  qed
  ultimately show ?thesis by (cases ys) auto
qed simp

lemma u64_to_sql_Ok [simp]: "unat x < 2 ^ 63 \<Longrightarrow> u64_to_sql x = Ok x"
  by (simp add: u64_to_sql_def word_less_nat_alt not_less)

lemma snapshot_by_arrival:
  assumes "sort_inv db" and "arrival_inv db" and "unat i < 2 ^ 63"
  shows "get_snapshot_by_arrival_index db i = Ok (arrival_at db i)"
proof -
  let ?P = "\<lambda>s. sn_arrival_index s = i \<and> sn_stacks_block_accepted s"
  have "distinct (snapshots db)" using assms(1) by (auto simp: sort_inv_def distinct_map)
  then have "filter ?P (snapshots db) = [] \<or> (\<exists>x. filter ?P (snapshots db) = [x])"
    by (rule filter_unique) (use assms(2) in \<open>auto simp: arrival_inv_def inj_on_def\<close>)
  then show ?thesis using assms(3)
    by (auto simp: get_snapshot_by_arrival_index_def arrival_at_def find_filter query_row_panic_def)
qed

section \<open>Every step keeps the arrival indices\<close>

lemma arrival_append:
  assumes "arrival_inv db" and "snapshots db' = snapshots db @ [sn']" and "\<not> sn_stacks_block_accepted sn'" "sn_arrival_index sn' = 0"
  shows "arrival_inv db'"
proof -
  have "{s \<in> set (snapshots db'). sn_stacks_block_accepted s} = {s \<in> set (snapshots db). sn_stacks_block_accepted s}"
    using assms(2,3) by auto
  with assms show ?thesis by (auto simp: arrival_inv_def)
qed

definition updates_tips :: "SortitionHandleTx \<Rightarrow> SortitionHandleTx \<Rightarrow> bool" where
  "updates_tips tx tx' \<longleftrightarrow> (\<exists>f. (\<forall>s. sn_stacks_block_accepted (f s) = sn_stacks_block_accepted s \<and>
     sn_arrival_index (f s) = sn_arrival_index s) \<and> snapshots tx' = map f (snapshots tx))"

lemma arrival_updates_tips:
  assumes inv: "arrival_inv db" and up: "updates_tips db db'"
  shows "arrival_inv db'"
proof -
  from up obtain f where f: "\<And>s. sn_stacks_block_accepted (f s) = sn_stacks_block_accepted s" "\<And>s. sn_arrival_index (f s) = sn_arrival_index s"
    "snapshots db' = map f (snapshots db)" by (auto simp: updates_tips_def)
  have "inj_on sn_arrival_index {s \<in> set (snapshots db'). sn_stacks_block_accepted s}"
    using inv unfolding arrival_inv_def inj_on_def by (auto simp: f)
  with inv show ?thesis by (auto simp: arrival_inv_def f)
qed

lemma tips_refl: "updates_tips tx tx"
  by (auto simp: updates_tips_def intro!: exI [of _ id])

lemma tips_pointer: "insert_accepted_stacks_block_pointer tx a b c h = Ok tx' \<Longrightarrow> updates_tips tx tx'"
  by (auto simp: insert_accepted_stacks_block_pointer_def and_then_Ok_iff updates_tips_def intro!: exI [of _ id])

lemma tips_memoize:
  assumes "memoize_tip a b c h tx = Ok tx'"
  shows "updates_tips tx tx'"
proof -
  let ?f = "\<lambda>sn. if sn_sortition_id sn = a then
      sn\<lparr>sn_canonical_stacks_tip_consensus_hash := b, sn_canonical_stacks_tip_hash := c, sn_canonical_stacks_tip_height := h\<rparr> else sn"
  have "snapshots tx' = map ?f (snapshots tx)" using assms by (auto simp: memoize_tip_def and_then_Ok_iff)
  then show ?thesis unfolding updates_tips_def by (intro exI [of _ ?f]) simp
qed

lemma tips_trans: "updates_tips a b \<Longrightarrow> updates_tips b c \<Longrightarrow> updates_tips a c"
proof -
  assume "updates_tips a b" "updates_tips b c"
  then obtain f g where "\<forall>s. sn_stacks_block_accepted (f s) = sn_stacks_block_accepted s \<and> sn_arrival_index (f s) = sn_arrival_index s"
    "snapshots b = map f (snapshots a)"
    "\<forall>s. sn_stacks_block_accepted (g s) = sn_stacks_block_accepted s \<and> sn_arrival_index (g s) = sn_arrival_index s"
    "snapshots c = map g (snapshots b)" by (auto simp: updates_tips_def)
  then show ?thesis unfolding updates_tips_def by (intro exI [of _ "g \<circ> f"]) auto
qed

lemma inj_on_mark:
  assumes inj: "inj_on a {s \<in> S. p s}" and new: "m \<notin> a ` S"
    and hit: "\<And>s. hit s \<Longrightarrow> a (f s) = m" and miss: "\<And>s. \<not> hit s \<Longrightarrow> f s = s"
    and one: "\<And>s t. s \<in> S \<Longrightarrow> t \<in> S \<Longrightarrow> hit s \<Longrightarrow> hit t \<Longrightarrow> s = t"
  shows "inj_on a {x \<in> f ` S. p x}"
proof (rule inj_onI)
  fix x y
  assume x: "x \<in> {x \<in> f ` S. p x}" and y: "y \<in> {x \<in> f ` S. p x}" and eq: "a x = a y"
  from x obtain s where s: "s \<in> S" "x = f s" by auto
  from y obtain t where t: "t \<in> S" "y = f t" by auto
  show "x = y"
  proof (cases "hit s \<longleftrightarrow> hit t")
    case True
    then show ?thesis
    proof (cases "hit s")
      case True
      with \<open>hit s \<longleftrightarrow> hit t\<close> one [OF s(1) t(1)] s t show ?thesis by simp
    next
      case False
      with \<open>hit s \<longleftrightarrow> hit t\<close> have "x = s" "y = t" using miss s t by simp_all
      with x y s t eq inj show ?thesis by (auto simp: inj_on_def)
    qed
  next
    case False
    then have "m \<in> a ` S" using hit miss eq s t by (metis image_eqI)
    with new show ?thesis by contradiction
  qed
qed

lemma arrival_mark:
  assumes inv: "arrival_inv tx" and d: "distinct (map sn_consensus_hash (snapshots tx))"
    and ok: "unat (get_max_arrival_index tx + 1) < 2 ^ 63"
  shows "arrival_inv (tx\<lparr>snapshots := map (\<lambda>sn. if sn_consensus_hash sn = ch \<and> sn_winning_stacks_block_hash sn = bhh
      then sn\<lparr>sn_stacks_block_accepted := True, sn_stacks_block_height := h, sn_arrival_index := get_max_arrival_index tx + 1\<rparr> else sn) (snapshots tx)\<rparr>)"
proof -
  let ?m = "get_max_arrival_index tx"
  let ?hit = "\<lambda>sn. sn_consensus_hash sn = ch \<and> sn_winning_stacks_block_hash sn = bhh"
  let ?f = "\<lambda>sn. if ?hit sn then sn\<lparr>sn_stacks_block_accepted := True, sn_stacks_block_height := h, sn_arrival_index := ?m + 1\<rparr> else sn"
  have m1: "unat (?m + 1) = unat ?m + 1" using max_arrival_bound [OF inv] by (simp add: unat_word_ariths)
  have pos: "0 < ?m + 1" using m1 by (simp add: word_less_nat_alt)
  have ne: "sn_arrival_index s \<noteq> ?m + 1" if "s \<in> set (snapshots tx)" for s
    using max_arrival_ge [OF that] m1 by (auto simp: word_le_nat_alt)
  have one: "s = t" if "s \<in> set (snapshots tx)" "t \<in> set (snapshots tx)" "?hit s" "?hit t" for s t
    using that d by (auto simp: distinct_map inj_on_def)
  have "inj_on sn_arrival_index {x \<in> ?f ` set (snapshots tx). sn_stacks_block_accepted x}"
  proof (rule inj_on_mark [where hit = ?hit and m = "?m + 1"])
    show "inj_on sn_arrival_index {s \<in> set (snapshots tx). sn_stacks_block_accepted s}" using inv by (simp add: arrival_inv_def)
    show "?m + 1 \<notin> sn_arrival_index ` set (snapshots tx)" using ne by force
    show "s = t" if "s \<in> set (snapshots tx)" "t \<in> set (snapshots tx)" "?hit s" "?hit t" for s t by (rule one [OF that])
    show "?f s = s" if "\<not> ?hit s" for s by (rule if_not_P) (rule that)
  qed simp
  moreover have "if sn_stacks_block_accepted x then 0 < sn_arrival_index x \<and> unat (sn_arrival_index x) < 2 ^ 63 else sn_arrival_index x = 0"
    if "x \<in> ?f ` set (snapshots tx)" for x
  proof -
    from that obtain s where s: "s \<in> set (snapshots tx)" "x = ?f s" by blast
    show ?thesis
    proof (cases "?hit s")
      case True
      then show ?thesis using s(2) pos ok by simp
    next
      case False
      then have "x = s" unfolding s(2) by (rule if_not_P)
      then show ?thesis using s(1) inv unfolding arrival_inv_def by blast
    qed
  qed
  moreover have "snapshots (tx\<lparr>snapshots := xs\<rparr>) = xs" for xs by simp
  ultimately show ?thesis unfolding arrival_inv_def by (simp only: set_map) blast
qed

lemma arrival_accept:
  assumes sinv: "sort_inv tx" and inv: "arrival_inv tx" and ok: "set_stacks_block_accepted_at_tip tx tip ch parent bhh h = Ok tx'"
  shows "arrival_inv tx'"
proof -
  define T where "T = tx\<lparr>snapshots := map (\<lambda>sn. if sn_consensus_hash sn = ch \<and> sn_winning_stacks_block_hash sn = bhh
      then sn\<lparr>sn_stacks_block_accepted := True, sn_stacks_block_height := h, sn_arrival_index := get_max_arrival_index tx + 1\<rparr> else sn) (snapshots tx)\<rparr>"
  have "unat (get_max_arrival_index tx + 1) < 2 ^ 63"
    using ok unfolding set_stacks_block_accepted_at_tip_def Let_def
    by (auto simp: and_then_Ok_iff u64_to_sql_def word_less_nat_alt not_less split: if_splits)
  then have T: "arrival_inv T" unfolding T_def using sinv inv by (intro arrival_mark) (simp_all add: sort_inv_def)
  have step: "updates_tips T tx'" if "insert_accepted_stacks_block_pointer tx2 a b c d = Ok tx'" "T = tx2 \<or> memoize_tip e b c d T = Ok tx2" for tx2 a b c d e
    using that tips_pointer tips_memoize tips_trans by metis
  have "updates_tips T tx'"
    using ok unfolding set_stacks_block_accepted_at_tip_def Let_def T_def [symmetric]
    by (auto simp: and_then_Ok_iff tips_refl split: if_splits option.splits intro: step)
  with T show ?thesis by (rule arrival_updates_tips)
qed

text \<open>Storing transition operations and invalidating rows touch neither the index nor the arrivals.\<close>

definition quiet :: "SortitionHandleTx \<Rightarrow> SortitionHandleTx \<Rightarrow> bool" where
  "quiet db db' \<longleftrightarrow> handle_index db' = handle_index db \<and> (\<exists>f. (\<forall>s. same_core (f s) s \<and> sn_arrival_index (f s) = sn_arrival_index s \<and>
     sn_stacks_block_accepted (f s) = sn_stacks_block_accepted s) \<and> snapshots db' = map f (snapshots db))"

lemma quiet_transition: "store_transition_ops db sid tr = Ok db' \<Longrightarrow> quiet db db'"
  by (auto simp: store_transition_ops_def quiet_def same_core_def intro!: exI [of _ id] split: if_splits)

lemma quiet_invalidate: "invalidate_descendants_of db h = Some db' \<Longrightarrow> quiet db db'"
proof (drule invalidate_marks [of "[h]", folded invalidate_descendants_of_def])
  assume "marks_invalid db db'"
  then obtain P where P: "db' = db\<lparr>snapshots := map (\<lambda>s. if P s then s\<lparr>sn_pox_valid := False\<rparr> else s) (snapshots db)\<rparr>"
    unfolding marks_invalid_def by blast
  show "quiet db db'" unfolding quiet_def P
    by (intro conjI exI [of _ "\<lambda>s. if P s then s\<lparr>sn_pox_valid := False\<rparr> else s"]) (simp_all add: same_core_def)
qed

lemma quiet_tips: "quiet db db' \<Longrightarrow> updates_tips db db'"
  unfolding quiet_def updates_tips_def by blast

lemma reachable_arrival_inv: "sortition_reachable X root db \<Longrightarrow> arrival_inv db"
proof (induction rule: sortition_reachable.induct)
  case (reach_new first_burn_hash first_height time db)
  from inv_new(2) [OF this] have "\<exists>r. snapshots db = [snapshot_initial X first_height first_burn_hash time\<lparr>sn_index_root := r\<rparr>]" .
  then show ?case by (auto simp: arrival_inv_def snapshot_initial_def inj_on_def)
next
  case (reach_next db db')
  note sinv = reachable_sort_inv [OF reach_next.hyps(1)]
  from reach_next.hyps(2) show ?case
  proof cases
    case (step_append parent sn ops info recip r tx)
    from inv_append(2) [OF sinv step_append(1,2,5,6)] obtain sn' p where
      "snapshots db' = snapshots db @ [sn']" "takes_tip sn' sn p" by blast
    moreover from this have "\<not> sn_stacks_block_accepted sn'" "sn_arrival_index sn' = 0"
      using step_append(3,4) by (auto simp: takes_tip_def)
    ultimately show ?thesis using arrival_append [OF reach_next.IH] by blast
  next
    case (step_accept tip ch parent_bhh bhh height)
    then obtain burn_tip where ok: "set_stacks_block_accepted_at_tip (db\<lparr>chain_tip := tip\<rparr>) burn_tip ch parent_bhh bhh height = Ok db'"
      by (auto simp: set_stacks_block_accepted_def and_then_Ok_iff)
    show ?thesis by (rule arrival_accept [OF _ _ ok]) (simp_all add: sinv reach_next.IH)
  qed (use arrival_updates_tips [OF reach_next.IH] quiet_tips quiet_transition quiet_invalidate in blast)+
qed

section \<open>The blocks that arrived on a fork\<close>

definition arrived :: "SortitionHandleTx \<Rightarrow> BlockSnapshot list \<Rightarrow> nat \<Rightarrow> BlockSnapshot list" where
  "arrived tx rows ari =
     (case arrival_at tx (of_nat ari) of Some a \<Rightarrow> if a \<in> set rows then [a] else [] | None \<Rightarrow> [])"

definition arrival_entry :: "BlockSnapshot \<Rightarrow> bytes \<times> bytes \<times> u64" where
  "arrival_entry sn = (sn_consensus_hash sn, sn_winning_stacks_block_hash sn, sn_stacks_block_height sn)"

lemma new_arrival_eq:
  assumes h: "handle_on tx rows" and a: "arrival_inv tx" and ari: "ari < 2 ^ 63"
  shows "new_arrival tx (sn_sortition_id (last rows)) ari xs =
    (case arrival_at tx (of_nat ari) of
       None \<Rightarrow> Ok xs
     | Some s \<Rightarrow> (case find (\<lambda>r. sn_burn_header_hash r = sn_burn_header_hash s) (rev rows) of
         None \<Rightarrow> Ok xs
       | Some r \<Rightarrow> if r \<noteq> s then Panic else Ok (xs @ [arrival_entry r])))"
proof -
  have inv: "sort_inv tx" and c: "stored_chain tx rows" "chain_keys tx rows" using h by (simp_all add: handle_on_def)
  have "unat (of_nat ari :: u64) < 2 ^ 63" using ari by (simp add: unat_of_nat)
  from snapshot_by_arrival [OF inv a this] show ?thesis
    by (simp add: new_arrival_def snapshot_by_burn_hash [OF inv c] arrival_entry_def split: option.split)
qed

text \<open>No accepted block shares its burn block with another sortition of the chain.\<close>

definition no_pox_clash :: "SortitionHandleTx \<Rightarrow> BlockSnapshot list \<Rightarrow> bool" where
  "no_pox_clash tx rows \<longleftrightarrow> (\<forall>a \<in> set (snapshots tx). \<forall>r \<in> set rows.
     sn_stacks_block_accepted a \<longrightarrow> sn_burn_header_hash a = sn_burn_header_hash r \<longrightarrow> a = r)"

lemma new_arrival_ok:
  assumes h: "handle_on tx rows" and a: "arrival_inv tx" and ari: "ari < 2 ^ 63" and nc: "no_pox_clash tx rows"
  shows "new_arrival tx (sn_sortition_id (last rows)) ari xs = Ok (xs @ map arrival_entry (arrived tx rows ari))"
proof (cases "arrival_at tx (of_nat ari)")
  case None
  then show ?thesis by (simp add: new_arrival_eq [OF h a ari] arrived_def)
next
  case (Some s)
  note s = arrival_at_Some [OF Some]
  show ?thesis
  proof (cases "find (\<lambda>r. sn_burn_header_hash r = sn_burn_header_hash s) (rev rows)")
    case None
    then have "s \<notin> set rows" by (auto simp: find_None_iff)
    with None Some show ?thesis by (simp add: new_arrival_eq [OF h a ari] arrived_def)
  next
    case F: (Some r)
    from find_SomeD [OF F] have r: "r \<in> set rows" "sn_burn_header_hash r = sn_burn_header_hash s" by simp_all
    with s nc have "s = r" unfolding no_pox_clash_def by metis
    with r have "s = r" "s \<in> set rows" by simp_all
    with F Some show ?thesis by (simp add: new_arrival_eq [OF h a ari] arrived_def)
  qed
qed

lemma arrivals_loop:
  assumes "handle_on tx rows" and "arrival_inv tx" and "no_pox_clash tx rows" and "\<And>i. i \<in> set is \<Longrightarrow> i < 2 ^ 63"
  shows "fold_res (new_arrival tx (sn_sortition_id (last rows))) is xs = Ok (xs @ map arrival_entry (concat (map (arrived tx rows) is)))"
  using assms(4) by (induction "is" arbitrary: xs) (auto simp: new_arrival_ok [OF assms(1,2) _ assms(3)])

definition max_arrival_of :: "SortitionHandleTx \<Rightarrow> BlockSnapshot \<Rightarrow> u64" where
  "max_arrival_of tx sn = (case view_at tx sn StacksBlockMaxArrivalIndex of Some (VNumber n) \<Rightarrow> n | _ \<Rightarrow> 0)"

definition new_arrivals :: "SortitionHandleTx \<Rightarrow> BlockSnapshot list \<Rightarrow> BlockSnapshot list" where
  "new_arrivals tx rows =
     concat (map (arrived tx rows) [unat (max_arrival_of tx (last rows))..<unat (get_max_arrival_index tx + 1)])"

lemma arrival_at_accepted:
  assumes a: "arrival_inv tx" and s: "s \<in> set (snapshots tx)" "sn_stacks_block_accepted s"
  shows "arrival_at tx (sn_arrival_index s) = Some s"
proof (cases "arrival_at tx (sn_arrival_index s)")
  case None
  with s show ?thesis unfolding arrival_at_def find_None_iff by blast
next
  case (Some t)
  from arrival_at_Some [OF this] s a have "t = s" unfolding arrival_inv_def inj_on_def by blast
  with Some show ?thesis by simp
qed

lemma new_arrivals_set:
  assumes h: "handle_on tx rows" and a: "arrival_inv tx"
  shows "set (new_arrivals tx rows) = {s \<in> set rows. sn_stacks_block_accepted s \<and> max_arrival_of tx (last rows) \<le> sn_arrival_index s}"
proof -
  have sub: "set rows \<subseteq> set (snapshots tx)" using h by (simp add: handle_on_def stored_chain_def)
  have m: "unat (get_max_arrival_index tx + 1) = unat (get_max_arrival_index tx) + 1" "unat (get_max_arrival_index tx) < 2 ^ 63"
    using max_arrival_bound [OF a] by (simp_all add: unat_word_ariths)
  note at = arrival_at_accepted [OF a]
  show ?thesis
  proof (intro equalityI subsetI)
    fix s assume "s \<in> set (new_arrivals tx rows)"
    then obtain i where i: "unat (max_arrival_of tx (last rows)) \<le> i" "i < unat (get_max_arrival_index tx + 1)" "arrival_at tx (of_nat i) = Some s" "s \<in> set rows"
      by (auto simp: new_arrivals_def arrived_def split: option.splits if_splits)
    from arrival_at_Some [OF i(3)] have "sn_stacks_block_accepted s" "sn_arrival_index s = of_nat i" by simp_all
    moreover have "unat (of_nat i :: u64) = i" using i(2) m by (simp add: unat_of_nat)
    ultimately show "s \<in> {s \<in> set rows. sn_stacks_block_accepted s \<and> max_arrival_of tx (last rows) \<le> sn_arrival_index s}"
      using i by (simp add: word_le_nat_alt)
  next
    fix s assume "s \<in> {s \<in> set rows. sn_stacks_block_accepted s \<and> max_arrival_of tx (last rows) \<le> sn_arrival_index s}"
    then have s: "s \<in> set rows" "s \<in> set (snapshots tx)" "sn_stacks_block_accepted s" "max_arrival_of tx (last rows) \<le> sn_arrival_index s" using sub by auto
    have "unat (sn_arrival_index s) \<in> set [unat (max_arrival_of tx (last rows))..<unat (get_max_arrival_index tx + 1)]"
      using max_arrival_ge [OF s(2)] s(4) m by (auto simp: word_le_nat_alt)
    moreover have "s \<in> set (arrived tx rows (unat (sn_arrival_index s)))" using at [OF s(2,3)] s(1) by (simp add: arrived_def)
    ultimately show "s \<in> set (new_arrivals tx rows)" unfolding new_arrivals_def by auto
  qed
qed

lemma fold_better_tip: "fold better_tip (map arrival_entry xs) (ch, b, h) = (ch', b', h') \<Longrightarrow>
    h' = fold (\<lambda>s m. max (sn_stacks_block_height s) m) xs h \<and> ((ch', b', h') = (ch, b, h) \<or> (ch', b', h') \<in> arrival_entry ` set xs)"
proof (induction xs arbitrary: ch b h)
  case (Cons x xs)
  show ?case
  proof (cases "sn_stacks_block_height x > h")
    case True
    with Cons.IH [of "sn_consensus_hash x" "sn_winning_stacks_block_hash x" "sn_stacks_block_height x"] Cons.prems
    show ?thesis by (auto simp: better_tip_def arrival_entry_def max_def)
  next
    case False
    with Cons.IH [of ch b h] Cons.prems show ?thesis by (auto simp: better_tip_def arrival_entry_def max_def)
  qed
qed simp

lemma arrivals_result:
  assumes h: "handle_on tx rows" and a: "arrival_inv tx" and nc: "no_pox_clash tx rows" and last: "last rows = parent"
  shows "\<exists>parent'. process_new_block_arrivals tx parent =
      Ok (map (\<lambda>s. (StacksBlockIndex (sn_winning_stacks_block_hash s), VNumber (sn_stacks_block_height s))) (new_arrivals tx rows) @
          [(StacksBlockMaxArrivalIndex, VNumber (get_max_arrival_index tx))], parent') \<and>
    sn_canonical_stacks_tip_height parent' =
      fold (\<lambda>s m. max (sn_stacks_block_height s) m) (new_arrivals tx rows) (sn_canonical_stacks_tip_height parent) \<and>
    ((sn_canonical_stacks_tip_consensus_hash parent', sn_canonical_stacks_tip_hash parent', sn_canonical_stacks_tip_height parent') \<in>
      insert (sn_canonical_stacks_tip_consensus_hash parent, sn_canonical_stacks_tip_hash parent, sn_canonical_stacks_tip_height parent)
        (arrival_entry ` set (new_arrivals tx rows)))"
proof -
  have inv: "sort_inv tx" "index_ready (handle_index tx)" using h by (simp_all add: handle_on_def sort_inv_def)
  have "view_at tx parent StacksBlockMaxArrivalIndex \<in> insert None (range (Some \<circ> VNumber))"
    using h last by (simp add: handle_on_def chain_keys_def)
  then have old: "(case view_at tx parent StacksBlockMaxArrivalIndex of None \<Rightarrow> Ok 0 | Some (VNumber n) \<Rightarrow> Ok n | Some _ \<Rightarrow> Panic) =
      (Ok (max_arrival_of tx parent) :: (db_error, u64) res)" by (auto simp: max_arrival_of_def)
  have m: "unat (get_max_arrival_index tx + 1) \<le> 2 ^ 63" using max_arrival_bound [OF a] by (simp add: unat_word_ariths)
  have loop: "fold_res (new_arrival tx (sn_sortition_id parent)) [unat (max_arrival_of tx parent)..<unat (get_max_arrival_index tx + 1)] [] =
      Ok (map arrival_entry (new_arrivals tx rows))"
    using arrivals_loop [OF h a nc, of "[unat (max_arrival_of tx parent)..<unat (get_max_arrival_index tx + 1)]" "[]"] m last
    by (auto simp: new_arrivals_def)
  obtain ch b ht where f: "fold better_tip (map arrival_entry (new_arrivals tx rows))
      (sn_canonical_stacks_tip_consensus_hash parent, sn_canonical_stacks_tip_hash parent, sn_canonical_stacks_tip_height parent) = (ch, b, ht)"
    by (metis prod_cases3)
  show ?thesis using fold_better_tip [OF f]
    by (auto simp: process_new_block_arrivals_def tx_get_view [OF inv(2)] old loop f Let_def arrival_entry_def comp_def)
qed

section \<open>Appending succeeds\<close>

lemma index_err_Ok: "index_err r = Ok x \<longleftrightarrow> r = Ok x"
  by (cases r) auto

lemma index_put_parts:
  assumes ready: "index_ready i" and n: "n \<noteq> SENTINEL_ARRAY" and ok: "index_put i p n ks vs = Ok i3"
  shows "\<exists>i1 i2. put_indexed_begin i p n = Ok i1 \<and> (\<forall>root. put_indexed_all root i1 ks vs = Ok (root (storage (index_tx i2)), i2)) \<and>
    index_commit i2 = Ok i3 \<and> cur_block (storage (index_tx i2)) = n"
proof -
  from ok obtain i1 r i2 where o: "put_indexed_begin i p n = Ok i1" "put_indexed_all (\<lambda>_. []) i1 ks vs = Ok (r, i2)" "index_commit i2 = Ok i3"
    by (auto simp: index_put_def and_then_Ok_iff)
  have inv: "marf_inv (index_tx i)" using ready by (simp add: index_ready_def)
  have b: "marf_begin (index_tx i) p n = Ok (index_tx i1)" "block_linkage i1 \<noteq> None"
    using o(1) ready by (auto simp: put_indexed_begin_def index_ready_def index_err_Ok and_then_Ok_iff)
  have inv1: "marf_inv (index_tx i1)" by (rule inv_begin [OF inv b(1) n])
  obtain h where open1: "open_chain_tip (index_tx i1) = Some (n, h)" using begin_result [OF inv b(1) n] by blast
  from o(2) obtain m where m: "length ks = length vs" "insert_batch (index_tx i1) (map IndexKey ks) (map OfValue vs) = Ok m" "i2 = i1\<lparr>index_tx := m\<rparr>"
    by (auto simp: put_indexed_all_def index_err_Ok and_then_Ok_iff split: if_splits)
  have "open_chain_tip m = Some (n, h)" using inv1 m(2) open1 by (auto elim!: insert_batch_Ok)
  moreover have "marf_inv m" by (rule inv_insert [OF inv1 m(2)])
  ultimately have "cur_block (storage m) = n" by (auto simp: marf_inv_def)
  with o m b show ?thesis by (intro exI [of _ i1] exI [of _ i2]) (auto simp: put_indexed_all_def)
qed

lemma insert_snapshot_Ok:
  assumes "sn_block_height sn < BLOCK_HEIGHT_MAX" "sn_num_sortitions sn < BLOCK_HEIGHT_MAX" "unat (sn_burn_header_timestamp sn) < 2 ^ 63"
    "unat (sn_stacks_block_height sn) < 2 ^ 63" "unat (sn_arrival_index sn) < 2 ^ 63" "unat (sn_canonical_stacks_tip_height sn) < 2 ^ 63"
    and "sn_sortition_id sn \<notin> sn_sortition_id ` set (snapshots tx)" "sn_consensus_hash sn \<notin> sn_consensus_hash ` set (snapshots tx)"
    "sn_index_root sn \<notin> sn_index_root ` set (snapshots tx)"
  shows "insert_block_snapshot tx sn = Ok (tx\<lparr>snapshots := snapshots tx @ [sn]\<rparr>)"
proof -
  have b: "unat x < 2 ^ 63" if "x < BLOCK_HEIGHT_MAX" for x :: u64
    using that by (simp add: BLOCK_HEIGHT_MAX_def word_less_nat_alt)
  have "map_res u64_to_sql [sn_block_height sn, sn_burn_header_timestamp sn, sn_num_sortitions sn,
         sn_stacks_block_height sn, sn_arrival_index sn, sn_canonical_stacks_tip_height sn] =
      Ok [sn_block_height sn, sn_burn_header_timestamp sn, sn_num_sortitions sn,
         sn_stacks_block_height sn, sn_arrival_index sn, sn_canonical_stacks_tip_height sn]"
    using map_res_Ok [of _ u64_to_sql id] assms b
    by (metis (mono_tags, lifting) empty_iff id_apply insert_iff list.map_id0 list.set u64_to_sql_Ok)
  with assms show ?thesis by (simp add: insert_block_snapshot_def)
qed

text \<open>A snapshot with no operations can be appended when its heights and identifiers are new and no accepted
  block clashes with the fork.\<close>

definition fits :: "SortitionHandleTx \<Rightarrow> bool" where
  "fits db \<longleftrightarrow> (\<forall>s \<in> set (snapshots db). unat (sn_stacks_block_height s) < 2 ^ 63 \<and> unat (sn_canonical_stacks_tip_height s) < 2 ^ 63)"

lemma append_Ok:
  assumes inv: "sort_inv db" "arrival_inv db" "fits db" and rows: "last rows = parent" "stored_chain db rows" "chain_keys db rows" "length rows < 2 ^ 32"
    and nc: "no_pox_clash db rows" and n: "sn_sortition_id sn \<noteq> SENTINEL_ARRAY"
    and fresh: "sn_sortition_id sn \<notin> sn_sortition_id ` set (snapshots db)" "sn_consensus_hash sn \<notin> sn_consensus_hash ` set (snapshots db)"
      "sn_sortition_id sn \<notin> sn_index_root ` set (snapshots db)"
    and link: "sn_parent_burn_header_hash sn = sn_burn_header_hash parent" "sn_block_height parent + 1 = sn_block_height sn"
      "sn_num_sortitions sn = (if sn_sortition sn then sn_num_sortitions parent + 1 else sn_num_sortitions parent)"
    and bound: "sn_block_height sn < BLOCK_HEIGHT_MAX" "sn_num_sortitions sn < BLOCK_HEIGHT_MAX" "unat (sn_burn_header_timestamp sn) < 2 ^ 63"
      "unat (sn_stacks_block_height sn) < 2 ^ 63" "sn_arrival_index sn = 0"
    and pox: "pox_entries (db\<lparr>chain_tip := sn_sortition_id parent\<rparr>) parent sn info recip = Ok pox"
  shows "\<exists>tx db'. append_chain_tip_snapshot cur_block (db\<lparr>chain_tip := sn_sortition_id parent\<rparr>) parent sn [] info recip = Ok (sn_sortition_id sn, tx) \<and>
    handle_commit tx = Ok db' \<and> (\<exists>sn'. snapshots db' = snapshots db @ [sn'] \<and> sn_index_root sn' = sn_sortition_id sn)"
proof -
  define T where "T = db\<lparr>chain_tip := sn_sortition_id parent\<rparr>"
  have T: "handle_on T rows" "no_pox_clash T rows" "arrival_inv T" "handle_index T = handle_index db" "snapshots T = snapshots db" "chain_tip T = sn_sortition_id parent"
    using inv rows nc by (simp_all add: T_def handle_on_def no_pox_clash_def)
  from arrivals_result [OF T(1,3,2) rows(1)] obtain kvs parent' where arr: "process_new_block_arrivals T parent = Ok (kvs, parent')"
    and tip: "(sn_canonical_stacks_tip_consensus_hash parent', sn_canonical_stacks_tip_hash parent', sn_canonical_stacks_tip_height parent') \<in>
      insert (sn_canonical_stacks_tip_consensus_hash parent, sn_canonical_stacks_tip_hash parent, sn_canonical_stacks_tip_height parent)
        (arrival_entry ` set (new_arrivals T rows))" by blast
  have in_db: "set (new_arrivals T rows) \<subseteq> set (snapshots db)" "parent \<in> set (snapshots db)"
    using rows by (auto simp: new_arrivals_def arrived_def stored_chain_def last_in_set split: option.splits if_splits)
  have ht: "unat (sn_canonical_stacks_tip_height parent') < 2 ^ 63"
    using tip inv(3) in_db unfolding fits_def arrival_entry_def by auto
  have pid: "sn_sortition_id parent' = sn_sortition_id parent" by (rule arrivals_parent(1) [OF arr])
  define W where "W = append_writes sn [] pox kvs"
  have ready: "index_ready (handle_index db)" using inv(1) by (simp add: sort_inv_def)
  have none: "\<And>ps. \<not> index_chain (handle_index db) (sn_sortition_id sn) ps" using fresh(1) inv(1) unfolding sort_inv_def by blast
  have "index_chain (handle_index db) (sn_sortition_id parent) (map sn_sortition_id rows)" using rows by (simp add: stored_chain_def)
  then obtain idx where "index_put (handle_index db) (sn_sortition_id parent) (sn_sortition_id sn) (map fst W) (map snd W) = Ok idx"
    using index_put_succeeds [OF ready n none, of "sn_sortition_id parent" "map sn_sortition_id rows" "map fst W" "map snd W"] rows(4) by auto
  from index_put_parts [OF ready n this] obtain i1 i2 where i: "put_indexed_begin (handle_index db) (sn_sortition_id parent) (sn_sortition_id sn) = Ok i1"
    "\<And>root. put_indexed_all root i1 (map fst W) (map snd W) = Ok (root (storage (index_tx i2)), i2)" "index_commit i2 = Ok idx"
    "cur_block (storage (index_tx i2)) = sn_sortition_id sn" by blast
  have fork: "index_add_fork_info cur_block T parent sn [] info recip = Ok (sn_sortition_id sn, T\<lparr>handle_index := i2, chain_tip := sn_sortition_id sn\<rparr>, parent')"
    unfolding index_add_fork_info_def Let_def append_writes_def [symmetric] pox [folded T_def] arr using link(1) T(6) i pid
    by (simp add: W_def [symmetric] T(4))
  let ?sn = "sn\<lparr>sn_index_root := sn_sortition_id sn, sn_canonical_stacks_tip_height := sn_canonical_stacks_tip_height parent',
      sn_canonical_stacks_tip_hash := sn_canonical_stacks_tip_hash parent',
      sn_canonical_stacks_tip_consensus_hash := sn_canonical_stacks_tip_consensus_hash parent'\<rparr>"
  have ins: "insert_block_snapshot (T\<lparr>handle_index := i2, chain_tip := sn_sortition_id sn\<rparr>) ?sn =
      Ok (T\<lparr>handle_index := i2, chain_tip := sn_sortition_id sn, snapshots := snapshots db @ [?sn]\<rparr>)"
    using insert_snapshot_Ok [of ?sn "T\<lparr>handle_index := i2, chain_tip := sn_sortition_id sn\<rparr>"] bound fresh ht by (simp add: T(5))
  have "append_chain_tip_snapshot cur_block T parent sn [] info recip =
      Ok (sn_sortition_id sn, T\<lparr>handle_index := i2, chain_tip := sn_sortition_id sn, snapshots := snapshots db @ [?sn]\<rparr>)"
    unfolding append_chain_tip_snapshot_def fork using link ins by (simp add: Let_def)
  then show ?thesis unfolding T_def [symmetric] using i(3) by (auto simp: handle_commit_def)
qed

section \<open>A fork with an arrival of another PoX fork\<close>

definition arrivals_seen :: "SortitionHandleTx \<Rightarrow> bool" where
  "arrivals_seen db \<longleftrightarrow> (\<forall>s \<in> set (snapshots db). max_arrival_of db s \<le> get_max_arrival_index db)"

lemma get_max_append: "snapshots db' = snapshots db @ [sn'] \<Longrightarrow> get_max_arrival_index db \<le> get_max_arrival_index db'"
  by (simp add: get_max_arrival_index_def)

lemma max_arrival_in: "get_max_arrival_index db = 0 \<or> get_max_arrival_index db \<in> sn_arrival_index ` set (snapshots db)"
  using fold_max_in [of sn_arrival_index "snapshots db" 0] by (auto simp: get_max_arrival_index_def)

lemma get_max_mono:
  assumes "snapshots db' = map f (snapshots db)" and "\<And>s. s \<in> set (snapshots db) \<Longrightarrow> sn_arrival_index s \<le> sn_arrival_index (f s)"
  shows "get_max_arrival_index db \<le> get_max_arrival_index db'"
proof (cases "get_max_arrival_index db = 0")
  case False
  with max_arrival_in [of db] obtain s where s: "s \<in> set (snapshots db)" "get_max_arrival_index db = sn_arrival_index s" by auto
  have "f s \<in> set (snapshots db')" using assms(1) s(1) by simp
  from max_arrival_ge [OF this] assms(2) [OF s(1)] s(2) show ?thesis by simp
qed simp

lemma accepted_rows:
  assumes ainv: "arrival_inv tx" and ok: "set_stacks_block_accepted_at_tip tx tip ch parent bhh h = Ok tx'"
  shows "\<exists>f. snapshots tx' = map f (snapshots tx) \<and> handle_index tx' = handle_index tx \<and>
    (\<forall>s \<in> set (snapshots tx). same_core (f s) s \<and> sn_arrival_index s \<le> sn_arrival_index (f s))"
proof -
  define mark :: "BlockSnapshot \<Rightarrow> BlockSnapshot" where "mark = (\<lambda>sn. if sn_consensus_hash sn = ch \<and> sn_winning_stacks_block_hash sn = bhh
      then sn\<lparr>sn_stacks_block_accepted := True, sn_stacks_block_height := h, sn_arrival_index := get_max_arrival_index tx + 1\<rparr> else sn)"
  define T where "T = tx\<lparr>snapshots := map mark (snapshots tx)\<rparr>"
  have m1: "unat (get_max_arrival_index tx + 1) = unat (get_max_arrival_index tx) + 1"
    using max_arrival_bound [OF ainv] by (simp add: unat_word_ariths)
  have mark: "same_core (mark s) s \<and> sn_arrival_index s \<le> sn_arrival_index (mark s)" if "s \<in> set (snapshots tx)" for s
    using max_arrival_ge [OF that] m1 by (auto simp: mark_def same_core_def word_le_nat_alt)
  have step: "updates_tips T tx' \<and> updates_rows T tx'"
    if "insert_accepted_stacks_block_pointer tx2 a b c d = Ok tx'" "T = tx2 \<or> memoize_tip e b c d T = Ok tx2" for tx2 a b c d e
    using that tips_pointer tips_memoize tips_trans insert_pointer_updates memoize_updates updates_rows_trans by metis
  have refl: "updates_tips T T \<and> updates_rows T T" by (auto simp: tips_refl updates_rows_def same_core_def intro!: exI [of _ id])
  have "updates_tips T tx' \<and> updates_rows T tx'"
    using ok unfolding set_stacks_block_accepted_at_tip_def Let_def mark_def [symmetric] T_def [symmetric]
    using refl by (auto simp: and_then_Ok_iff split: if_splits option.splits dest: step)
  then obtain f g where fg: "\<And>s. sn_arrival_index (f s) = sn_arrival_index s" "snapshots tx' = map f (snapshots T)"
    "\<And>s. same_core (g s) s" "snapshots tx' = map g (snapshots T)" "handle_index tx' = handle_index T"
    unfolding updates_tips_def updates_rows_def by blast
  have eq: "f s = g s" if "s \<in> set (snapshots T)" for s using fg(2,4) that by simp
  have "same_core (g (mark s)) s \<and> sn_arrival_index s \<le> sn_arrival_index (g (mark s))" if "s \<in> set (snapshots tx)" for s
    using mark [OF that] fg(1) [of "mark s"] fg(3) [of "mark s"] eq [of "mark s"] that by (auto simp: T_def same_core_def)
  then show ?thesis using fg(4,5) by (intro exI [of _ "g \<circ> mark"]) (simp add: T_def)
qed

lemma quiet_seen:
  assumes "arrivals_seen db" and "quiet db db'"
  shows "arrivals_seen db'"
proof -
  from assms(2) obtain f where f: "\<And>s. same_core (f s) s" "\<And>s. sn_arrival_index (f s) = sn_arrival_index s" "snapshots db' = map f (snapshots db)"
    "handle_index db' = handle_index db" unfolding quiet_def by blast
  have "get_max_arrival_index db' = get_max_arrival_index db" by (simp add: get_max_arrival_index_def f fold_map comp_def)
  moreover have "max_arrival_of db' (f s) = max_arrival_of db s" for s
    using f(1) [of s] by (simp add: max_arrival_of_def view_at_def same_core_def f(4))
  ultimately show ?thesis using assms(1) by (simp add: arrivals_seen_def f(3))
qed

lemma reachable_arrivals_seen: "sortition_reachable X root db \<Longrightarrow> arrivals_seen db"
proof (induction rule: sortition_reachable.induct)
  case (reach_new first_burn_hash first_height time db)
  show ?case using inv_new(4) [OF reach_new] by (simp add: arrivals_seen_def max_arrival_of_def)
next
  case (reach_next db db')
  note sinv = reachable_sort_inv [OF reach_next.hyps(1)] and ainv = reachable_arrival_inv [OF reach_next.hyps(1)]
  from reach_next.hyps(2) show ?case
  proof cases
    case (step_append parent sn ops info recip r tx)
    from inv_append(2) [OF sinv step_append(1,2,5,6)] obtain sn' where s: "snapshots db' = snapshots db @ [sn']"
      "view_at db' sn' StacksBlockMaxArrivalIndex = Some (VNumber (get_max_arrival_index db))"
      "\<forall>s \<in> set (snapshots db). view_at db' s = view_at db s" by blast
    have "max_arrival_of db' s \<le> get_max_arrival_index db" if "s \<in> set (snapshots db')" for s
      using that s reach_next.IH by (auto simp: arrivals_seen_def max_arrival_of_def)
    then show ?thesis using get_max_append [OF s(1)] by (force simp: arrivals_seen_def)
  next
    case (step_accept tip ch parent_bhh bhh height)
    then obtain burn_tip where ok: "set_stacks_block_accepted_at_tip (db\<lparr>chain_tip := tip\<rparr>) burn_tip ch parent_bhh bhh height = Ok db'"
      by (auto simp: set_stacks_block_accepted_def and_then_Ok_iff)
    from accepted_rows [OF _ ok] ainv obtain f where f: "snapshots db' = map f (snapshots db)" "handle_index db' = handle_index db"
      "\<forall>s \<in> set (snapshots db). same_core (f s) s \<and> sn_arrival_index s \<le> sn_arrival_index (f s)" by auto
    have "get_max_arrival_index db \<le> get_max_arrival_index db'" using get_max_mono [OF f(1)] f(3) by blast
    moreover have "max_arrival_of db' (f s) = max_arrival_of db s" if "s \<in> set (snapshots db)" for s
      using f(2,3) that by (simp add: max_arrival_of_def view_at_def same_core_def)
    ultimately show ?thesis using reach_next.IH f(1) by (force simp: arrivals_seen_def)
  qed (use quiet_seen [OF reach_next.IH] quiet_transition quiet_invalidate in blast)+
qed

definition never_errs :: "('e, 'a) res \<Rightarrow> bool" where
  "never_errs r \<longleftrightarrow> (\<forall>e. r \<noteq> Err e)"

lemma never_errs_and_then [intro!]: "never_errs r \<Longrightarrow> (\<And>x. r = Ok x \<Longrightarrow> never_errs (f x)) \<Longrightarrow> never_errs (and_then r f)"
  by (cases r) (auto simp: never_errs_def)

lemma never_errs_simps [simp]:
  "never_errs (Ok x)" "never_errs Panic" "never_errs (assert_that b)" "never_errs (expect y)" "never_errs (nth_res xs i)"
  "never_errs (reward_set_size_to_string n)"
  by (auto simp: never_errs_def assert_that_def expect_def nth_res_def reward_set_size_to_string_def split: option.splits)

lemma reward_never_errs:
  assumes ready: "index_ready (handle_index tx)"
  shows "never_errs (get_pox_id tx)" "never_errs (get_reward_set_size tx)" "never_errs (get_reward_set_entry tx i)"
  by (auto simp: get_pox_id_def get_reward_set_size_def get_reward_set_entry_def tx_get_indexed_def get_indexed_view [OF ready]
      split: option.splits db_value.splits)

lemma remove_used_never_errs: "never_errs (remove_used rs recip)"
  unfolding remove_used_def by (auto simp: Let_def split: prod.split)

lemma reward_set_entries_never_errs: "never_errs (reward_set_entries rs)"
  unfolding reward_set_entries_def by auto

lemma pox_entries_never_errs:
  assumes "index_ready (handle_index tx)"
  shows "never_errs (pox_entries tx parent sn info recip)"
  unfolding pox_entries_def new_cycle_entries_def same_cycle_entries_def Let_def
  by (auto simp: reward_never_errs [OF assms] remove_used_never_errs reward_set_entries_never_errs split: option.split)

lemma fold_res_Panic:
  assumes "i \<in> set is" and "\<And>xs. f i xs = Panic" and "\<And>j xs e. j \<in> set is \<Longrightarrow> f j xs \<noteq> Err e"
  shows "fold_res f is xs = Panic"
  using assms
proof (induction "is" arbitrary: xs)
  case (Cons j js)
  show ?case
  proof (cases "f j xs")
    case (Ok ys)
    then have "i \<in> set js" using Cons.prems(1,2) by auto
    with Cons.IH [OF this Cons.prems(2), of ys] Cons.prems(3) Ok show ?thesis by simp
  qed (use Cons.prems(3) [of j xs] in auto)
qed simp

lemma arrivals_panic:
  assumes h: "handle_on tx rows" and a: "arrival_inv tx" and s: "s \<in> set (snapshots tx)" "sn_stacks_block_accepted s" "s \<notin> set rows"
    and r: "r \<in> set rows" "sn_burn_header_hash r = sn_burn_header_hash s" and new: "max_arrival_of tx (last rows) \<le> sn_arrival_index s"
  shows "process_new_block_arrivals tx (last rows) = Panic"
proof -
  have inv: "sort_inv tx" "index_ready (handle_index tx)" using h by (simp_all add: handle_on_def sort_inv_def)
  have m: "unat (get_max_arrival_index tx + 1) = unat (get_max_arrival_index tx) + 1" "unat (get_max_arrival_index tx) < 2 ^ 63"
    using max_arrival_bound [OF a] by (simp_all add: unat_word_ariths)
  let ?i = "unat (sn_arrival_index s)"
  let ?is = "[unat (max_arrival_of tx (last rows))..<unat (get_max_arrival_index tx + 1)]"
  have i: "?i \<in> set ?is" using new max_arrival_ge [OF s(1)] m by (auto simp: word_le_nat_alt)
  have lt: "j < 2 ^ 63" if "j \<in> set ?is" for j using that m by auto
  have at: "arrival_at tx (sn_arrival_index s) = Some s"
  proof -
    obtain t where t: "arrival_at tx (sn_arrival_index s) = Some t"
      using s unfolding arrival_at_def by (metis (mono_tags, lifting) find_None_iff not_None_eq)
    from arrival_at_Some [OF t] s a have "t = s" by (auto simp: arrival_inv_def inj_on_def)
    with t show ?thesis by simp
  qed
  obtain r' where r': "find (\<lambda>x. sn_burn_header_hash x = sn_burn_header_hash s) (rev rows) = Some r'"
    using r by (metis (mono_tags, lifting) find_None_iff not_None_eq set_rev)
  have "r' \<noteq> s" using find_SomeD [OF r'] s(3) by auto
  then have panic: "new_arrival tx (sn_sortition_id (last rows)) ?i xs = Panic" for xs
    using new_arrival_eq [OF h a lt [OF i], of xs] at r' by simp
  have "new_arrival tx (sn_sortition_id (last rows)) j xs \<noteq> Err e" if "j \<in> set ?is" for j xs e
    using new_arrival_eq [OF h a lt [OF that], of xs] by (auto split: option.splits if_splits)
  from fold_res_Panic [where f = "new_arrival tx (sn_sortition_id (last rows))", OF i panic this]
  have loop: "fold_res (new_arrival tx (sn_sortition_id (last rows))) ?is [] = Panic" .
  have "view_at tx (last rows) StacksBlockMaxArrivalIndex \<in> insert None (range (Some \<circ> VNumber))"
    using h by (simp add: handle_on_def chain_keys_def)
  then have "(case view_at tx (last rows) StacksBlockMaxArrivalIndex of None \<Rightarrow> Ok 0 | Some (VNumber n) \<Rightarrow> Ok n | Some _ \<Rightarrow> Panic) =
      (Ok (max_arrival_of tx (last rows)) :: (db_error, u64) res)" by (auto simp: max_arrival_of_def)
  with loop show ?thesis by (simp add: process_new_block_arrivals_def tx_get_view [OF inv(2)] Let_def)
qed

lemma append_panics:
  assumes "index_ready (handle_index tx)" and "process_new_block_arrivals tx parent = Panic"
  shows "append_chain_tip_snapshot root tx parent sn ops info recip = Panic"
proof -
  have "index_add_fork_info root tx parent sn ops info recip = Panic"
    using pox_entries_never_errs [OF assms(1), of parent sn info recip] assms(2)
    by (cases "pox_entries tx parent sn info recip") (auto simp: index_add_fork_info_def assert_that_def never_errs_def)
  then show ?thesis by (simp add: append_chain_tip_snapshot_def assert_that_def)
qed

section \<open>Example databases\<close>

lemma instantiate_Ok:
  assumes "first_burn_hash \<noteq> SENTINEL_ARRAY" and "first_height < BLOCK_HEIGHT_MAX" and "unat time < 2 ^ 63"
  shows "\<exists>db. instantiate X cur_block first_height first_burn_hash time = Ok db \<and>
    snapshots db = [snapshot_initial X first_height first_burn_hash time\<lparr>sn_index_root := first_burn_hash\<rparr>]"
proof -
  define sn where "sn = snapshot_initial X first_height first_burn_hash time"
  define p where "p = sn\<lparr>sn_sortition_id := SENTINEL_ARRAY\<rparr>"
  define T where "T = empty_sortition_db first_height"
  have sn: "sn_sortition_id sn = first_burn_hash" "is_initial sn" "sn_parent_burn_header_hash sn = SENTINEL_ARRAY" "sn_burn_header_hash sn = first_burn_hash"
    "sn_num_sortitions sn = 0" "sn_stacks_block_height sn = 0" "sn_arrival_index sn = 0" "sn_canonical_stacks_tip_height sn = 0"
    "sn_block_height sn = first_height" "sn_burn_header_timestamp sn = time"
    by (simp_all add: sn_def snapshot_initial_def SortitionId_stubbed_def SortitionId_new_def is_initial_def)
  have ready: "index_ready (handle_index T)" using example_index_ready
    using reachable_inv [OF reach_empty] by (auto simp: T_def empty_sortition_db_def index_ready_def empty_marf_def read_trie_def)
  have T: "snapshots T = []" "snapshot_transition_ops T = []" "get_max_arrival_index T = 0"
    by (simp_all add: T_def empty_sortition_db_def get_max_arrival_index_def)
  have none: "index_view (handle_index T) b k = None" for b k
    by (simp add: T_def empty_sortition_db_def index_view_def empty_marf_def read_trie_def)
  have "\<exists>kvs parent'. process_new_block_arrivals T p = Ok (kvs, parent') \<and> sn_sortition_id parent' = SENTINEL_ARRAY"
    by (simp add: process_new_block_arrivals_def tx_get_indexed_def get_indexed_view [OF ready] none T Let_def new_arrival_def
        get_snapshot_by_arrival_index_def query_row_panic_def p_def split: prod.split)
  then obtain kvs parent' where arr: "process_new_block_arrivals T p = Ok (kvs, parent')" "sn_sortition_id parent' = SENTINEL_ARRAY" by blast
  obtain pox where pox: "pox_entries T p sn None None = Ok pox" using sn by (simp add: pox_entries_def reward_set_size_to_string_def)
  define W where "W = append_writes sn [] pox kvs"
  have "\<And>ps. \<not> index_chain (handle_index T) first_burn_hash ps"
    using index_chain_stored by (fastforce simp: T_def empty_sortition_db_def empty_marf_def read_trie_def)
  from index_put_succeeds [OF ready assms(1) this, of SENTINEL_ARRAY "[]" "map fst W" "map snd W"]
  obtain idx where "index_put (handle_index T) SENTINEL_ARRAY first_burn_hash (map fst W) (map snd W) = Ok idx" by auto
  from index_put_parts [OF ready assms(1) this] obtain i1 i2 where i: "put_indexed_begin (handle_index T) SENTINEL_ARRAY first_burn_hash = Ok i1"
    "\<And>root. put_indexed_all root i1 (map fst W) (map snd W) = Ok (root (storage (index_tx i2)), i2)" "index_commit i2 = Ok idx"
    "cur_block (storage (index_tx i2)) = first_burn_hash" by blast
  have fork: "index_add_fork_info cur_block T p sn [] None None =
      Ok (first_burn_hash, T\<lparr>handle_index := i2, chain_tip := first_burn_hash\<rparr>, parent')"
    unfolding index_add_fork_info_def Let_def append_writes_def [symmetric] pox arr(1) using i sn arr(2)
    by (simp add: W_def [symmetric])
  have ins: "insert_block_snapshot (T\<lparr>handle_index := i2, chain_tip := first_burn_hash\<rparr>) (sn\<lparr>sn_index_root := first_burn_hash\<rparr>) =
      Ok (T\<lparr>handle_index := i2, chain_tip := first_burn_hash, snapshots := [sn\<lparr>sn_index_root := first_burn_hash\<rparr>]\<rparr>)"
    using insert_snapshot_Ok [of "sn\<lparr>sn_index_root := first_burn_hash\<rparr>" "T\<lparr>handle_index := i2, chain_tip := first_burn_hash\<rparr>"] assms(2,3) sn
    by (simp add: T BLOCK_HEIGHT_MAX_def)
  show ?thesis unfolding instantiate_def Let_def sn_def [symmetric] p_def [symmetric] T_def [symmetric] fork
    using sn assms(1) ins i(3) by (simp add: store_transition_ops_def T handle_commit_def)
qed

definition example_snapshot :: "u8 \<Rightarrow> u8 \<Rightarrow> BlockSnapshot \<Rightarrow> BlockSnapshot" where
  "example_snapshot i b parent = parent\<lparr>sn_block_height := sn_block_height parent + 1, sn_burn_header_hash := example_block b,
     sn_parent_burn_header_hash := sn_burn_header_hash parent, sn_consensus_hash := replicate 20 i, sn_sortition := True,
     sn_sortition_hash := example_block i, sn_winning_stacks_block_hash := example_block i,
     sn_num_sortitions := sn_num_sortitions parent + 1, sn_stacks_block_accepted := False, sn_stacks_block_height := 0,
     sn_arrival_index := 0, sn_sortition_id := example_block i\<rparr>"

text \<open>A small database: every row is short of the limits of the columns and its identifiers are among a
  known set of bytes.\<close>

definition small :: "SortitionHandleTx \<Rightarrow> u8 set \<Rightarrow> bool" where
  "small db used \<longleftrightarrow> length (snapshots db) < 100 \<and> unat (first_block_height db) = 0 \<and> (\<forall>s \<in> set (snapshots db).
     sn_num_sortitions s = sn_block_height s \<and> unat (sn_block_height s) < length (snapshots db) \<and>
     sn_burn_header_timestamp s = 0 \<and> sn_stacks_block_height s = 0 \<and> sn_canonical_stacks_tip_height s = 0 \<and>
     \<not> sn_stacks_block_accepted s \<and>
     sn_canonical_stacks_tip_hash s = FIRST_STACKS_BLOCK_HASH \<and>
     sn_sortition_id s \<in> example_block ` used \<and> sn_consensus_hash s \<in> replicate 20 ` insert 0 used \<and> sn_index_root s \<in> example_block ` used)"

lemma example_block_inj: "example_block i = example_block j \<longleftrightarrow> i = j"
  by (simp add: example_block_def)

lemma replicate_byte_inj: "replicate 20 i = replicate 20 j \<longleftrightarrow> i = (j :: u8)"
  by simp

lemma example_new: "\<exists>db f. sortition_reachable example_externals cur_block db \<and> snapshots db = [f] \<and> small db {1} \<and>
    sn_burn_header_hash f = example_block 1 \<and> sn_winning_stacks_block_hash f = FIRST_STACKS_BLOCK_HASH \<and>
    sn_parent_burn_header_hash f = SENTINEL_ARRAY"
proof -
  have e: "example_block 1 \<noteq> SENTINEL_ARRAY" by simp
  from instantiate_Ok [OF e, of 0 0 example_externals] obtain db where ok: "instantiate example_externals cur_block 0 (example_block 1) 0 = Ok db"
    and row: "snapshots db = [snapshot_initial example_externals 0 (example_block 1) 0\<lparr>sn_index_root := example_block 1\<rparr>]"
    by (auto simp: BLOCK_HEIGHT_MAX_def)
  have id: "SortitionId_stubbed example_externals (example_block 1) = example_block 1" by (simp add: SortitionId_stubbed_def SortitionId_new_def)
  have "sortition_reachable example_externals cur_block db" using reach_new [OF e _ ok] id e by simp
  then show ?thesis using inv_new(3) [OF e _ ok] id
    by (auto simp: row small_def snapshot_initial_def)
qed

lemma example_not_initial: "i \<noteq> 0 \<Longrightarrow> \<not> is_initial (example_snapshot i b parent)"
  by (simp add: is_initial_def example_snapshot_def SortitionHash_initial_def example_block_def)

lemma example_no_pox: "i \<noteq> 0 \<Longrightarrow> pox_entries tx parent (example_snapshot i b parent) None None = Ok []"
  by (simp add: pox_entries_def same_cycle_entries_def example_not_initial)

lemma example_next:
  assumes r: "sortition_reachable example_externals cur_block db" and small: "small db used" and p: "parent \<in> set (snapshots db)"
    and i: "i \<notin> used" "i \<noteq> 0" "i \<noteq> 255"
    and pox: "pox_entries (db\<lparr>chain_tip := sn_sortition_id parent\<rparr>) parent (example_snapshot i b parent) info recip = Ok pox"
  shows "\<exists>db' sn'. sortition_reachable example_externals cur_block db' \<and> snapshots db' = snapshots db @ [sn'] \<and>
    same_core sn' (example_snapshot i b parent) \<and> (length (snapshots db) < 99 \<longrightarrow> small db' (insert i used)) \<and>
    (\<forall>rows. stored_chain db rows \<longrightarrow> stored_chain db' rows \<and> (last rows = parent \<longrightarrow> stored_chain db' (rows @ [sn']))) \<and>
    (\<exists>r tx. append_chain_tip_snapshot cur_block (db\<lparr>chain_tip := sn_sortition_id parent\<rparr>) parent (example_snapshot i b parent) [] info recip = Ok (r, tx) \<and>
      handle_commit tx = Ok db')"
proof -
  note inv = reachable_sort_inv [OF r] and ainv = reachable_arrival_inv [OF r]
  let ?sn = "example_snapshot i b parent"
  obtain rows where rows: "last rows = parent" "stored_chain db rows" "chain_keys db rows" using inv p unfolding sort_inv_def by blast
  have len: "length rows \<le> length (snapshots db)"
    using chain_distinct(1) [OF inv rows(2)] rows(2) by (metis card_mono distinct_card List.finite_set stored_chain_def le_trans card_length)
  have s: "\<And>s. s \<in> set (snapshots db) \<Longrightarrow> sn_num_sortitions s = sn_block_height s \<and> unat (sn_block_height s) < length (snapshots db) \<and>
     sn_burn_header_timestamp s = 0 \<and> sn_stacks_block_height s = 0 \<and> sn_canonical_stacks_tip_height s = 0 \<and>
     \<not> sn_stacks_block_accepted s \<and> sn_canonical_stacks_tip_hash s = FIRST_STACKS_BLOCK_HASH \<and> sn_sortition_id s \<in> example_block ` used \<and>
     sn_consensus_hash s \<in> replicate 20 ` insert 0 used \<and> sn_index_root s \<in> example_block ` used"
    and n: "length (snapshots db) < 100" "unat (first_block_height db) = 0" using small unfolding small_def by blast+
  have h1: "unat (sn_block_height parent + 1) = unat (sn_block_height parent) + 1" using s [OF p] n by (simp add: unat_word_ariths)
  have fresh: "example_block i \<notin> sn_sortition_id ` set (snapshots db)" "replicate 20 i \<notin> sn_consensus_hash ` set (snapshots db)"
    "example_block i \<notin> sn_index_root ` set (snapshots db)" using s i by (auto simp: replicate_byte_inj dest!: s)
  have "\<exists>tx db'. append_chain_tip_snapshot cur_block (db\<lparr>chain_tip := sn_sortition_id parent\<rparr>) parent ?sn [] info recip = Ok (sn_sortition_id ?sn, tx) \<and>
    handle_commit tx = Ok db' \<and> (\<exists>sn'. snapshots db' = snapshots db @ [sn'] \<and> sn_index_root sn' = sn_sortition_id ?sn)"
  proof (rule append_Ok [OF inv ainv _ rows])
    show "fits db" using s by (simp add: fits_def)
    show "no_pox_clash db rows" using s by (auto simp: no_pox_clash_def)
    show "sn_block_height ?sn < BLOCK_HEIGHT_MAX" "sn_num_sortitions ?sn < BLOCK_HEIGHT_MAX"
      using h1 s [OF p] n by (simp_all add: example_snapshot_def word_less_nat_alt BLOCK_HEIGHT_MAX_def)
    show "pox_entries (db\<lparr>chain_tip := sn_sortition_id parent\<rparr>) parent ?sn info recip = Ok pox" by (rule pox)
  qed (use len n i fresh s [OF p] in \<open>simp_all add: example_snapshot_def\<close>)
  then obtain tx db' sn1 where ok: "append_chain_tip_snapshot cur_block (db\<lparr>chain_tip := sn_sortition_id parent\<rparr>) parent ?sn [] info recip = Ok (sn_sortition_id ?sn, tx)"
    "handle_commit tx = Ok db'" "snapshots db' = snapshots db @ [sn1]" "sn_index_root sn1 = sn_sortition_id ?sn" by blast
  have id: "sn_sortition_id ?sn \<noteq> SENTINEL_ARRAY" using i(3) by (simp add: example_snapshot_def)
  from inv_append(2) [OF inv p id ok(1,2)] ok(3) obtain arrivals parent' where a: "same_core sn1 ?sn"
    "\<forall>rows. last rows = parent \<and> stored_chain db rows \<longrightarrow> stored_chain db' (rows @ [sn1])"
    "process_new_block_arrivals (db\<lparr>chain_tip := sn_sortition_id parent\<rparr>) parent = Ok (arrivals, parent')" "takes_tip sn1 ?sn parent'"
    "\<forall>rows. stored_chain db rows \<and> chain_keys db rows \<longrightarrow> stored_chain db' rows" by auto
  have reach: "sortition_reachable example_externals cur_block db'"
    by (rule reach_next [OF r step_append [OF p id _ _ ok(1,2)]]) (simp_all add: example_snapshot_def)
  have tip: "sn_canonical_stacks_tip_height parent' = 0" "sn_canonical_stacks_tip_hash parent' = FIRST_STACKS_BLOCK_HASH"
  proof -
    let ?T = "db\<lparr>chain_tip := sn_sortition_id parent\<rparr>"
    have h: "handle_on ?T rows" "arrival_inv ?T" "no_pox_clash ?T rows" using inv ainv rows s by (auto simp: handle_on_def no_pox_clash_def)
    have "arrival_at ?T j = None" for j using s by (auto simp: arrival_at_def find_None_iff)
    then have "new_arrivals ?T rows = []" by (simp add: new_arrivals_def arrived_def)
    with arrivals_result [OF h rows(1)] a(3) s [OF p] show "sn_canonical_stacks_tip_height parent' = 0" "sn_canonical_stacks_tip_hash parent' = FIRST_STACKS_BLOCK_HASH"
      by auto
  qed
  have "small db' (insert i used)" if "length (snapshots db) < 99"
  proof -
    have new: "sn_num_sortitions sn1 = sn_block_height sn1 \<and> unat (sn_block_height sn1) < length (snapshots db) + 1 \<and>
       sn_burn_header_timestamp sn1 = 0 \<and> sn_stacks_block_height sn1 = 0 \<and> sn_canonical_stacks_tip_height sn1 = 0 \<and>
       \<not> sn_stacks_block_accepted sn1 \<and> sn_canonical_stacks_tip_hash sn1 = FIRST_STACKS_BLOCK_HASH \<and> sn_sortition_id sn1 = example_block i \<and>
       sn_consensus_hash sn1 = replicate 20 i \<and> sn_index_root sn1 = example_block i"
      using a(4) ok(4) tip s [OF p] h1 by (auto simp: takes_tip_def example_snapshot_def)
    have "first_block_height db' = first_block_height db" using append_result [OF ok(1,2)] by auto
    with new s that n show ?thesis unfolding small_def ok(3) by (auto dest!: s)
  qed
  moreover have "stored_chain db' qs \<and> (last qs = parent \<longrightarrow> stored_chain db' (qs @ [sn1]))" if q: "stored_chain db qs" for qs
  proof -
    have "last qs \<in> set (snapshots db)" using q by (auto simp: stored_chain_def last_in_set)
    then obtain ps where "last ps = last qs" "stored_chain db ps" "chain_keys db ps" using inv unfolding sort_inv_def by blast
    then have "chain_keys db qs" using chain_unique [OF q _ inv] by metis
    with q a(2,5) show ?thesis by blast
  qed
  ultimately show ?thesis using reach ok a(1) by blast
qed

text \<open>Accepting a block on the memoized tip.\<close>

lemma accept_Ok:
  assumes inv: "sort_inv db" and tip: "tip \<in> set (snapshots db)" "sn_canonical_stacks_tip_hash tip = parent"
    "sn_canonical_stacks_tip_height tip + 1 = h" "0 < h" "unat h < 2 ^ 63" and max: "unat (get_max_arrival_index db + 1) < 2 ^ 63"
  shows "\<exists>db'. set_stacks_block_accepted (db\<lparr>chain_tip := sn_sortition_id tip\<rparr>) ch parent bhh h = Ok db' \<and>
    handle_index db' = handle_index db \<and> first_block_height db' = first_block_height db \<and>
    snapshots db' = map (\<lambda>sn. if sn_sortition_id sn = sn_sortition_id tip then
        sn\<lparr>sn_canonical_stacks_tip_consensus_hash := ch, sn_canonical_stacks_tip_hash := bhh, sn_canonical_stacks_tip_height := h\<rparr> else sn)
      (map (\<lambda>sn. if sn_consensus_hash sn = ch \<and> sn_winning_stacks_block_hash sn = bhh
        then sn\<lparr>sn_stacks_block_accepted := True, sn_stacks_block_height := h, sn_arrival_index := get_max_arrival_index db + 1\<rparr> else sn) (snapshots db))"
proof -
  have get: "db_get_block_snapshot (db\<lparr>chain_tip := sn_sortition_id tip\<rparr>) (sn_sortition_id tip) = Ok (Some tip)"
    using snapshot_of_id(1) [of "db\<lparr>chain_tip := sn_sortition_id tip\<rparr>" tip] inv tip(1) by simp
  have "get_max_arrival_index (db\<lparr>chain_tip := sn_sortition_id tip\<rparr>) = get_max_arrival_index db" by (simp add: get_max_arrival_index_def)
  then show ?thesis using get tip max
    by (simp add: set_stacks_block_accepted_def set_stacks_block_accepted_at_tip_def Let_def memoize_tip_def
        insert_accepted_stacks_block_pointer_def)
qed

end
