(* ===== verification/SortitionProperties.thy ===== *)
theory SortitionProperties
  imports Arrivals
begin

text \<open>The properties of the sortition database, over every reachable database.\<close>

text \<open>An example: two sortitions of the same burn block, on two PoX forks.\<close>

lemma example_fork: "\<exists>db f a b. sortition_reachable example_externals cur_block db \<and> snapshots db = [f, a, b] \<and>
    same_core a (example_snapshot 2 2 f) \<and> same_core b (example_snapshot 3 2 f) \<and> small db {1, 2, 3} \<and>
    sn_burn_header_hash f = example_block 1 \<and> sn_winning_stacks_block_hash f = FIRST_STACKS_BLOCK_HASH \<and>
    sn_parent_burn_header_hash f = SENTINEL_ARRAY \<and> stored_chain db [f, a] \<and> stored_chain db [f, b]"
proof -
  from example_new obtain db f where 1: "sortition_reachable example_externals cur_block db" "snapshots db = [f]" "small db {1}"
    "sn_burn_header_hash f = example_block 1" "sn_winning_stacks_block_hash f = FIRST_STACKS_BLOCK_HASH"
    "sn_parent_burn_header_hash f = SENTINEL_ARRAY" by blast
  obtain rows where rows: "last rows = f" "stored_chain db rows" using reachable_sort_inv [OF 1(1)] 1(2) by (auto simp: sort_inv_def)
  have "rows = [f]"
  proof -
    have "distinct rows" "set rows \<subseteq> {f}" "rows \<noteq> []"
      using chain_distinct(1) [OF reachable_sort_inv [OF 1(1)] rows(2)] rows(2) 1(2) by (auto simp: stored_chain_def)
    moreover obtain ys where "rows = ys @ [f]" using \<open>rows \<noteq> []\<close> rows(1) by (metis append_butlast_last_id)
    ultimately show ?thesis by (cases ys) auto
  qed
  then have f: "stored_chain db [f]" using rows(2) by simp
  from example_next [OF 1(1,3), of f 2 2 None None] 1(2) obtain db2 a where 2: "sortition_reachable example_externals cur_block db2" "snapshots db2 = [f, a]"
    "same_core a (example_snapshot 2 2 f)" "small db2 {2, 1}" "stored_chain db2 [f]" "stored_chain db2 [f, a]" using f by (fastforce simp: example_no_pox)
  from example_next [OF 2(1,4), of f 3 2 None None] 2(2) obtain db3 b where 3: "sortition_reachable example_externals cur_block db3" "snapshots db3 = [f, a, b]"
    "same_core b (example_snapshot 3 2 f)" "small db3 {3, 2, 1}" "stored_chain db3 [f, a]" "stored_chain db3 [f, b]" using 2(5,6) by (fastforce simp: example_no_pox)
  have "{3, 2, 1} = {1, 2, 3 :: u8}" by blast
  with 1 2 3 show ?thesis by metis
qed

text \<open>C15. In every database reachable by creating it, appending snapshots on any fork and accepting
  Stacks blocks, every stored snapshot ends a chain of stored snapshots of consecutive heights linked
  by their burn hashes, and looking up the ancestor at a height from that snapshot gives exactly the
  snapshot of the chain at that height, whatever other forks are stored.\<close>

theorem ancestor_snapshot_exact:
  assumes "sortition_reachable X root db" and "sn \<in> set (snapshots db)"
  shows "\<exists>rows. stored_chain db rows \<and> last rows = sn \<and>
    (\<forall>h. h < BLOCK_HEIGHT_MAX \<longrightarrow> unat h < unat (first_block_height db) + 2 ^ 32 \<longrightarrow>
      get_ancestor_snapshot db h (sn_sortition_id sn) = Ok (row_at db rows h)) \<and>
    (\<forall>i < length rows. get_ancestor_snapshot db (sn_block_height (rows ! i)) (sn_sortition_id sn) = Ok (Some (rows ! i)))"
proof -
  note inv = reachable_sort_inv [OF assms(1)]
  from inv assms(2) obtain rows where c: "last rows = sn" "stored_chain db rows" unfolding sort_inv_def by blast
  have "get_ancestor_snapshot db (sn_block_height (rows ! i)) (sn_sortition_id sn) = Ok (Some (rows ! i))" if i: "i < length rows" for i
  proof -
    have "unat (sn_block_height (rows ! i)) = unat (first_block_height db) + i" "sn_block_height (rows ! i) < BLOCK_HEIGHT_MAX"
      using c(2) i by (simp_all add: stored_chain_def)
    then show ?thesis using ancestor_snapshot [OF inv c(2)] row_at_height [OF c(2) i] chain_distinct(2) [OF inv c(2)] c(1) i by simp
  qed
  then show ?thesis using c ancestor_snapshot [OF inv c(2)] by blast
qed

theorem ancestor_snapshot_exact_witness:
  "\<exists>db sn rows. sortition_reachable example_externals cur_block db \<and> length (snapshots db) = 3 \<and> sn \<in> set (snapshots db) \<and>
     stored_chain db rows \<and> last rows = sn \<and> length rows = 2 \<and>
     get_ancestor_snapshot db (sn_block_height (rows ! 0)) (sn_sortition_id sn) = Ok (Some (rows ! 0))"
proof -
  from example_fork obtain db f a b where e: "sortition_reachable example_externals cur_block db" "snapshots db = [f, a, b]" "stored_chain db [f, b]" by blast
  from ancestor_snapshot_exact [OF e(1), of b] e(2) obtain rows where r: "stored_chain db rows" "last rows = b"
    "\<forall>i < length rows. get_ancestor_snapshot db (sn_block_height (rows ! i)) (sn_sortition_id b) = Ok (Some (rows ! i))" by auto
  have "rows = [f, b]" using chain_unique [OF r(1) e(3) reachable_sort_inv [OF e(1)]] r(2) by simp
  with r e(1,2) show ?thesis by (intro exI [of _ db] exI [of _ b] exI [of _ rows]) auto
qed

text \<open>C16. A consensus hash is fresh at a tip exactly when it is the consensus hash of the tip or of one of
  the last \<open>lifetime\<close> snapshots below it on the same fork; the walk over parent burn hashes never fails.
  The burn hashes of one fork are taken to be distinct.\<close>

theorem freshness_window:
  assumes "sortition_reachable X root db" and "stored_chain db rows" and "distinct (map sn_burn_header_hash rows)"
  shows "is_fresh_consensus_hash (db\<lparr>chain_tip := sn_sortition_id (last rows)\<rparr>) lifetime ch =
    Ok (ch \<in> sn_consensus_hash ` set (drop (length rows - Suc (unat lifetime)) rows))"
  using check_fresh_eq [OF chain_handle [OF reachable_sort_inv [OF assms(1)] assms(2)] assms(3), of lifetime "\<lambda>h. h = ch"]
  by (simp add: is_fresh_consensus_hash_def image_iff) metis

theorem freshness_window_witness:
  "\<exists>db f b. sortition_reachable example_externals cur_block db \<and> stored_chain db [f, b] \<and>
     is_fresh_consensus_hash (db\<lparr>chain_tip := sn_sortition_id b\<rparr>) 0 (replicate 20 3) = Ok True \<and>
     is_fresh_consensus_hash (db\<lparr>chain_tip := sn_sortition_id b\<rparr>) 0 (replicate 20 2) = Ok False"
proof -
  from example_fork obtain db f a b where e: "sortition_reachable example_externals cur_block db" "stored_chain db [f, b]"
    "same_core b (example_snapshot 3 2 f)" "sn_burn_header_hash f = example_block 1" by blast
  have b: "sn_burn_header_hash b = example_block 2" "sn_consensus_hash b = replicate 20 3" using e(3) by (simp_all add: same_core_def example_snapshot_def)
  have "distinct (map sn_burn_header_hash [f, b])" using e(4) b by simp
  from freshness_window [OF e(1,2) this, of 0] e(1,2) show ?thesis by (intro exI [of _ db] exI [of _ f] exI [of _ b]) (simp add: b(2))
qed

text \<open>C17. The last snapshot with a sortition at a height of a fork is the newest snapshot of the fork, up to and
  including that height, that had a sortition (or the first snapshot). The burn hashes of the fork are
  taken to be distinct.\<close>

theorem last_sortition_exact:
  assumes "sortition_reachable X root db" and "stored_chain db rows" and "distinct (map sn_burn_header_hash rows)" and "i < length rows"
  shows "get_last_snapshot_with_sortition (db\<lparr>chain_tip := sn_sortition_id (last rows)\<rparr>) (sn_block_height (rows ! i)) =
    Ok (case find sn_sortition (rev (take (Suc i) rows)) of Some r \<Rightarrow> r | None \<Rightarrow> hd rows)"
  by (rule last_sortition_eq [OF chain_handle [OF reachable_sort_inv [OF assms(1)] assms(2)] assms(3,4)])

theorem last_sortition_exact_witness:
  "\<exists>db f b. sortition_reachable example_externals cur_block db \<and> stored_chain db [f, b] \<and>
     get_last_snapshot_with_sortition (db\<lparr>chain_tip := sn_sortition_id b\<rparr>) (sn_block_height b) = Ok b"
proof -
  from example_fork obtain db f a b where e: "sortition_reachable example_externals cur_block db" "stored_chain db [f, b]"
    "same_core b (example_snapshot 3 2 f)" "sn_burn_header_hash f = example_block 1" by blast
  have b: "sn_burn_header_hash b = example_block 2" "sn_sortition b" using e(3) by (simp_all add: same_core_def example_snapshot_def)
  have "distinct (map sn_burn_header_hash [f, b])" using e(4) b by simp
  from last_sortition_exact [OF e(1,2) this, of 1] e(1,2) b show ?thesis by (intro exI [of _ db] exI [of _ f] exI [of _ b]) simp
qed



text \<open>C19. The reward set of a fork is consumed one address at a time: when the recipient of a sortition is
  picked at a tip and the sortition is appended, the addresses that were available (the set of the new
  cycle at its first sortition, what was left of the current one otherwise) are, as a multiset, the
  recipient together with the addresses left at the new tip.\<close>

theorem reward_set_consumed:
  assumes "sortition_reachable X root db" and "parent \<in> set (snapshots db)" and "holds_reward_set db parent rs"
    and "pick_recipient gen (db\<lparr>chain_tip := sn_sortition_id parent\<rparr>) seed info = Ok ri"
    and "append_chain_tip_snapshot root (db\<lparr>chain_tip := sn_sortition_id parent\<rparr>) parent sn ops info ri = Ok (r, tx)"
    and "handle_commit tx = Ok db'" and "sn_sortition_id sn \<noteq> SENTINEL_ARRAY" and "\<not> is_initial sn"
  shows "\<exists>sn' rs'. snapshots db' = snapshots db @ [sn'] \<and> sn_sortition_id sn' = sn_sortition_id sn \<and> holds_reward_set db' sn' rs' \<and>
    mset (available_rewards info rs) = (case ri of None \<Rightarrow> {#} | Some info \<Rightarrow> {#fst (recipient info)#}) + mset rs'"
proof -
  let ?T = "db\<lparr>chain_tip := sn_sortition_id parent\<rparr>"
  note inv = reachable_sort_inv [OF assms(1)]
  have "index_ready (handle_index ?T)" using inv by (simp add: sort_inv_def)
  from pick_recipient_Ok [OF this _ _ assms(4), of parent rs] assms(3)
  have "mset (available_rewards info rs) = (case ri of None \<Rightarrow> {#} | Some r \<Rightarrow> {#fst (recipient r)#}) + mset (reward_after sn info ri rs)"
    by (intro rewards_consumed) (simp_all add: assms(8))
  moreover from inv_append(2) [OF inv assms(2,7,5,6)] assms(3) obtain sn' where "snapshots db' = snapshots db @ [sn']" "same_core sn' sn"
    "holds_reward_set db' sn' (reward_after sn info ri rs)" by blast
  ultimately show ?thesis by (auto simp: same_core_def)
qed

definition example_address :: "u8 \<Rightarrow> StacksAddress" where
  "example_address i = \<lparr>addr_version = 26, addr_bytes = replicate 20 i\<rparr>"

theorem reward_set_consumed_witness:
  "\<exists>db parent rs ri r tx db' sn' rs'. sortition_reachable example_externals cur_block db \<and> parent \<in> set (snapshots db) \<and> holds_reward_set db parent rs \<and>
     pick_recipient (\<lambda>_ _. 0) (db\<lparr>chain_tip := sn_sortition_id parent\<rparr>) [] (Some (SelectedAndKnown (example_block 9) [example_address 1, example_address 2])) = Ok (Some ri) \<and>
     append_chain_tip_snapshot cur_block (db\<lparr>chain_tip := sn_sortition_id parent\<rparr>) parent (example_snapshot 2 2 parent) []
       (Some (SelectedAndKnown (example_block 9) [example_address 1, example_address 2])) (Some ri) = Ok (r, tx) \<and> handle_commit tx = Ok db' \<and>
     fst (recipient ri) = example_address 1 \<and> snapshots db' = snapshots db @ [sn'] \<and> holds_reward_set db' sn' rs' \<and> mset rs' = {#example_address 2#}"
proof -
  from example_new obtain db f where e: "sortition_reachable example_externals cur_block db" "snapshots db = [f]" "small db {1}" by blast
  let ?i = "SelectedAndKnown (example_block 9) [example_address 1, example_address 2]" and ?T = "db\<lparr>chain_tip := sn_sortition_id f\<rparr>"
  let ?ri = "\<lparr>anchor_block = example_block 9, recipient = (example_address 1, 0)\<rparr>"
  note inv = reachable_sort_inv [OF e(1)]
  have f: "f \<in> set (snapshots db)" using e(2) by simp
  obtain rows where c: "last rows = f" "chain_keys db rows" using inv f unfolding sort_inv_def by blast
  obtain rs where rs: "holds_reward_set db f rs" using c unfolding chain_keys_def by blast
  obtain p where p: "view_at db f PoxIdentifier = Some (VPoxId p)" using c unfolding chain_keys_def by blast
  have pick: "pick_recipient (\<lambda>_ _. 0) ?T [] (Some ?i) = Ok (Some ?ri)"
    by (simp add: pick_recipient_def choose_index_def nth_res_def u16_try_from_def)
  have "get_pox_id ?T = Ok p" using p inv by (simp add: get_pox_id_def tx_get_view sort_inv_def)
  then have "\<exists>pox. pox_entries ?T f (example_snapshot 2 2 f) (Some ?i) (Some ?ri) = Ok pox"
    by (simp add: pox_entries_def example_not_initial new_cycle_entries_def remove_used_def nth_res_def reward_set_entries_def
        reward_set_size_to_string_def Let_def)
  then obtain pox where pox: "pox_entries ?T f (example_snapshot 2 2 f) (Some ?i) (Some ?ri) = Ok pox" ..
  from example_next [OF e(1,3) f _ _ _ pox] obtain db' r tx where a:
    "append_chain_tip_snapshot cur_block ?T f (example_snapshot 2 2 f) [] (Some ?i) (Some ?ri) = Ok (r, tx)" "handle_commit tx = Ok db'" by auto
  have "sn_sortition_id (example_snapshot 2 2 f) \<noteq> SENTINEL_ARRAY" "\<not> is_initial (example_snapshot 2 2 f)"
    by (simp_all add: example_not_initial) (simp add: example_snapshot_def)
  from reward_set_consumed [OF e(1) f rs pick a this] obtain sn' rs' where "snapshots db' = snapshots db @ [sn']" "holds_reward_set db' sn' rs'"
    "mset rs' = {#example_address 2#}" by (auto simp: available_rewards_def)
  with e(1) f rs pick a show ?thesis by fastforce
qed

text \<open>C20. Appending a snapshot moves the memoized canonical Stacks tip of its fork to the highest of the parent's
  memoized tip and the Stacks blocks that arrived on the fork since the parent was appended, when no
  accepted block belongs to another sortition of a burn block of the fork.\<close>

theorem arrivals_move_tip:
  assumes "sortition_reachable X root db" and "stored_chain db rows" and "no_pox_clash db rows"
    and "append_chain_tip_snapshot root (db\<lparr>chain_tip := sn_sortition_id (last rows)\<rparr>) (last rows) sn ops info recip = Ok (r, tx)"
    and "handle_commit tx = Ok db'" and "sn_sortition_id sn \<noteq> SENTINEL_ARRAY"
  shows "\<exists>sn'. snapshots db' = snapshots db @ [sn'] \<and>
    (let old = (sn_canonical_stacks_tip_consensus_hash (last rows), sn_canonical_stacks_tip_hash (last rows), sn_canonical_stacks_tip_height (last rows));
         new = (sn_canonical_stacks_tip_consensus_hash sn', sn_canonical_stacks_tip_hash sn', sn_canonical_stacks_tip_height sn');
         arrived = arrival_entry ` {s \<in> set rows. sn_stacks_block_accepted s \<and> max_arrival_of db (last rows) \<le> sn_arrival_index s}
     in new \<in> insert old arrived \<and> (\<forall>(_, _, h) \<in> insert old arrived. h \<le> sn_canonical_stacks_tip_height sn'))"
proof -
  let ?T = "db\<lparr>chain_tip := sn_sortition_id (last rows)\<rparr>"
  note inv = reachable_sort_inv [OF assms(1)] and ainv = reachable_arrival_inv [OF assms(1)]
  have h: "handle_on ?T rows" "arrival_inv ?T" "no_pox_clash ?T rows"
    using chain_handle [OF inv assms(2)] ainv assms(3) by (simp_all add: no_pox_clash_def)
  have p: "last rows \<in> set (snapshots db)" using assms(2) by (auto simp: stored_chain_def last_in_set)
  from inv_append(2) [OF inv p assms(6,4,5)] obtain sn' parent' arrivals where s: "snapshots db' = snapshots db @ [sn']"
    "process_new_block_arrivals ?T (last rows) = Ok (arrivals, parent')" "takes_tip sn' sn parent'" by blast
  have eq: "set (new_arrivals ?T rows) = {s \<in> set rows. sn_stacks_block_accepted s \<and> max_arrival_of db (last rows) \<le> sn_arrival_index s}"
    using new_arrivals_set [OF h(1,2)] assms(2) by (auto simp: max_arrival_of_def stored_chain_def)
  show ?thesis using arrivals_result [OF h refl] s fold_max_ge [of "sn_canonical_stacks_tip_height (last rows)" sn_stacks_block_height "new_arrivals ?T rows"]
    by (auto simp: takes_tip_def Let_def eq [symmetric] arrival_entry_def)
qed

theorem arrivals_move_tip_witness:
  "\<exists>db rows sn r tx db' sn'. append_chain_tip_snapshot cur_block (db\<lparr>chain_tip := sn_sortition_id (last rows)\<rparr>) (last rows) sn [] None None = Ok (r, tx) \<and>
     handle_commit tx = Ok db' \<and> snapshots db' = snapshots db @ [sn'] \<and> sn_canonical_stacks_tip_height sn' = 0"
proof -
  from example_fork obtain db f a b where e: "sortition_reachable example_externals cur_block db" "snapshots db = [f, a, b]"
    "small db {1, 2, 3}" "stored_chain db [f, a]" by blast
  have idle: "\<not> sn_stacks_block_accepted s" "sn_canonical_stacks_tip_height s = 0" if "s \<in> set (snapshots db)" for s
    using e(3) that unfolding small_def by auto
  let ?sn = "example_snapshot 4 4 a"
  from example_next [OF e(1,3), of a 4 4 None None] e(2) obtain r tx db' where ok:
    "append_chain_tip_snapshot cur_block (db\<lparr>chain_tip := sn_sortition_id a\<rparr>) a ?sn [] None None = Ok (r, tx)" "handle_commit tx = Ok db'"
    by (fastforce simp: example_no_pox)
  have "no_pox_clash db [f, a]" using idle by (auto simp: no_pox_clash_def)
  moreover have "sn_sortition_id ?sn \<noteq> SENTINEL_ARRAY" by (simp add: example_snapshot_def)
  moreover have "{s \<in> set [f, a]. sn_stacks_block_accepted s \<and> P s} = {}" for P using idle e(2) by auto
  ultimately obtain sn' where "snapshots db' = snapshots db @ [sn']" "sn_canonical_stacks_tip_height sn' = sn_canonical_stacks_tip_height a"
    using arrivals_move_tip [OF e(1,4), of ?sn "[]" None None r tx db'] ok by (auto simp: Let_def)
  with ok idle(2) [of a] e(2) show ?thesis
    by (intro exI [of _ db] exI [of _ "[f, a]"] exI [of _ ?sn] exI [of _ r] exI [of _ tx] exI [of _ db'] exI [of _ sn']) simp
qed

text \<open>C21. A burn block that was processed on two PoX forks has two sortitions. When the Stacks block of one of them
  is the latest to be accepted, appending any snapshot to the fork of the other panics.\<close>

theorem pox_fork_arrival_panics:
  assumes "sortition_reachable X root db" and "stored_chain db rows" and "s \<in> set (snapshots db)" and "sn_stacks_block_accepted s"
    and "s \<notin> set rows" and "r \<in> set rows" and "sn_burn_header_hash r = sn_burn_header_hash s"
    and "sn_arrival_index s = get_max_arrival_index db"
  shows "append_chain_tip_snapshot root' (db\<lparr>chain_tip := sn_sortition_id (last rows)\<rparr>) (last rows) sn ops info recip = Panic"
proof -
  let ?T = "db\<lparr>chain_tip := sn_sortition_id (last rows)\<rparr>"
  note inv = reachable_sort_inv [OF assms(1)] and ainv = reachable_arrival_inv [OF assms(1)] and seen = reachable_arrivals_seen [OF assms(1)]
  have p: "last rows \<in> set (snapshots db)" using assms(2) by (auto simp: stored_chain_def last_in_set)
  have le: "max_arrival_of ?T (last rows) \<le> sn_arrival_index s"
    using seen p assms(8) by (simp add: arrivals_seen_def max_arrival_of_def)
  have "process_new_block_arrivals ?T (last rows) = Panic"
    by (rule arrivals_panic [OF chain_handle [OF inv assms(2)] _ _ assms(4,5,6,7) le]) (simp_all add: ainv assms(3))
  then show ?thesis by (rule append_panics [rotated]) (use inv in \<open>simp add: sort_inv_def\<close>)
qed

theorem pox_fork_arrival_panics_witness:
  "\<exists>db b. sortition_reachable example_externals cur_block db \<and> b \<in> set (snapshots db) \<and>
     (\<forall>sn ops info recip. append_chain_tip_snapshot cur_block (db\<lparr>chain_tip := sn_sortition_id b\<rparr>) b sn ops info recip = Panic)"
proof -
  from example_fork obtain db f a b where e: "sortition_reachable example_externals cur_block db" "snapshots db = [f, a, b]"
    "same_core a (example_snapshot 2 2 f)" "same_core b (example_snapshot 3 2 f)" "small db {1, 2, 3}"
    "sn_winning_stacks_block_hash f = FIRST_STACKS_BLOCK_HASH" "stored_chain db [f, a]" "stored_chain db [f, b]" by blast
  note inv = reachable_sort_inv [OF e(1)]
  have ids: "sn_sortition_id a = example_block 2" "sn_sortition_id b = example_block 3" "sn_winning_stacks_block_hash a = example_block 2"
    "sn_consensus_hash a = replicate 20 2" "sn_consensus_hash b = replicate 20 3" "sn_burn_header_hash a = example_block 2" "sn_burn_header_hash b = example_block 2"
    using e(3,4) by (simp_all add: same_core_def example_snapshot_def)
  have d: "sn_sortition_id f \<noteq> example_block 2" "sn_sortition_id f \<noteq> example_block 3" "sn_consensus_hash f \<noteq> replicate 20 2"
    using inv e(2) ids unfolding sort_inv_def by auto
  have none: "\<not> sn_stacks_block_accepted s" if "s \<in> {f, a, b}" for s using e(2,5) that unfolding small_def by auto
  then have idle: "sn_arrival_index f = 0" "sn_arrival_index b = 0" "sn_arrival_index a = 0"
    using reachable_arrival_inv [OF e(1)] by (simp_all add: arrival_inv_def e(2))
  then have zero: "get_max_arrival_index db = 0" by (simp add: e(2) get_max_arrival_index_def)
  have tip: "sn_canonical_stacks_tip_hash a = FIRST_STACKS_BLOCK_HASH" "sn_canonical_stacks_tip_height a = 0"
    using e(2,5) unfolding small_def by auto
  from accept_Ok [OF inv, of a FIRST_STACKS_BLOCK_HASH 1 "replicate 20 2" "example_block 2"] e(2) tip zero obtain db' where ok:
    "set_stacks_block_accepted (db\<lparr>chain_tip := sn_sortition_id a\<rparr>) (replicate 20 2) FIRST_STACKS_BLOCK_HASH (example_block 2) 1 = Ok db'"
    "handle_index db' = handle_index db" "first_block_height db' = first_block_height db"
    "snapshots db' = [f, a\<lparr>sn_stacks_block_accepted := True, sn_stacks_block_height := 1, sn_arrival_index := 1,
       sn_canonical_stacks_tip_consensus_hash := replicate 20 2, sn_canonical_stacks_tip_hash := example_block 2, sn_canonical_stacks_tip_height := 1\<rparr>, b]"
    using ids d by auto
  have reach: "sortition_reachable example_externals cur_block db'" by (rule reach_next [OF e(1) step_accept [OF ok(1)]])
  have chain: "stored_chain db' [f, b]" using e(8) by (simp add: stored_chain_def ok)
  let ?a = "snapshots db' ! 1"
  have a: "?a \<in> set (snapshots db')" "sn_stacks_block_accepted ?a" "sn_burn_header_hash ?a = example_block 2" "sn_arrival_index ?a = 1"
    "sn_sortition_id ?a = example_block 2" using ids by (simp_all add: ok(4))
  have "?a \<notin> set [f, b]" using a(5) d ids by auto
  moreover have "sn_arrival_index ?a = get_max_arrival_index db'"
    using idle a(4) by (simp add: ok(4) get_max_arrival_index_def)
  ultimately have "append_chain_tip_snapshot cur_block (db'\<lparr>chain_tip := sn_sortition_id b\<rparr>) b sn ops info recip = Panic" for sn ops info recip
    using pox_fork_arrival_panics [OF reach chain a(1,2), of b cur_block sn ops info recip] a(3) ids by simp
  with reach show ?thesis by (intro exI [of _ db'] exI [of _ b]) (simp add: ok(4))
qed


lemma example_fields: "sn_sortition_id (example_snapshot i b p) = example_block i" "sn_consensus_hash (example_snapshot i b p) = replicate 20 i"
  "sn_parent_burn_header_hash (example_snapshot i b p) = sn_burn_header_hash p" "sn_block_height (example_snapshot i b p) = sn_block_height p + 1"
  "sn_sortition (example_snapshot i b p)" "sn_num_sortitions (example_snapshot i b p) = sn_num_sortitions p + 1"
  "sn_burn_header_timestamp (example_snapshot i b p) = sn_burn_header_timestamp p" "sn_stacks_block_height (example_snapshot i b p) = 0"
  "sn_arrival_index (example_snapshot i b p) = 0"
  by (simp_all add: example_snapshot_def)


end
