(* ===== verification/ForkInvalidation.thy ===== *)
theory ForkInvalidation
  imports SortitionProperties "HOL-Library.Multiset"
begin

text \<open>
  The walk of \<^verbatim>\<open>invalidate_descendants_of\<close> (\<^verbatim>\<open>src/chainstate/burn/db/sortdb.rs\<close>) over a queue of burn
  block hashes: that it ends, and that the rows it marks are exactly the descendants of the block.
\<close>

section \<open>Links between burn blocks\<close>

definition burn_links :: "SortitionHandleTx \<Rightarrow> (bytes \<times> bytes) set" where
  "burn_links db = (\<lambda>s. (sn_parent_burn_header_hash s, sn_burn_header_hash s)) ` set (snapshots db)"

text \<open>The database with the rows whose parent block is in a set marked invalid.\<close>

definition mark_children :: "SortitionHandleTx \<Rightarrow> bytes set \<Rightarrow> SortitionHandleTx" where
  "mark_children db parents = db\<lparr>snapshots :=
     map (\<lambda>s. if sn_parent_burn_header_hash s \<in> parents then s\<lparr>sn_pox_valid := False\<rparr> else s) (snapshots db)\<rparr>"

definition parents_lower :: "SortitionHandleTx \<Rightarrow> bool" where
  "parents_lower db \<longleftrightarrow> (\<forall>s \<in> set (snapshots db). \<forall>t \<in> set (snapshots db).
     sn_burn_header_hash t = sn_parent_burn_header_hash s \<longrightarrow> sn_block_height t < sn_block_height s)"

text \<open>The burnchain as the database is told of it: a block has one height, and the block before the
  first is not recorded.\<close>

definition burn_heights_agree :: "SortitionHandleTx \<Rightarrow> bool" where
  "burn_heights_agree db \<longleftrightarrow>
     (\<forall>s \<in> set (snapshots db). \<forall>t \<in> set (snapshots db).
        (sn_burn_header_hash s = sn_burn_header_hash t \<longrightarrow> sn_block_height s = sn_block_height t) \<and>
        (sn_consensus_hash s = ConsensusHash_empty \<longrightarrow> sn_burn_header_hash t \<noteq> sn_parent_burn_header_hash s))"

lemma invalidate_children_mark: "invalidate_children db header = mark_children db {header}"
  by (simp add: invalidate_children_def mark_children_def)

lemma mark_children_links [simp]: "burn_links (mark_children db parents) = burn_links db"
proof -
  have "map (\<lambda>s. (sn_parent_burn_header_hash s, sn_burn_header_hash s)) (snapshots (mark_children db parents)) =
      map (\<lambda>s. (sn_parent_burn_header_hash s, sn_burn_header_hash s)) (snapshots db)"
    by (simp add: mark_children_def)
  then have "set (map (\<lambda>s. (sn_parent_burn_header_hash s, sn_burn_header_hash s)) (snapshots (mark_children db parents))) =
      set (map (\<lambda>s. (sn_parent_burn_header_hash s, sn_burn_header_hash s)) (snapshots db))" by (rule arg_cong)
  then show ?thesis by (simp only: burn_links_def set_map)
qed

lemma mark_children_empty [simp]: "mark_children db {} = db"
  by (simp add: mark_children_def)

lemma mark_children_mark: "mark_children (mark_children db A) B = mark_children db (A \<union> B)"
  by (auto simp: mark_children_def comp_def)

lemma set_child_headers: "set (child_headers db header) = burn_links db `` {header}"
  by (auto simp: child_headers_def burn_links_def)

section \<open>The links are well founded\<close>

lemma links_wf:
  assumes "parents_lower db"
  shows "wf ((burn_links db)\<inverse>)"
proof -
  define H where "H = unat ` sn_block_height ` set (snapshots db)"
  define rank where "rank x = Max (insert 0 (Suc ` unat ` sn_block_height ` {s \<in> set (snapshots db). sn_burn_header_hash s = x}))" for x
  have "rank (fst l) < rank (snd l) \<and> rank (snd l) \<le> Suc (Max (insert 0 H))" if "l \<in> burn_links db" for l
  proof -
    from that obtain s where s: "s \<in> set (snapshots db)" "l = (sn_parent_burn_header_hash s, sn_burn_header_hash s)"
      by (auto simp: burn_links_def)
    have "rank (sn_parent_burn_header_hash s) \<le> unat (sn_block_height s)"
      using assms s(1) by (auto simp: rank_def parents_lower_def word_less_nat_alt Suc_le_eq)
    moreover have "Suc (unat (sn_block_height s)) \<le> rank (sn_burn_header_hash s)"
      unfolding rank_def using s(1) by (intro Max_ge) auto
    moreover have "rank (sn_burn_header_hash s) \<le> Suc (Max (insert 0 H))"
      by (auto simp: rank_def H_def intro!: Max_ge)
    ultimately show ?thesis by (simp add: s(2))
  qed
  then have "(burn_links db)\<inverse> \<subseteq> measure (\<lambda>x. Suc (Max (insert 0 H)) - rank x)"
    by (fastforce simp: in_measure)
  then show ?thesis by (rule wf_subset [OF wf_measure])
qed

lemma reachable_parents_lower:
  assumes "sort_inv db" and "burn_heights_agree db"
  shows "parents_lower db"
  unfolding parents_lower_def
proof (intro ballI impI)
  fix s t assume s: "s \<in> set (snapshots db)" and t: "t \<in> set (snapshots db)" and p: "sn_burn_header_hash t = sn_parent_burn_header_hash s"
  obtain rows where rows: "last rows = s" "stored_chain db rows" using assms(1) s by (auto simp: sort_inv_def)
  have "rows \<noteq> []" and hd: "sn_consensus_hash (hd rows) = ConsensusHash_empty" using rows(2) by (simp_all add: stored_chain_def)
  have "rows \<noteq> [s]"
  proof
    assume "rows = [s]"
    with hd have "sn_consensus_hash s = ConsensusHash_empty" by simp
    with assms(2) s t p show False unfolding burn_heights_agree_def by blast
  qed
  then obtain n where n: "length rows = Suc (Suc n)" using \<open>rows \<noteq> []\<close> rows(1)
    by (cases rows rule: rev_cases) (auto simp: neq_Nil_conv)
  then have last: "s = rows ! Suc n" using rows(1) \<open>rows \<noteq> []\<close> by (simp add: last_conv_nth)
  have "rows ! n \<in> set rows" using n by simp
  then have "rows ! n \<in> set (snapshots db)" using rows(2) unfolding stored_chain_def by blast
  moreover have "sn_burn_header_hash (rows ! n) = sn_burn_header_hash t"
    using rows(2) n p last by (simp add: stored_chain_def)
  ultimately have "sn_block_height t = sn_block_height (rows ! n)" using assms(2) t unfolding burn_heights_agree_def by metis
  moreover have h: "unat (sn_block_height s) = Suc (unat (sn_block_height (rows ! n)))"
    using rows(2) n last by (simp add: stored_chain_def)
  ultimately show "sn_block_height t < sn_block_height s" by (simp add: word_less_nat_alt)
qed

section \<open>The walk\<close>

lemma invalidate_loop_exact:
  assumes "wf ((burn_links db)\<inverse>)"
  shows "invalidate_loop queue db = Some (mark_children db ((burn_links db)\<^sup>* `` set queue))"
proof -
  define L where "L = burn_links db"
  have "burn_links d = L \<Longrightarrow> invalidate_loop q d = Some (mark_children d (L\<^sup>* `` set q))" if "M = mset q" for M q d
    using wf_mult [OF assms] that
  proof (induction M arbitrary: q d rule: wf_induct_rule)
    case (less M)
    show ?case
    proof (cases q rule: rev_cases)
      case Nil
      then show ?thesis by (simp add: invalidate_loop.simps)
    next
      case (snoc front header)
      define d' where "d' = invalidate_children d header"
      have links: "burn_links d' = L" using less.prems by (simp add: d'_def invalidate_children_mark)
      define cs where "cs = child_headers d' header"
      have cs: "set cs = L `` {header}" by (simp add: cs_def set_child_headers links)
      have "(mset front + mset cs, mset front + {#header#}) \<in> mult ((burn_links db)\<inverse>)"
        by (rule one_step_implies_mult) (auto simp: cs L_def)
      then have "(mset (front @ cs), M) \<in> mult ((burn_links db)\<inverse>)" using less.prems snoc by simp
      from less.IH [OF this links refl]
      have "invalidate_loop q d = Some (mark_children d' (L\<^sup>* `` set (front @ cs)))"
        by (subst invalidate_loop.simps) (simp add: snoc d'_def [symmetric] cs_def [symmetric])
      moreover have "{header} \<union> L\<^sup>* `` set (front @ cs) = L\<^sup>* `` set q"
        using snoc by (auto simp: cs intro: converse_rtrancl_into_rtrancl elim: converse_rtranclE)
      ultimately show ?thesis by (simp add: d'_def invalidate_children_mark mark_children_mark)
    qed
  qed
  then show ?thesis by (simp add: L_def)
qed

lemma invalidate_exact:
  assumes "parents_lower db"
  shows "invalidate_descendants_of db burn_block = Some (mark_children db ((burn_links db)\<^sup>* `` {burn_block}))"
  by (simp add: invalidate_descendants_of_def invalidate_loop_exact [OF links_wf [OF assms]])

text \<open>C36. Invalidating the descendants of a burn block ends, in every reachable database in which a burn
  block has one height and the block before the first is not recorded, and marks as invalid
  exactly the snapshots whose parent burn block is the given block or descends from it, leaving every
  other row and table as it was.\<close>

theorem invalidation_ends_exact:
  assumes "sortition_reachable X root db" and "burn_heights_agree db"
  shows "invalidate_descendants_of db burn_block = Some (db\<lparr>snapshots := map (\<lambda>s.
    if (burn_block, sn_parent_burn_header_hash s) \<in> (burn_links db)\<^sup>* then s\<lparr>sn_pox_valid := False\<rparr> else s) (snapshots db)\<rparr>)"
  using invalidate_exact [OF reachable_parents_lower [OF reachable_sort_inv [OF assms(1)] assms(2)]]
  by (simp add: mark_children_def)

theorem invalidation_ends_exact_witness:
  "\<exists>db f a b. sortition_reachable example_externals cur_block db \<and> snapshots db = [f, a, b] \<and>
     invalidate_descendants_of db (example_block 1) =
       Some (db\<lparr>snapshots := [f, a\<lparr>sn_pox_valid := False\<rparr>, b\<lparr>sn_pox_valid := False\<rparr>]\<rparr>)"
proof -
  from example_fork obtain db f a b where e: "sortition_reachable example_externals cur_block db" "snapshots db = [f, a, b]"
    "same_core a (example_snapshot 2 2 f)" "same_core b (example_snapshot 3 2 f)" "small db {1, 2, 3}"
    "sn_burn_header_hash f = example_block 1" "sn_parent_burn_header_hash f = SENTINEL_ARRAY" by blast
  have rows: "sn_burn_header_hash a = example_block 2" "sn_burn_header_hash b = example_block 2"
    "sn_parent_burn_header_hash a = example_block 1" "sn_parent_burn_header_hash b = example_block 1"
    "sn_block_height a = sn_block_height f + 1" "sn_block_height b = sn_block_height f + 1"
    "sn_consensus_hash a = replicate 20 2" "sn_consensus_hash b = replicate 20 3"
    using e(3,4,6) by (simp_all add: same_core_def example_snapshot_def)
  have agree: "burn_heights_agree db"
    by (simp add: burn_heights_agree_def e(2,6,7) rows ConsensusHash_empty_def example_block_def SENTINEL_ARRAY_def)
  have "(example_block 1, sn_parent_burn_header_hash f) \<notin> (burn_links db)\<^sup>*"
    by (auto simp: burn_links_def e(2,6,7) rows example_block_def SENTINEL_ARRAY_def elim: rtranclE)
  then show ?thesis using invalidation_ends_exact [OF e(1) agree, of "example_block 1"] e(1,2) rows by force
qed

end
