(* ===== verification/BlockProcessing.thy ===== *)
theory BlockProcessing
  imports OpChecks Arrivals
begin

text \<open>
  What the processing of burn blocks guarantees. Every evaluated sortition is an append of the sortition
  database, so all that holds of reachable databases holds along the whole pipeline; the operations it
  accepts have passed their checks on the fork they extend; hence on every fork each VRF key is registered
  once, and no Stacks block wins two sortitions.
\<close>

section \<open>Taking an evaluation apart\<close>

lemma indexed_tip_known:
  assumes inv: "sort_inv db" and "tx_get_indexed db tip k = Ok (Some v)"
  shows "tip \<in> sn_sortition_id ` set (snapshots db)"
proof -
  have ready: "index_ready (handle_index db)" using inv by (simp add: sort_inv_def)
  then have "index_view (handle_index db) tip k = Some v" using assms(2) by (simp add: tx_get_indexed_def get_indexed_view)
  then obtain t where "read_trie (storage (index_tx (handle_index db))) tip = Some t" by (auto simp: index_view_def split: option.splits)
  moreover have "forest (read_trie (storage (index_tx (handle_index db))))" using ready by (simp add: index_ready_def marf_inv_def)
  ultimately obtain ps where "index_chain (handle_index db) tip ps" unfolding forest_def index_chain_def by blast
  then show ?thesis using inv unfolding sort_inv_def by blast
qed

lemma parent_found:
  assumes inv: "sort_inv db" and id: "get_sortition_id db h from_tip = Ok (Some psid)"
    and sn: "tx_get_block_snapshot (db\<lparr>chain_tip := psid\<rparr>) h psid = Ok (Some parent)"
  shows "parent \<in> set (snapshots db) \<and> sn_sortition_id parent = psid \<and> sn_burn_header_hash parent = h"
proof -
  from id obtain x where x: "tx_get_indexed db from_tip (SortitionIdForBhh h) = Ok (Some x)" "as_hash x = (Ok psid :: (db_error, bytes) res)"
    by (auto simp: get_sortition_id_def get_sortition_id_for_bhh_def and_then_Ok_iff tx_get_indexed_def split: option.splits)
  from indexed_tip_known [OF inv x(1)] obtain tip where tip: "tip \<in> set (snapshots db)" "sn_sortition_id tip = from_tip" by auto
  from inv tip(1) obtain rows where rows: "last rows = tip" "stored_chain db rows" "chain_keys db rows" unfolding sort_inv_def by blast
  have "view_at db tip (SortitionIdForBhh h) = Some x"
    using x(1) tx_get_view [of db tip "SortitionIdForBhh h"] inv tip(2) by (simp add: sort_inv_def)
  then have "map_option VHash (last_write (map (\<lambda>r. (sn_burn_header_hash r, sn_sortition_id r)) rows) h) = Some x"
    using rows(1,3) by (simp add: chain_keys_def)
  then obtain r where r: "r \<in> set rows" "sn_burn_header_hash r = h" "x = VHash (sn_sortition_id r)"
    by (auto simp: last_write_find dest: find_SomeD)
  then have id: "psid = sn_sortition_id r" using x(2) by simp
  have r_in: "r \<in> set (snapshots db)" using r(1) rows(2) by (auto simp: stored_chain_def)
  with inv obtain rows' where rows': "last rows' = r" "stored_chain db rows'" "chain_keys db rows'" unfolding sort_inv_def by blast
  then have ne: "rows' \<noteq> []" by (simp add: stored_chain_def)
  have "tx_get_block_snapshot (db\<lparr>chain_tip := psid\<rparr>) h (sn_sortition_id (last rows')) =
      Ok (find (\<lambda>r. sn_burn_header_hash r = h) (rev rows'))"
    using snapshot_by_burn_hash [of "db\<lparr>chain_tip := psid\<rparr>" rows' h] inv rows' by simp
  moreover have "find (\<lambda>r. sn_burn_header_hash r = h) (rev rows') = Some r"
    using ne rows'(1) r(2) by (cases rows' rule: rev_cases) auto
  ultimately have "parent = r" using sn id rows'(1) by simp
  then show ?thesis using r_in id r(2) by simp
qed

lemma process_txs_parts:
  assumes "process_block_txs X root tx parent header burnchain ops info pox recip = Some (Ok ((sn, tr), tx'))"
  shows "\<exists>checked snap r. check_block_ops X tx burnchain (sort_key op_vtxindex ops) recip = Some (Ok checked) \<and>
    from_block_ops X tx parent checked = Ok tr \<and>
    make_snapshot X tx burnchain (SortitionId_new X (hdr_block_hash header) (next_pox_id pox info)) (next_pox_id pox info) parent header
      (tr_burn_dist tr) (map op_txid (tr_accepted_ops tr)) = Ok snap \<and>
    append_chain_tip_snapshot root tx parent snap (tr_accepted_ops tr) info recip = Ok (r, tx') \<and> sn = snap\<lparr>sn_index_root := r\<rparr>"
  using assms
  by (auto simp: process_block_txs_def process_block_ops_def run_then_Ok_iff process_checked_block_ops_def and_then_Ok_iff Let_def
      split: if_splits)

text \<open>An evaluation appends one snapshot to a stored parent, commits, and stores the transition.\<close>

lemma evaluate_parts:
  assumes inv: "sort_inv db" and ok: "evaluate_sortition X root gen_range db header ops burnchain from_tip info = Some (Ok ((sn, tr), db'))"
  shows "\<exists>parent pox recip tx db1 checked snap r. parent \<in> set (snapshots db) \<and> sn_burn_header_hash parent = hdr_parent_block_hash header \<and>
    check_block_ops X (db\<lparr>chain_tip := sn_sortition_id parent\<rparr>) burnchain (sort_key op_vtxindex ops) recip = Some (Ok checked) \<and>
    from_block_ops X (db\<lparr>chain_tip := sn_sortition_id parent\<rparr>) parent checked = Ok tr \<and>
    make_snapshot X (db\<lparr>chain_tip := sn_sortition_id parent\<rparr>) burnchain (SortitionId_new X (hdr_block_hash header) (next_pox_id pox info))
      (next_pox_id pox info) parent header (tr_burn_dist tr) (map op_txid (tr_accepted_ops tr)) = Ok snap \<and>
    append_chain_tip_snapshot root (db\<lparr>chain_tip := sn_sortition_id parent\<rparr>) parent snap (tr_accepted_ops tr) info recip = Ok (r, tx) \<and>
    handle_commit tx = Ok db1 \<and> store_transition_ops db1 (sn_sortition_id snap) tr = Ok db' \<and> sn = snap\<lparr>sn_index_root := r\<rparr>"
proof -
  from ok obtain psid parent pox recip tx tx2 where o: "get_sortition_id db (hdr_parent_block_hash header) from_tip = Ok (Some psid)"
    "tx_get_block_snapshot (db\<lparr>chain_tip := psid\<rparr>) (hdr_parent_block_hash header) psid = Ok (Some parent)"
    "process_block_txs X root (db\<lparr>chain_tip := psid\<rparr>) parent header burnchain ops info pox recip = Some (Ok ((sn, tr), tx))"
    "store_transition_ops tx (sn_sortition_id sn) tr = Ok tx2" "handle_commit tx2 = Ok db'"
    unfolding evaluate_sortition_def Let_def by (auto simp: run_then_Ok_iff and_then_Ok_iff simp del: run_then.simps)
  from parent_found [OF inv o(1,2)] have p: "parent \<in> set (snapshots db)" "psid = sn_sortition_id parent"
    "sn_burn_header_hash parent = hdr_parent_block_hash header" by auto
  from process_txs_parts [OF o(3)] obtain checked snap r where c: "check_block_ops X (db\<lparr>chain_tip := psid\<rparr>) burnchain (sort_key op_vtxindex ops) recip = Some (Ok checked)"
    "from_block_ops X (db\<lparr>chain_tip := psid\<rparr>) parent checked = Ok tr"
    "make_snapshot X (db\<lparr>chain_tip := psid\<rparr>) burnchain (SortitionId_new X (hdr_block_hash header) (next_pox_id pox info))
      (next_pox_id pox info) parent header (tr_burn_dist tr) (map op_txid (tr_accepted_ops tr)) = Ok snap"
    "append_chain_tip_snapshot root (db\<lparr>chain_tip := psid\<rparr>) parent snap (tr_accepted_ops tr) info recip = Ok (r, tx)" "sn = snap\<lparr>sn_index_root := r\<rparr>" by blast
  from o(4,5) obtain idx where i: "index_commit (handle_index tx) = Ok idx"
    by (auto simp: store_transition_ops_def handle_commit_def and_then_Ok_iff split: if_splits)
  let ?db1 = "tx\<lparr>handle_index := idx\<rparr>"
  have "handle_commit tx = Ok ?db1" by (simp add: handle_commit_def i)
  moreover have "store_transition_ops ?db1 (sn_sortition_id snap) tr = Ok db'"
    using o(4,5) i c(5) by (auto simp: store_transition_ops_def handle_commit_def and_then_Ok_iff split: if_splits)
  ultimately show ?thesis using p c unfolding p(2) by blast
qed

lemma evaluate_reachable:
  assumes "sortition_reachable X root db" and "evaluate_sortition X root gen_range db header ops burnchain from_tip info = Some (Ok ((sn, tr), db'))"
    and "sn_sortition_id sn \<noteq> SENTINEL_ARRAY"
  shows "sortition_reachable X root db'"
proof -
  from evaluate_parts [OF reachable_sort_inv [OF assms(1)] assms(2)] obtain parent pox recip tx db1 snap r where
    p: "parent \<in> set (snapshots db)" "make_snapshot X (db\<lparr>chain_tip := sn_sortition_id parent\<rparr>) burnchain (SortitionId_new X (hdr_block_hash header) (next_pox_id pox info))
      (next_pox_id pox info) parent header (tr_burn_dist tr) (map op_txid (tr_accepted_ops tr)) = Ok snap"
    "append_chain_tip_snapshot root (db\<lparr>chain_tip := sn_sortition_id parent\<rparr>) parent snap (tr_accepted_ops tr) info recip = Ok (r, tx)"
    "handle_commit tx = Ok db1" "store_transition_ops db1 (sn_sortition_id snap) tr = Ok db'" "sn = snap\<lparr>sn_index_root := r\<rparr>" by blast
  from make_snapshot_Ok [OF p(2)] have "\<not> sn_stacks_block_accepted snap" "sn_arrival_index snap = 0" by (simp_all add: follows_def)
  moreover have "sn_sortition_id snap \<noteq> SENTINEL_ARRAY" using assms(3) p(6) by simp
  ultimately have "sortition_step root db db1" by (intro step_append [OF p(1) _ _ _ p(3,4)])
  then show ?thesis using reach_next [OF reach_next [OF assms(1)] step_transition [OF p(5)]] by blast
qed

section \<open>Accepted operations\<close>

lemma retain_checked_Ok:
  "retain_checked X tx burnchain recip ops = Some (Ok ops') \<Longrightarrow>
     ops' = filter (\<lambda>op. check_transaction X tx burnchain op recip = Some (Ok ())) ops"
  by (induction ops arbitrary: ops') (auto simp: run_then_Ok_iff simp del: run_then.simps split: option.splits res.splits)

lemma checked_ops:
  assumes "check_block_ops X tx burnchain ops recip = Some (Ok checked)"
  shows "ops_are_sorted checked" and "distinct (op_keys checked)"
    and "op \<in> set checked \<Longrightarrow> op \<in> set ops \<and> check_transaction X tx burnchain op recip = Some (Ok ())"
proof -
  from assms obtain o1 o2 where o: "retain_checked X tx burnchain recip ops = Some (Ok o1)" "filter_block_VRF_dups o1 = (Ok o2 :: (burnchain_error, _) res)"
    "filter_block_commits_with_same_VRF_key o2 = (Ok checked :: (burnchain_error, _) res)" "ops_are_sorted o2"
    by (auto simp: check_block_ops_def run_then_Ok_iff and_then_Ok_iff simp del: run_then.simps)
  have o2: "o2 = retain_first_keys {} o1" using o(2) by (simp add: filter_block_VRF_dups_def split: if_splits)
  have c: "checked = filter (kept_op o2) o2" using o(3) filter_commits_result [OF o(4), where 'e = burnchain_error] by simp
  show "ops_are_sorted checked" unfolding c by (rule sorted_filter_ops [OF o(4)])
  show "distinct (op_keys checked)" unfolding c o2 by (rule op_keys_kept(2) [OF retain_first_distinct])
  assume "op \<in> set checked"
  then have "op \<in> set o1" using retain_first_subset [of "{}" o1] unfolding c o2 by auto
  then show "op \<in> set ops \<and> check_transaction X tx burnchain op recip = Some (Ok ())" using retain_checked_Ok [OF o(1)] by simp
qed

lemma op_commits_in: "c \<in> set (op_commits ops) \<longleftrightarrow> LeaderBlockCommit c \<in> set ops"
  by (auto simp: op_commits_def split: BlockstackOperationType.splits)

lemma op_burns_in: "u \<in> set (op_burns ops) \<longleftrightarrow> UserBurnSupport u \<in> set ops"
  by (auto simp: op_burns_def split: BlockstackOperationType.splits)

lemma distribution_subset:
  assumes "make_distribution X cs ks us = Ok ds" and "s \<in> set ds"
  shows "candidate s \<in> set cs" and "set (user_burns s) \<subseteq> set us"
proof -
  from assms(2) obtain i where i: "i < length ds" "ds ! i = s" by (auto simp: in_set_conv_nth)
  note p = make_distribution_points [OF assms(1) i(1)]
  have "candidate s \<in> set (map candidate ds)" using assms(2) by simp
  then show "candidate s \<in> set cs" unfolding p(1) by (rule subsetD [OF firsts_by_subset])
  show "set (user_burns s) \<subseteq> set us" using p(4) i(2) by auto
qed

lemma op_keys_mset: "mset xs = mset ys \<Longrightarrow> mset (op_keys xs) = mset (op_keys ys)"
proof -
  have "mset (op_keys zs) = (\<Sum>op\<in>#mset zs. case op of LeaderKeyRegister k \<Rightarrow> {#lk_public_key k#} | _ \<Rightarrow> {#})" for zs
    by (induction zs) (auto simp: op_keys_def split: BlockstackOperationType.split)
  then show "mset xs = mset ys \<Longrightarrow> mset (op_keys xs) = mset (op_keys ys)" by simp
qed

lemma accepted_ops:
  assumes "from_block_ops X tx parent checked = Ok tr"
  shows "set (tr_accepted_ops tr) \<subseteq> set checked" and "mset (op_keys (tr_accepted_ops tr)) = mset (op_keys checked)"
    and "s \<in> set (tr_burn_dist tr) \<Longrightarrow> LeaderBlockCommit (candidate s) \<in> set (tr_accepted_ops tr)"
proof -
  from assms obtain keys where o: "make_distribution X (op_commits checked) keys (op_burns checked) = (Ok (tr_burn_dist tr) :: (burnchain_error, _) res)"
    "tr_accepted_ops tr = sort_key op_vtxindex (filter is_key_op checked @
      concat (map (\<lambda>point. LeaderBlockCommit (candidate point) # map UserBurnSupport (user_burns point)) (tr_burn_dist tr)))"
    by (auto simp: from_block_ops_def and_then_Ok_iff Let_def)
  note d = distribution_subset [OF o(1)]
  show "set (tr_accepted_ops tr) \<subseteq> set checked"
    using d(1) subsetD [OF d(2)] by (auto simp: o(2) op_commits_in op_burns_in)
  show "s \<in> set (tr_burn_dist tr) \<Longrightarrow> LeaderBlockCommit (candidate s) \<in> set (tr_accepted_ops tr)" by (auto simp: o(2))
  let ?new = "concat (map (\<lambda>point. LeaderBlockCommit (candidate point) # map UserBurnSupport (user_burns point)) (tr_burn_dist tr))"
  have "op_keys (filter is_key_op xs) = op_keys xs" for xs
    by (induction xs) (auto simp: op_keys_def is_key_op_def split: BlockstackOperationType.splits)
  moreover have "op_keys ?new = []" by (auto simp: op_keys_def)
  moreover have "op_keys (xs @ ys) = op_keys xs @ op_keys ys" for xs ys by (simp add: op_keys_def)
  ultimately have "op_keys (filter is_key_op checked @ ?new) = op_keys checked" by simp
  moreover have "mset (tr_accepted_ops tr) = mset (filter is_key_op checked @ ?new)" unfolding o(2) by (rule mset_sort)
  ultimately show "mset (op_keys (tr_accepted_ops tr)) = mset (op_keys checked)" using op_keys_mset by metis
qed

section \<open>Chains after an append\<close>

lemma chains_after_append:
  assumes inv: "sort_inv db" and parent: "parent \<in> set (snapshots db)" and n: "sn_sortition_id sn \<noteq> SENTINEL_ARRAY"
    and ok: "append_chain_tip_snapshot root (db\<lparr>chain_tip := sn_sortition_id parent\<rparr>) parent sn ops info recip = Ok (r, tx)"
    and commit: "handle_commit tx = Ok db'"
  shows "\<exists>sn' rows. same_core sn' sn \<and> snapshots db' = snapshots db @ [sn'] \<and> last rows = parent \<and> stored_chain db rows \<and>
    (\<forall>rows'. stored_chain db' rows' \<longrightarrow> rows' = rows @ [sn'] \<or> stored_chain db rows')"
proof -
  from inv_append(2) [OF inv parent n ok commit] obtain sn' where sn': "same_core sn' sn" "snapshots db' = snapshots db @ [sn']"
    "\<forall>rows. last rows = parent \<and> stored_chain db rows \<longrightarrow> stored_chain db' (rows @ [sn'])"
    "\<forall>rows. stored_chain db rows \<and> chain_keys db rows \<longrightarrow> stored_chain db' rows" by blast
  note inv' = inv_append(1) [OF inv parent n ok commit]
  from inv parent obtain rows where rows: "last rows = parent" "stored_chain db rows" unfolding sort_inv_def by blast
  have "rows' = rows @ [sn'] \<or> stored_chain db rows'" if c: "stored_chain db' rows'" for rows'
  proof (cases "last rows' = sn'")
    case True
    then have "rows' = rows @ [sn']" by (intro chain_unique [OF c _ inv']) (use sn'(3) rows in auto)
    then show ?thesis ..
  next
    case False
    have "last rows' \<in> set (snapshots db')" using c by (auto simp: stored_chain_def last_in_set)
    then have "last rows' \<in> set (snapshots db)" using False sn'(2) by auto
    with inv obtain q where q: "last q = last rows'" "stored_chain db q" "chain_keys db q" unfolding sort_inv_def by blast
    then have "rows' = q" by (intro chain_unique [OF c _ inv']) (use sn'(4) in auto)
    with q show ?thesis by simp
  qed
  with sn'(1,2) rows show ?thesis by blast
qed

lemma chains_after_update:
  assumes "updates_rows db db'" and "stored_chain db' rows'" and "sort_inv db"
  shows "\<exists>f rows. rows' = map f rows \<and> stored_chain db rows \<and> (\<forall>s. same_core (f s) s)"
proof -
  from assms(1) obtain f where f: "\<And>s. same_core (f s) s" "snapshots db' = map f (snapshots db)"
    "handle_index db' = handle_index db" "first_block_height db' = first_block_height db" unfolding updates_rows_def by blast
  have "last rows' \<in> set (snapshots db')" using assms(2) by (auto simp: stored_chain_def last_in_set)
  then obtain s where s: "s \<in> set (snapshots db)" "last rows' = f s" using f(2) by auto
  with assms(3) obtain rows where rows: "last rows = s" "stored_chain db rows" unfolding sort_inv_def by blast
  then have ne: "rows \<noteq> []" by (simp add: stored_chain_def)
  have core: "sn_sortition_id (f s) = sn_sortition_id s" "sn_consensus_hash (f s) = sn_consensus_hash s" "sn_block_height (f s) = sn_block_height s"
    "sn_parent_burn_header_hash (f s) = sn_parent_burn_header_hash s" "sn_burn_header_hash (f s) = sn_burn_header_hash s" for s
    using f(1) [of s] by (simp_all add: same_core_def)
  have "stored_chain db' (map f rows)"
    using rows(2) by (auto simp: stored_chain_def f core comp_def last_map hd_map)
  then have "rows' = map f rows"
    by (rule chain_unique [OF assms(2) _ inv_updates [OF assms(3,1)]]) (simp add: s(2) rows(1) last_map ne)
  with rows(2) f(1) show ?thesis by blast
qed

section \<open>Every fork stays consistent\<close>

text \<open>On a fork the winning Stacks blocks are distinct, and so are the registered keys.\<close>

definition fork_keys :: "SortitionHandleTx \<Rightarrow> BlockSnapshot list \<Rightarrow> bytes list" where
  "fork_keys db rows = map (lk_public_key \<circ> fst) (filter (\<lambda>x. snd x \<in> sn_sortition_id ` set rows) (leader_keys db))"

definition fork_winners :: "BlockSnapshot list \<Rightarrow> bytes list" where
  "fork_winners rows = map sn_winning_stacks_block_hash (filter sn_sortition rows)"

definition forks_consistent :: "SortitionHandleTx \<Rightarrow> bool" where
  "forks_consistent db \<longleftrightarrow> (\<forall>rows. stored_chain db rows \<longrightarrow> distinct (fork_winners rows) \<and> distinct (fork_keys db rows))"

text \<open>The winning commit of every snapshot after the first is stored once, and points to an earlier block.\<close>

definition commit_ids :: "SortitionHandleTx \<Rightarrow> (bytes \<times> bytes) list" where
  "commit_ids db = map (\<lambda>(c, sid). (bc_txid c, sid)) (block_commits db)"

definition winners_stored :: "SortitionHandleTx \<Rightarrow> bool" where
  "winners_stored db \<longleftrightarrow> distinct (commit_ids db) \<and> (\<forall>s \<in> set (snapshots db). sn_sortition s \<longrightarrow> \<not> is_initial s \<longrightarrow>
     (\<exists>c. (c, sn_sortition_id s) \<in> set (block_commits db) \<and> bc_txid c = sn_winning_block_txid s \<and>
        bc_block_header_hash c = sn_winning_stacks_block_hash s \<and> unat (bc_parent_block_ptr c) < unat (sn_block_height s)))"

lemma consistent_updates:
  assumes "forks_consistent db" and up: "updates_rows db db'" and inv: "sort_inv db"
  shows "forks_consistent db'"
  unfolding forks_consistent_def
proof (intro allI impI)
  fix rows' assume "stored_chain db' rows'"
  from chains_after_update [OF up this inv] obtain f rows where f: "rows' = map f rows" "stored_chain db rows" "\<And>s. same_core (f s) s" by blast
  have core: "sn_sortition_id (f s) = sn_sortition_id s" "sn_sortition (f s) = sn_sortition s"
    "sn_winning_stacks_block_hash (f s) = sn_winning_stacks_block_hash s" for s
    using f(3) [of s] by (simp_all add: same_core_def)
  have "fork_winners rows' = fork_winners rows" by (simp add: fork_winners_def f(1) filter_map comp_def core)
  moreover have "fork_keys db' rows' = fork_keys db rows"
    using up by (simp add: fork_keys_def f(1) updates_rows_def image_image core)
  ultimately show "distinct (fork_winners rows') \<and> distinct (fork_keys db' rows')"
    using assms(1) f(2) by (simp add: forks_consistent_def)
qed

lemma winners_updates:
  assumes "winners_stored db" and "updates_rows db db'"
  shows "winners_stored db'"
proof -
  from assms(2) obtain f where f: "\<And>s. same_core (f s) s" "snapshots db' = map f (snapshots db)" "block_commits db' = block_commits db"
    unfolding updates_rows_def by blast
  have core: "sn_sortition_id (f s) = sn_sortition_id s" "sn_sortition (f s) = sn_sortition s" "is_initial (f s) = is_initial s"
    "sn_winning_stacks_block_hash (f s) = sn_winning_stacks_block_hash s" "sn_winning_block_txid (f s) = sn_winning_block_txid s"
    "sn_block_height (f s) = sn_block_height s" for s
    using f(1) [of s] by (simp_all add: same_core_def is_initial_def)
  show ?thesis using assms(1) by (auto simp: winners_stored_def commit_ids_def f core)
qed

section \<open>What the checks guarantee\<close>

lemma key_checked:
  assumes h: "handle_on tx rows" and "check_transaction X tx burnchain (LeaderKeyRegister k) recip = Some (Ok ())"
  shows "lk_public_key k \<notin> registered tx rows"
  using assms(2) fork_keys_eq(2) [OF h, of "lk_public_key k"]
  by (auto simp: check_transaction_def key_check_def and_then_Ok_iff split: if_splits)

lemma commit_checked_rest:
  assumes "check_transaction X tx burnchain (LeaderBlockCommit c) recip = Some (Ok ())"
  shows "commit_check_rest X tx c = Ok ()" and "commit_check_outs tx c recip = Some (Ok ())" and "bc_burn_fee c \<noteq> 0"
  using assms by (auto simp: check_transaction_def commit_check_def run_then_Ok_iff split: if_splits)

lemma row_at_le:
  assumes "stored_chain db rows" and "row_at db rows h \<noteq> None"
  shows "unat h \<le> unat (sn_block_height (last rows))"
proof -
  have ne: "rows \<noteq> []" using assms(1) by (simp add: stored_chain_def)
  then have "unat (sn_block_height (rows ! (length rows - 1))) = unat (first_block_height db) + (length rows - 1)"
    using assms(1) by (simp add: stored_chain_def)
  then show ?thesis using assms(2) ne by (auto simp: row_at_def height_index_def last_conv_nth split: if_splits)
qed

lemma commit_checked:
  assumes h: "handle_on tx rows" and ok: "check_transaction X tx burnchain (LeaderBlockCommit c) recip = Some (Ok ())"
  shows "\<not> (\<exists>r \<in> set rows. sn_sortition r \<and> sn_winning_stacks_block_hash r = bc_block_header_hash c)"
    and "unat (bc_parent_block_ptr c) \<le> unat (sn_block_height (last rows))"
proof -
  note rest = commit_checked_rest(1) [OF ok]
  have inv: "sort_inv tx" "stored_chain tx rows" "chain_tip tx = sn_sortition_id (last rows)" using h by (simp_all add: handle_on_def)
  from rest obtain used where "expects_stacks_block_in_fork tx (bc_block_header_hash c) = Ok used" "\<not> used"
    by (auto simp: commit_check_rest_def and_then_Ok_iff split: if_splits)
  with fork_keys_eq(1) [OF h, of "bc_block_header_hash c"]
  show "\<not> (\<exists>r \<in> set rows. sn_sortition r \<and> sn_winning_stacks_block_hash r = bc_block_header_hash c)" by simp
  let ?p = "ucast (bc_parent_block_ptr c) :: u64"
  have u: "unat ?p = unat (bc_parent_block_ptr c)" by (rule unat_cycle_length)
  have lt: "unat ?p < 2 ^ 32" using u unsigned_less [of "bc_parent_block_ptr c", where 'a = nat] by simp
  consider "bc_parent_block_ptr c = 0" | parent where "get_block_commit_parent tx ?p (ucast (bc_parent_vtxindex c)) (chain_tip tx) = Ok (Some parent)"
    using rest by (auto simp: commit_check_rest_def and_then_Ok_iff split: if_splits)
  then show "unat (bc_parent_block_ptr c) \<le> unat (sn_block_height (last rows))"
  proof cases
    case 2
    have "get_ancestor_sort_id tx ?p (chain_tip tx) = Ok (map_option sn_sortition_id (row_at tx rows ?p))"
      using ancestor_sort_id [OF inv(1,2), of ?p] lt inv(3) by simp
    with 2 have "row_at tx rows ?p \<noteq> None" by (auto simp: get_block_commit_parent_def and_then_Ok_iff split: option.splits)
    from row_at_le [OF inv(2) this] show ?thesis by (simp add: u)
  qed simp
qed

section \<open>An evaluated sortition keeps its fork consistent\<close>

lemma key_rows_keys: "map (lk_public_key \<circ> fst) (key_rows ops sid) = op_keys ops"
  by (induction ops) (auto simp: key_rows_def op_keys_def split: BlockstackOperationType.split)

lemma commit_rows_in: "(c, sid) \<in> set (commit_rows ops sid) \<longleftrightarrow> LeaderBlockCommit c \<in> set ops"
  by (auto simp: commit_rows_def split: BlockstackOperationType.splits)

lemma stored_commit_ids:
  assumes "fold_res (\<lambda>op tx. store_burnchain_transaction tx op sid) ops tx = Ok tx'" and "distinct (commit_ids tx)"
  shows "distinct (commit_ids tx')"
  using assms
proof (induction ops arbitrary: tx)
  case (Cons op ops)
  then obtain tx1 where tx1: "store_burnchain_transaction tx op sid = Ok tx1"
    "fold_res (\<lambda>op tx. store_burnchain_transaction tx op sid) ops tx1 = Ok tx'" by (auto simp: and_then_Ok_iff)
  have "distinct (commit_ids tx1)" using tx1(1) Cons.prems(2)
    by (cases op) (auto simp: commit_ids_def insert_leader_key_def insert_block_commit_def insert_user_burn_def and_then_Ok_iff split: if_splits)
  then show ?case by (rule Cons.IH [OF tx1(2)])
qed simp

lemma appended_commit_ids:
  assumes "append_chain_tip_snapshot root tx parent sn ops info recip = Ok (r, tx1)" and "handle_commit tx1 = Ok db'"
    and "distinct (commit_ids tx)"
  shows "distinct (commit_ids db')"
proof -
  from assms(1) obtain tx2 tx3 sn' parent' where o: "index_add_fork_info root tx parent sn ops info recip = Ok (r, tx2, parent')"
      "insert_block_snapshot tx2 sn' = Ok tx3"
      "fold_res (\<lambda>op tx. store_burnchain_transaction tx op (sn_sortition_id sn)) ops tx3 = Ok tx1"
    by (auto simp: append_chain_tip_snapshot_def and_then_Ok_iff Let_def split: prod.splits)
  have "block_commits tx2 = block_commits tx"
    using o(1) by (auto simp: index_add_fork_info_def and_then_Ok_iff Let_def split: prod.splits)
  then have "distinct (commit_ids tx3)" using insert_snapshot_rows [OF o(2)] assms(3) by (auto simp: commit_ids_def)
  from stored_commit_ids [OF o(3) this] assms(2) show ?thesis by (auto simp: handle_commit_def and_then_Ok_iff commit_ids_def)
qed

lemma fork_keys_set: "set (fork_keys db rows) = registered db rows"
  by (force simp: fork_keys_def registered_def)

lemma fork_keys_extend:
  assumes keys: "leader_keys db' = leader_keys db @ key_rows ops (sn_sortition_id sn')"
    and old: "snd ` set (leader_keys db) \<subseteq> ids" and new: "sn_sortition_id sn' \<notin> ids"
  shows "fork_keys db' (rows @ [sn']) = fork_keys db rows @ op_keys ops"
    and "sn_sortition_id sn' \<notin> sn_sortition_id ` set rows \<Longrightarrow> fork_keys db' rows = fork_keys db rows"
proof -
  have new_rows: "snd x = sn_sortition_id sn'" if "x \<in> set (key_rows ops (sn_sortition_id sn'))" for x
    using key_rows_snd [of "fst x" "snd x" ops "sn_sortition_id sn'"] that by simp
  have "filter (\<lambda>x. snd x \<in> sn_sortition_id ` set (rows @ [sn'])) (leader_keys db) = filter (\<lambda>x. snd x \<in> sn_sortition_id ` set rows) (leader_keys db)"
    using old new by (intro filter_cong) auto
  moreover have "filter (\<lambda>x. snd x \<in> sn_sortition_id ` set (rows @ [sn'])) (key_rows ops (sn_sortition_id sn')) = key_rows ops (sn_sortition_id sn')"
    using new_rows by (intro filter_True) auto
  ultimately show "fork_keys db' (rows @ [sn']) = fork_keys db rows @ op_keys ops"
    unfolding fork_keys_def keys filter_append map_append by (simp only: key_rows_keys)
  show "fork_keys db' rows = fork_keys db rows" if "sn_sortition_id sn' \<notin> sn_sortition_id ` set rows"
  proof -
    have "filter (\<lambda>x. snd x \<in> sn_sortition_id ` set rows) (key_rows ops (sn_sortition_id sn')) = []"
      using new_rows that by (auto simp: filter_empty_conv)
    then show ?thesis by (simp add: fork_keys_def keys)
  qed
qed

text \<open>The facts about an evaluation that the consistency of its fork rests on.\<close>

lemma evaluate_append:
  assumes inv: "sort_inv db" and ok: "evaluate_sortition X root gen_range db header ops burnchain from_tip info = Some (Ok ((sn, tr), db'))"
    and n: "sn_sortition_id sn \<noteq> SENTINEL_ARRAY"
  shows "\<exists>parent rows sn' db1. handle_on (db\<lparr>chain_tip := sn_sortition_id parent\<rparr>) rows \<and> last rows = parent \<and> stored_chain db rows \<and>
    same_core sn' sn \<and> follows parent header (sn_sortition_id sn) sn \<and> drawn_from (tr_burn_dist tr) parent sn \<and>
    snapshots db1 = snapshots db @ [sn'] \<and> leader_keys db1 = leader_keys db @ key_rows (tr_accepted_ops tr) (sn_sortition_id sn') \<and>
    block_commits db1 = block_commits db @ commit_rows (tr_accepted_ops tr) (sn_sortition_id sn') \<and>
    sn_sortition_id sn' \<notin> sn_sortition_id ` set (snapshots db) \<and>
    (\<forall>rows'. stored_chain db1 rows' \<longrightarrow> rows' = rows @ [sn'] \<or> stored_chain db rows') \<and>
    sort_inv db1 \<and> (distinct (commit_ids db) \<longrightarrow> distinct (commit_ids db1)) \<and> store_transition_ops db1 (sn_sortition_id sn) tr = Ok db' \<and>
    distinct (op_keys (tr_accepted_ops tr)) \<and>
    (\<forall>k. LeaderKeyRegister k \<in> set (tr_accepted_ops tr) \<longrightarrow> lk_public_key k \<notin> registered db rows) \<and>
    (\<forall>s \<in> set (tr_burn_dist tr). LeaderBlockCommit (candidate s) \<in> set (tr_accepted_ops tr)) \<and>
    (\<forall>c. LeaderBlockCommit c \<in> set (tr_accepted_ops tr) \<longrightarrow> bc_block_header_hash c \<notin> set (fork_winners rows) \<and>
       unat (bc_parent_block_ptr c) \<le> unat (sn_block_height parent))"
proof -
  from evaluate_parts [OF inv ok] obtain parent pox recip tx db1 checked snap r where
    p: "parent \<in> set (snapshots db)" "check_block_ops X (db\<lparr>chain_tip := sn_sortition_id parent\<rparr>) burnchain (sort_key op_vtxindex ops) recip = Some (Ok checked)"
    "from_block_ops X (db\<lparr>chain_tip := sn_sortition_id parent\<rparr>) parent checked = Ok tr"
    "make_snapshot X (db\<lparr>chain_tip := sn_sortition_id parent\<rparr>) burnchain (SortitionId_new X (hdr_block_hash header) (next_pox_id pox info))
      (next_pox_id pox info) parent header (tr_burn_dist tr) (map op_txid (tr_accepted_ops tr)) = Ok snap"
    "append_chain_tip_snapshot root (db\<lparr>chain_tip := sn_sortition_id parent\<rparr>) parent snap (tr_accepted_ops tr) info recip = Ok (r, tx)"
    "handle_commit tx = Ok db1" "store_transition_ops db1 (sn_sortition_id snap) tr = Ok db'" "sn = snap\<lparr>sn_index_root := r\<rparr>" by blast
  have n': "sn_sortition_id snap \<noteq> SENTINEL_ARRAY" using n p(8) by simp
  from chains_after_append [OF inv p(1) n' p(5,6)] obtain sn' rows where c: "same_core sn' snap" "snapshots db1 = snapshots db @ [sn']"
    "last rows = parent" "stored_chain db rows" "\<forall>rows'. stored_chain db1 rows' \<longrightarrow> rows' = rows @ [sn'] \<or> stored_chain db rows'" by blast
  have h: "handle_on (db\<lparr>chain_tip := sn_sortition_id parent\<rparr>) rows" using chain_handle [OF inv c(4)] c(3) by simp
  have id: "sn_sortition_id sn' = sn_sortition_id snap" using c(1) by (simp add: same_core_def)
  from append_result [OF p(5,6)] have rows: "leader_keys db1 = leader_keys db @ key_rows (tr_accepted_ops tr) (sn_sortition_id sn')"
    "block_commits db1 = block_commits db @ commit_rows (tr_accepted_ops tr) (sn_sortition_id sn')"
    "sn_sortition_id sn' \<notin> sn_sortition_id ` set (snapshots db)" unfolding id by auto
  note acc = accepted_ops [OF p(3)] and chk = checked_ops [OF p(2)]
  have checked: "check_transaction X (db\<lparr>chain_tip := sn_sortition_id parent\<rparr>) burnchain op recip = Some (Ok ())" if "op \<in> set (tr_accepted_ops tr)" for op
    using that acc(1) chk(3) by blast
  have "distinct (op_keys (tr_accepted_ops tr))" using acc(2) chk(2) by (metis mset_eq_imp_distinct_iff)
  moreover have "lk_public_key k \<notin> registered db rows" if "LeaderKeyRegister k \<in> set (tr_accepted_ops tr)" for k
    using key_checked [OF h checked [OF that]] by simp
  moreover have "bc_block_header_hash c \<notin> set (fork_winners rows) \<and> unat (bc_parent_block_ptr c) \<le> unat (sn_block_height parent)"
    if "LeaderBlockCommit c \<in> set (tr_accepted_ops tr)" for c
    using commit_checked [OF h checked [OF that]] \<open>last rows = parent\<close> by (force simp: fork_winners_def)
  moreover have "follows parent header (sn_sortition_id sn) sn" "drawn_from (tr_burn_dist tr) parent sn" "same_core sn' sn"
    using make_snapshot_Ok [OF p(4)] c(1) by (auto simp: p(8) follows_def drawn_from_def same_core_def)
  moreover have "sort_inv db1" by (rule inv_append(1) [OF inv p(1) n' p(5,6)])
  moreover have "distinct (commit_ids db) \<longrightarrow> distinct (commit_ids db1)" using appended_commit_ids [OF p(5,6)] by (simp add: commit_ids_def)
  moreover have "store_transition_ops db1 (sn_sortition_id sn) tr = Ok db'" using p(7,8) by simp
  ultimately show ?thesis using h c rows acc(3)
    by (intro exI [of _ parent] exI [of _ rows] exI [of _ sn'] exI [of _ db1] conjI) blast+
qed

lemma height_Suc: "h < BLOCK_HEIGHT_MAX \<Longrightarrow> h + 1 = h' \<Longrightarrow> unat h' = unat h + 1"
  by (auto simp: BLOCK_HEIGHT_MAX_def word_less_nat_alt unat_word_ariths)

lemma consistent_evaluate:
  assumes inv: "sort_inv db" and ok: "evaluate_sortition X root gen_range db header ops burnchain from_tip info = Some (Ok ((sn, tr), db'))"
    and n: "sn_sortition_id sn \<noteq> SENTINEL_ARRAY" and con: "forks_consistent db" "winners_stored db"
  shows "forks_consistent db'" and "winners_stored db'"
proof -
  from evaluate_append [OF inv ok n] obtain parent rows sn' db1 where e: "last rows = parent" "stored_chain db rows" "same_core sn' sn"
    "follows parent header (sn_sortition_id sn) sn" "drawn_from (tr_burn_dist tr) parent sn"
    "snapshots db1 = snapshots db @ [sn']" "leader_keys db1 = leader_keys db @ key_rows (tr_accepted_ops tr) (sn_sortition_id sn')"
    "block_commits db1 = block_commits db @ commit_rows (tr_accepted_ops tr) (sn_sortition_id sn')"
    "sn_sortition_id sn' \<notin> sn_sortition_id ` set (snapshots db)"
    "\<forall>rows'. stored_chain db1 rows' \<longrightarrow> rows' = rows @ [sn'] \<or> stored_chain db rows'"
    "sort_inv db1" "store_transition_ops db1 (sn_sortition_id sn) tr = Ok db'" "distinct (op_keys (tr_accepted_ops tr))"
    "\<forall>k. LeaderKeyRegister k \<in> set (tr_accepted_ops tr) \<longrightarrow> lk_public_key k \<notin> registered db rows"
    "\<forall>s \<in> set (tr_burn_dist tr). LeaderBlockCommit (candidate s) \<in> set (tr_accepted_ops tr)"
    "\<forall>c. LeaderBlockCommit c \<in> set (tr_accepted_ops tr) \<longrightarrow> bc_block_header_hash c \<notin> set (fork_winners rows) \<and>
       unat (bc_parent_block_ptr c) \<le> unat (sn_block_height parent)" "distinct (commit_ids db) \<longrightarrow> distinct (commit_ids db1)" by blast
  have old: "snd ` set (leader_keys db) \<subseteq> sn_sortition_id ` set (snapshots db)" using inv by (simp add: sort_inv_def)
  note ext = fork_keys_extend [OF e(7) old e(9)]
  have core: "sn_sortition sn' = sn_sortition sn" "sn_winning_stacks_block_hash sn' = sn_winning_stacks_block_hash sn"
    "sn_winning_block_txid sn' = sn_winning_block_txid sn" "sn_block_height sn' = sn_block_height sn" using e(3) by (simp_all add: same_core_def)
  have win: "\<exists>c. LeaderBlockCommit c \<in> set (tr_accepted_ops tr) \<and> bc_txid c = sn_winning_block_txid sn' \<and> bc_block_header_hash c = sn_winning_stacks_block_hash sn'"
    if "sn_sortition sn'" using e(5,15) that by (auto simp: drawn_from_def core)
  then have "sn_winning_stacks_block_hash sn' \<notin> set (fork_winners rows)" if "sn_sortition sn'" using that e(16) by metis
  then have "distinct (fork_winners (rows @ [sn'])) \<and> distinct (fork_keys db1 (rows @ [sn']))"
    using con(1) e(2,13,14) by (auto simp: forks_consistent_def fork_winners_def ext(1) fork_keys_set op_keys_in)
  moreover have "fork_keys db1 rows' = fork_keys db rows'" if "stored_chain db rows'" for rows'
    using that e(9) by (intro ext(2)) (auto simp: stored_chain_def)
  ultimately have "forks_consistent db1" using con(1) e(10) by (auto simp: forks_consistent_def)
  then show "forks_consistent db'" by (rule consistent_updates [OF _ transition_updates [OF e(12)] e(11)])
  have "rows \<noteq> []" using e(2) by (simp add: stored_chain_def)
  then have "sn_block_height parent < BLOCK_HEIGHT_MAX" using e(1,2) by (auto simp: stored_chain_def last_conv_nth)
  then have "unat (sn_block_height sn') = unat (sn_block_height parent) + 1"
    using e(4) by (intro height_Suc) (simp_all add: follows_def core)
  then have "\<exists>c. (c, sn_sortition_id sn') \<in> set (block_commits db1) \<and> bc_txid c = sn_winning_block_txid sn' \<and>
    bc_block_header_hash c = sn_winning_stacks_block_hash sn' \<and> unat (bc_parent_block_ptr c) < unat (sn_block_height sn')" if "sn_sortition sn'"
    using win [OF that] e(16) by (force simp: e(8) commit_rows_in)
  then have "winners_stored db1" using con(2) e(17) by (fastforce simp: winners_stored_def e(6,8))
  then show "winners_stored db'" by (rule winners_updates [OF _ transition_updates [OF e(12)]])
qed

section \<open>The pipeline\<close>

text \<open>The databases a node builds: the fresh one, and what evaluating sortitions, accepting Stacks blocks
  and invalidating descendants make of it.\<close>

inductive pipeline :: "externals \<Rightarrow> ((db_key, db_value) TrieStorage \<Rightarrow> bytes) \<Rightarrow> SortitionHandleTx \<Rightarrow> bool" for X root where
  pipeline_new: "first_burn_hash \<noteq> SENTINEL_ARRAY \<Longrightarrow> SortitionId_stubbed X first_burn_hash \<noteq> SENTINEL_ARRAY \<Longrightarrow>
    instantiate X root first_height first_burn_hash time = Ok db \<Longrightarrow> pipeline X root db"
| pipeline_evaluate: "pipeline X root db \<Longrightarrow>
    evaluate_sortition X root gen_range db header ops burnchain from_tip info = Some (Ok ((sn, tr), db')) \<Longrightarrow>
    sn_sortition_id sn \<noteq> SENTINEL_ARRAY \<Longrightarrow> pipeline X root db'"
| pipeline_accept: "pipeline X root db \<Longrightarrow> set_stacks_block_accepted (db\<lparr>chain_tip := tip\<rparr>) ch parent_bhh bhh height = Ok db' \<Longrightarrow> pipeline X root db'"
| pipeline_invalidate: "pipeline X root db \<Longrightarrow> invalidate_descendants_of db burn_block = Some db' \<Longrightarrow> pipeline X root db'"

lemma pipeline_reachable: "pipeline X root db \<Longrightarrow> sortition_reachable X root db"
  by (induction rule: pipeline.induct) (auto intro: reach_new evaluate_reachable reach_next step_accept step_invalidate)

lemma instantiate_commits:
  assumes "instantiate X root first_height first_burn_hash time = Ok db"
  shows "block_commits db = [] \<and> leader_keys db = [] \<and> fst ` set (snapshot_transition_ops db) = {SortitionId_stubbed X first_burn_hash}"
  using assms
  by (auto simp: instantiate_def index_add_fork_info_def empty_sortition_db_def snapshot_initial_def store_transition_ops_def handle_commit_def
      and_then_Ok_iff Let_def dest!: insert_snapshot_rows split: prod.splits if_splits)

lemma only_row: "distinct rows \<Longrightarrow> set rows \<subseteq> {s} \<Longrightarrow> rows = [] \<or> rows = [s]"
  by (cases rows; cases "tl rows") auto

lemma pipeline_consistent: "pipeline X root db \<Longrightarrow> forks_consistent db \<and> winners_stored db"
proof (induction rule: pipeline.induct)
  case (pipeline_new first_burn_hash first_height time db)
  from inv_new(2) [OF pipeline_new] obtain s where s: "snapshots db = [s]" "is_initial s"
    by (auto simp: is_initial_def snapshot_initial_def)
  note none = instantiate_commits [OF pipeline_new(3)]
  have "distinct (fork_winners rows)" if c: "stored_chain db rows" for rows
  proof -
    have "distinct rows" by (rule chain_distinct(1) [OF inv_new(1) [OF pipeline_new] c])
    moreover have "set rows \<subseteq> {s}" using c s(1) by (simp add: stored_chain_def)
    ultimately show ?thesis by (auto simp: fork_winners_def dest: only_row)
  qed
  then show ?case using none s by (simp add: forks_consistent_def winners_stored_def commit_ids_def fork_keys_def)
next
  case (pipeline_evaluate db gen_range header ops burnchain from_tip info sn tr db')
  note inv = reachable_sort_inv [OF pipeline_reachable [OF pipeline_evaluate(1)]]
  show ?case using consistent_evaluate [OF inv pipeline_evaluate(2,3)] pipeline_evaluate.IH by blast
next
  case (pipeline_accept db tip ch parent_bhh bhh height db')
  note inv = reachable_sort_inv [OF pipeline_reachable [OF pipeline_accept(1)]]
  have "updates_rows (db\<lparr>chain_tip := tip\<rparr>) db'"
    using pipeline_accept(2) by (auto simp: set_stacks_block_accepted_def and_then_Ok_iff intro: accepted_updates)
  with handle_updates have "updates_rows db db'" by (rule updates_rows_trans)
  with pipeline_accept.IH inv show ?case by (auto intro: consistent_updates winners_updates)
next
  case (pipeline_invalidate db burn_block db')
  note inv = reachable_sort_inv [OF pipeline_reachable [OF pipeline_invalidate(1)]]
  with invalidate_updates [OF pipeline_invalidate(2)] pipeline_invalidate.IH show ?case by (auto intro: consistent_updates winners_updates)
qed

section \<open>A block without operations is always evaluated\<close>

lemma quiet_block:
  assumes "sn_block_height parent + 1 = hdr_block_height header" "sn_burn_header_hash parent = hdr_parent_block_hash header"
    and "get_prev_consensus_hashes (get_consensus_at tx) (hdr_block_height header - 1) (bch_first_block_height burnchain) = Ok prev"
    and "sid = SortitionId_new X (hdr_block_hash header) (next_pox_id pox info)"
    and "ch = from_ops X (hdr_block_hash header) (from_txids X []) (sn_total_burn parent) prev (next_pox_id pox info)"
  shows "\<exists>sn tr. follows parent header sid sn \<and> \<not> sn_sortition sn \<and> sn_consensus_hash sn = ch \<and> sn_burn_header_timestamp sn = hdr_timestamp header \<and>
    sn_sortition_hash sn = mix_burn_header X (sn_sortition_hash parent) (hdr_block_hash header) \<and> tr_accepted_ops tr = [] \<and>
    process_block_txs X root tx parent header burnchain [] info pox recip =
      Some (and_then (map_err BurnDBError (append_chain_tip_snapshot root tx parent sn [] info recip)) (\<lambda>(r, tx). Ok ((sn\<lparr>sn_index_root := r\<rparr>, tr), tx)))"
proof -
  define tr where "tr = \<lparr>tr_burn_dist = [], tr_accepted_ops = [], tr_consumed_leader_keys = []\<rparr>"
  have checked: "check_block_ops X tx burnchain [] recip = Some (Ok [])"
    by (simp add: check_block_ops_def ops_are_sorted_iff assert_that_def filter_block_VRF_dups_def filter_block_commits_with_same_VRF_key_def)
  have trans: "from_block_ops X tx parent [] = Ok tr"
    by (simp add: from_block_ops_def ops_are_sorted_iff assert_that_def op_commits_def op_burns_def get_consumed_leader_keys_def make_distribution_def tr_def)
  have "\<exists>sn. make_snapshot X tx burnchain sid (next_pox_id pox info) parent header [] [] = Ok sn \<and>
    \<not> sn_sortition sn \<and> sn_consensus_hash sn = ch \<and> sn_burn_header_timestamp sn = hdr_timestamp header \<and>
    sn_sortition_hash sn = mix_burn_header X (sn_sortition_hash parent) (hdr_block_hash header)"
    using assms by (simp add: make_snapshot_def assert_that_def make_snapshot_no_sortition_def from_parent_block_data_def Let_def)
  then obtain sn where sn: "make_snapshot X tx burnchain sid (next_pox_id pox info) parent header [] [] = Ok sn"
    "\<not> sn_sortition sn" "sn_consensus_hash sn = ch" "sn_burn_header_timestamp sn = hdr_timestamp header"
    "sn_sortition_hash sn = mix_burn_header X (sn_sortition_hash parent) (hdr_block_hash header)" by blast
  have "process_block_txs X root tx parent header burnchain [] info pox recip =
      Some (and_then (map_err BurnDBError (append_chain_tip_snapshot root tx parent sn [] info recip)) (\<lambda>(r, tx). Ok ((sn\<lparr>sn_index_root := r\<rparr>, tr), tx)))"
    using assms(1,2) sn(1) by (simp add: process_block_txs_def process_block_ops_def checked process_checked_block_ops_def trans assms(4) [symmetric])
      (simp add: tr_def)
  with sn make_snapshot_Ok [OF sn(1)] show ?thesis by (intro exI [of _ sn] exI [of _ tr]) (simp add: tr_def)
qed

lemma appended_transitions:
  assumes "append_chain_tip_snapshot root tx parent sn ops info recip = Ok (r, tx')"
  shows "snapshot_transition_ops tx' = snapshot_transition_ops tx"
proof -
  have stored: "snapshot_transition_ops t' = snapshot_transition_ops t"
    if "fold_res (\<lambda>op tx. store_burnchain_transaction tx op sid) ops t = Ok t'" for ops sid t t'
    using that
  proof (induction ops arbitrary: t)
    case (Cons op ops)
    then show ?case by (cases op) (fastforce simp: insert_leader_key_def insert_block_commit_def insert_user_burn_def and_then_Ok_iff split: if_splits)+
  qed simp
  from assms obtain tx2 tx3 sn' parent' where o: "index_add_fork_info root tx parent sn ops info recip = Ok (r, tx2, parent')"
      "insert_block_snapshot tx2 sn' = Ok tx3"
      "fold_res (\<lambda>op tx. store_burnchain_transaction tx op (sn_sortition_id sn)) ops tx3 = Ok tx'"
    by (auto simp: append_chain_tip_snapshot_def and_then_Ok_iff Let_def split: prod.splits)
  have "snapshot_transition_ops tx2 = snapshot_transition_ops tx"
    using o(1) by (auto simp: index_add_fork_info_def and_then_Ok_iff Let_def split: prod.splits)
  then show ?thesis using stored [OF o(3)] insert_snapshot_rows [OF o(2)] by simp
qed

text \<open>What the start of an evaluation reads from the database.\<close>

lemma evaluate_parent:
  assumes inv: "sort_inv db" and c: "stored_chain db rows"
  defines "T \<equiv> db\<lparr>chain_tip := sn_sortition_id (last rows)\<rparr>"
  shows "get_sortition_id db (sn_burn_header_hash (last rows)) (sn_sortition_id (last rows)) = Ok (Some (sn_sortition_id (last rows)))"
    and "tx_get_block_snapshot T (sn_burn_header_hash (last rows)) (sn_sortition_id (last rows)) = Ok (Some (last rows))"
    and "\<exists>pox. get_pox_id T = Ok pox"
proof -
  have h: "handle_on T rows" unfolding T_def by (rule chain_handle [OF inv c])
  then have T: "sort_inv T" "stored_chain T rows" "chain_keys T rows" "chain_tip T = sn_sortition_id (last rows)" by (simp_all add: handle_on_def)
  then have ready: "index_ready (handle_index T)" by (simp add: sort_inv_def)
  have ne: "rows \<noteq> []" using c by (simp add: stored_chain_def)
  have find: "find (\<lambda>r. sn_burn_header_hash r = sn_burn_header_hash (last rows)) (rev rows) = Some (last rows)"
    using ne by (cases rows rule: rev_cases) auto
  show "tx_get_block_snapshot T (sn_burn_header_hash (last rows)) (sn_sortition_id (last rows)) = Ok (Some (last rows))"
    using snapshot_by_burn_hash [OF T(1-3)] find by simp
  have "view_at T (last rows) (SortitionIdForBhh (sn_burn_header_hash (last rows))) = Some (VHash (sn_sortition_id (last rows)))"
    using T(3) ne by (cases rows rule: rev_cases) (auto simp: chain_keys_def)
  then show "get_sortition_id db (sn_burn_header_hash (last rows)) (sn_sortition_id (last rows)) = Ok (Some (sn_sortition_id (last rows)))"
    using tx_get_view [OF ready, of "last rows" "SortitionIdForBhh (sn_burn_header_hash (last rows))"]
    by (simp add: get_sortition_id_def get_sortition_id_for_bhh_def T_def)
  obtain p where "view_at T (last rows) PoxIdentifier = Some (VPoxId p)" using T(3) by (auto simp: chain_keys_def)
  then have "get_pox_id T = Ok p" using tx_get_view [OF ready, of "last rows" PoxIdentifier] T(4) by (simp add: get_pox_id_def)
  then show "\<exists>pox. get_pox_id T = Ok pox" ..
qed

lemma evaluate_quiet:
  assumes r: "sortition_reachable X root db" and fits: "fits db" "no_pox_clash db rows" and c: "stored_chain db rows" "length rows < 2 ^ 32"
    and hdr: "hdr_parent_block_hash header = sn_burn_header_hash (last rows)" "sn_block_height (last rows) + 1 = hdr_block_height header"
      "hdr_block_height header < BLOCK_HEIGHT_MAX" "sn_num_sortitions (last rows) < BLOCK_HEIGHT_MAX" "unat (hdr_timestamp header) < 2 ^ 63"
    and prev: "get_prev_consensus_hashes (get_consensus_at (db\<lparr>chain_tip := sn_sortition_id (last rows)\<rparr>)) (hdr_block_height header - 1)
      (bch_first_block_height burnchain) = Ok prev"
    and ids: "\<And>pox. SortitionId_new X (hdr_block_hash header) (pox @ [True]) \<notin> {SENTINEL_ARRAY} \<union> sn_sortition_id ` set (snapshots db) \<union>
        sn_index_root ` set (snapshots db) \<union> fst ` set (snapshot_transition_ops db)"
      "\<And>pox. from_ops X (hdr_block_hash header) (from_txids X []) (sn_total_burn (last rows)) prev (pox @ [True]) \<notin> sn_consensus_hash ` set (snapshots db)"
      "mix_burn_header X (sn_sortition_hash (last rows)) (hdr_block_hash header) \<noteq> SortitionHash_initial"
  shows "\<exists>sn tr db' sn'. evaluate_sortition X cur_block gen_range db header [] burnchain (sn_sortition_id (last rows)) (Some NotSelected) =
    Some (Ok ((sn, tr), db')) \<and> sn_sortition_id sn \<noteq> SENTINEL_ARRAY \<and> snapshots db' = snapshots db @ [sn'] \<and> follows (last rows) header (sn_sortition_id sn) sn \<and> \<not> sn_sortition sn"
proof -
  note inv = reachable_sort_inv [OF r] and ainv = reachable_arrival_inv [OF r]
  let ?T = "db\<lparr>chain_tip := sn_sortition_id (last rows)\<rparr>" and ?p = "last rows"
  note par = evaluate_parent [OF inv c(1)]
  from par(3) obtain pox where pox: "get_pox_id ?T = Ok pox" by blast
  define sid where "sid = SortitionId_new X (hdr_block_hash header) (next_pox_id pox (Some NotSelected))"
  from quiet_block [OF hdr(2) hdr(1) [symmetric] prev sid_def refl, of cur_block None]
  obtain sn tr where sn: "follows ?p header sid sn" "\<not> sn_sortition sn" "sn_burn_header_timestamp sn = hdr_timestamp header"
    "sn_consensus_hash sn = from_ops X (hdr_block_hash header) (from_txids X []) (sn_total_burn ?p) prev (pox @ [True])"
    "sn_sortition_hash sn = mix_burn_header X (sn_sortition_hash ?p) (hdr_block_hash header)"
    "process_block_txs X cur_block ?T ?p header burnchain [] (Some NotSelected) pox None =
      Some (and_then (map_err BurnDBError (append_chain_tip_snapshot cur_block ?T ?p sn [] (Some NotSelected) None)) (\<lambda>(r, tx). Ok ((sn\<lparr>sn_index_root := r\<rparr>, tr), tx)))"
    unfolding next_pox_id_def extend_with_present_block_def by auto
  have id: "sn_sortition_id sn = sid" "sid = SortitionId_new X (hdr_block_hash header) (pox @ [True])"
    using sn(1) by (simp_all add: follows_def sid_def next_pox_id_def extend_with_present_block_def)
  have "\<exists>pe. pox_entries ?T ?p sn (Some NotSelected) None = Ok pe"
    using ids(3) sn(5) pox by (simp add: pox_entries_def is_initial_def new_cycle_entries_def reward_set_size_to_string_def)
  then obtain pe where pe: "pox_entries ?T ?p sn (Some NotSelected) None = Ok pe" ..
  have k: "chain_keys db rows" using chain_handle [OF inv c(1)] by (simp add: handle_on_def)
  have fresh: "sn_sortition_id sn \<noteq> SENTINEL_ARRAY" "sn_sortition_id sn \<notin> sn_sortition_id ` set (snapshots db)"
    "sn_consensus_hash sn \<notin> sn_consensus_hash ` set (snapshots db)" "sn_sortition_id sn \<notin> sn_index_root ` set (snapshots db)"
    "sid \<notin> fst ` set (snapshot_transition_ops db)"
    using ids(1) [of pox] ids(2) [of pox] unfolding id sn(4) by blast+
  have link: "sn_parent_burn_header_hash sn = sn_burn_header_hash ?p" "sn_block_height ?p + 1 = sn_block_height sn"
    "sn_num_sortitions sn = (if sn_sortition sn then sn_num_sortitions ?p + 1 else sn_num_sortitions ?p)" "sn_block_height sn < BLOCK_HEIGHT_MAX"
    "sn_num_sortitions sn < BLOCK_HEIGHT_MAX" "unat (sn_burn_header_timestamp sn) < 2 ^ 63" "unat (sn_stacks_block_height sn) < 2 ^ 63" "sn_arrival_index sn = 0"
    using sn(1-3) hdr(3-5) unfolding follows_def by (metis, metis, metis, metis, metis, metis, simp, metis)
  have "\<exists>tx db'. append_chain_tip_snapshot cur_block ?T ?p sn [] (Some NotSelected) None = Ok (sn_sortition_id sn, tx) \<and>
      handle_commit tx = Ok db' \<and> (\<exists>sn'. snapshots db' = snapshots db @ [sn'] \<and> sn_index_root sn' = sn_sortition_id sn)"
    by (rule append_Ok [OF inv ainv fits(1) refl c(1) k c(2) fits(2) fresh(1-4) link pe])
  then obtain tx db1 sn' where a: "append_chain_tip_snapshot cur_block ?T ?p sn [] (Some NotSelected) None = Ok (sn_sortition_id sn, tx)"
    "handle_commit tx = Ok db1" "snapshots db1 = snapshots db @ [sn']" by blast
  from appended_transitions [OF a(1)] have "snapshot_transition_ops tx = snapshot_transition_ops db" by simp
  with fresh(5) have free: "sid \<notin> fst ` set (snapshot_transition_ops tx)" by simp
  from a(2) obtain idx where idx: "index_commit (handle_index tx) = Ok idx" "db1 = tx\<lparr>handle_index := idx\<rparr>" by (auto simp: handle_commit_def and_then_Ok_iff)
  obtain db' where "evaluate_sortition X cur_block gen_range db header [] burnchain (sn_sortition_id ?p) (Some NotSelected) =
      Some (Ok ((sn\<lparr>sn_index_root := sn_sortition_id sn\<rparr>, tr), db'))" "snapshots db' = snapshots db @ [sn']"
    using par(1,2) pox sn(6) a free idx
    by (simp add: evaluate_sortition_def hdr(1) pick_recipient_def store_transition_ops_def id handle_commit_def)
  moreover have "follows ?p header sid (sn\<lparr>sn_index_root := sn_sortition_id sn\<rparr>)" "sid \<noteq> SENTINEL_ARRAY"
    using sn(1) fresh(1) id(1) hdr(1) by (auto simp: follows_def)
  ultimately show ?thesis using id sn(2) by force
qed

text \<open>An example: a fresh database, and the block after the first one.\<close>

definition plain_externals :: externals where
  "plain_externals = example_externals\<lparr>sha256 := (\<lambda>_. replicate 32 7), sha512_256 := (\<lambda>_. replicate 32 7), ripemd160 := (\<lambda>_. replicate 20 7)\<rparr>"

definition next_header :: BurnchainBlockHeader where
  "next_header = \<lparr>hdr_block_height = 1, hdr_block_hash = example_block 2, hdr_parent_block_hash = example_block 1, hdr_num_txs = 0, hdr_timestamp = 0\<rparr>"

definition example_burnchain :: Burnchain where
  "example_burnchain = \<lparr>bch_peer_version = 0, bch_network_id = 0, bch_chain_name = ''bitcoin'', bch_network_name = ''regtest'', bch_working_dir = [],
     consensus_hash_lifetime = 24, stable_confirmations = 1, bch_first_block_height = 0, bch_first_block_hash = example_block 1,
     pox_constants = \<lparr>reward_cycle_length = 120, prepare_length = 30, anchor_threshold = 20, pox_rejection_fraction = 3333333333333333\<rparr>\<rparr>"

lemma genesis_at:
  assumes "height < BLOCK_HEIGHT_MAX"
  obtains db f where "pipeline plain_externals cur_block db" and "snapshots db = [f]" and "stored_chain db [f]"
    and "f = snapshot_initial plain_externals height (example_block 1) 0\<lparr>sn_index_root := example_block 1\<rparr>"
    and "first_block_height db = height" and "fst ` set (snapshot_transition_ops db) = {example_block 1}"
proof -
  have e: "example_block 1 \<noteq> SENTINEL_ARRAY" by simp
  from instantiate_Ok [OF e assms, of 0 plain_externals] obtain db where ok: "instantiate plain_externals cur_block height (example_block 1) 0 = Ok db"
    and row: "snapshots db = [snapshot_initial plain_externals height (example_block 1) 0\<lparr>sn_index_root := example_block 1\<rparr>]"
    by auto
  have id: "SortitionId_stubbed plain_externals (example_block 1) = example_block 1" by (simp add: SortitionId_stubbed_def SortitionId_new_def)
  then have n: "SortitionId_stubbed plain_externals (example_block 1) \<noteq> SENTINEL_ARRAY" using e by simp
  note inv = inv_new(1) [OF e n ok]
  from inv row obtain rows where rows: "stored_chain db rows" unfolding sort_inv_def by fastforce
  have "distinct rows" "set rows \<subseteq> set (snapshots db)" "rows \<noteq> []" using chain_distinct(1) [OF inv rows] rows by (simp_all add: stored_chain_def)
  then have "rows = snapshots db" unfolding row by (auto dest: only_row)
  then show ?thesis
    using that [of db] pipeline_new [OF e n ok] rows row inv_new(3) [OF e n ok] instantiate_commits [OF ok] id by auto
qed

lemma zero_height: "0 < BLOCK_HEIGHT_MAX"
  by (simp add: BLOCK_HEIGHT_MAX_def)

lemmas example_genesis = genesis_at [OF zero_height]

lemma example_evaluated:
  obtains db sn tr db' a b where "pipeline plain_externals cur_block db" and "snapshots db' = [a, b]"
    and "evaluate_sortition plain_externals cur_block (\<lambda>_ _. 0) db next_header [] example_burnchain (example_block 1) (Some NotSelected) = Some (Ok ((sn, tr), db'))"
    and "sn_sortition_id sn \<noteq> SENTINEL_ARRAY"
proof -
  obtain db f where d: "pipeline plain_externals cur_block db" "snapshots db = [f]" "stored_chain db [f]"
    "f = snapshot_initial plain_externals 0 (example_block 1) 0\<lparr>sn_index_root := example_block 1\<rparr>"
    "first_block_height db = 0" "fst ` set (snapshot_transition_ops db) = {example_block 1}" by (rule example_genesis)
  have f: "sn_sortition_id f = example_block 1" "sn_burn_header_hash f = example_block 1" "sn_block_height f = 0" "sn_num_sortitions f = 0"
    "sn_stacks_block_height f = 0" "sn_canonical_stacks_tip_height f = 0" "\<not> sn_stacks_block_accepted f" "sn_index_root f = example_block 1"
    "sn_consensus_hash f = replicate 20 0" "sn_total_burn f = 0"
    by (simp_all add: d(4) snapshot_initial_def SortitionId_stubbed_def SortitionId_new_def FIRST_BURNCHAIN_CONSENSUS_HASH_def)
  let ?T = "db\<lparr>chain_tip := sn_sortition_id (last [f])\<rparr>"
  note r = pipeline_reachable [OF d(1)]
  note inv = reachable_sort_inv [OF r]
  have h: "handle_on ?T [f]" by (rule chain_handle [OF inv d(3)])
  then have "get_ancestor_snapshot ?T 0 (sn_sortition_id (last [f])) = Ok (row_at ?T [f] 0)"
    by (intro ancestor_snapshot) (auto simp: handle_on_def BLOCK_HEIGHT_MAX_def)
  then have "get_consensus_at ?T 0 = Ok (map_option sn_consensus_hash (row_at ?T [f] 0))"
    by (simp add: get_consensus_at_def assert_that_def BLOCK_HEIGHT_MAX_def)
  then have "\<exists>prev. get_prev_consensus_hashes (get_consensus_at ?T) 0 0 = Ok prev"
    by (simp add: get_prev_consensus_hashes_def prev_consensus_loop.simps [of _ _ _ 0])
  then obtain prev where prev: "get_prev_consensus_hashes (get_consensus_at ?T) (hdr_block_height next_header - 1) (bch_first_block_height example_burnchain) = Ok prev"
    by (auto simp: next_header_def example_burnchain_def)
  have "\<exists>sn tr db' sn'. evaluate_sortition plain_externals cur_block (\<lambda>_ _. 0) db next_header [] example_burnchain (sn_sortition_id (last [f])) (Some NotSelected) =
    Some (Ok ((sn, tr), db')) \<and> sn_sortition_id sn \<noteq> SENTINEL_ARRAY \<and> snapshots db' = snapshots db @ [sn'] \<and> follows (last [f]) next_header (sn_sortition_id sn) sn \<and> \<not> sn_sortition sn"
    by (rule evaluate_quiet [OF r _ _ d(3) _ _ _ _ _ _ prev])
      (simp_all add: d(2,6) f fits_def no_pox_clash_def next_header_def BLOCK_HEIGHT_MAX_def SortitionId_new_def PoxId_stubbed_def plain_externals_def
        example_block_def from_ops_def mix_burn_header_def SortitionHash_initial_def SENTINEL_ARRAY_def)
  then show ?thesis using that d(1,2) f(1) by fastforce
qed

section \<open>The genesis row\<close>

definition genesis_stored :: "SortitionHandleTx \<Rightarrow> bool" where
  "genesis_stored db \<longleftrightarrow> (\<exists>s \<in> set (snapshots db). is_initial s \<and> sn_sortition s \<and> sn_consensus_hash s = ConsensusHash_empty)"

lemma genesis_updates: "genesis_stored db \<Longrightarrow> updates_rows db db' \<Longrightarrow> genesis_stored db'"
  unfolding genesis_stored_def updates_rows_def same_core_def is_initial_def by (metis image_eqI list.set_map)

lemma pipeline_genesis: "pipeline X root db \<Longrightarrow> genesis_stored db"
proof (induction rule: pipeline.induct)
  case (pipeline_new first_burn_hash first_height time db)
  from inv_new(2) [OF pipeline_new] show ?case
    by (auto simp: genesis_stored_def is_initial_def snapshot_initial_def FIRST_BURNCHAIN_CONSENSUS_HASH_def ConsensusHash_empty_def)
next
  case (pipeline_evaluate db gen_range header ops burnchain from_tip info sn tr db')
  from evaluate_append [OF reachable_sort_inv [OF pipeline_reachable [OF pipeline_evaluate(1)]] pipeline_evaluate(2,3)]
  obtain sn' db1 where "snapshots db1 = snapshots db @ [sn']" "store_transition_ops db1 (sn_sortition_id sn) tr = Ok db'" by blast
  with pipeline_evaluate.IH have "genesis_stored db1" by (auto simp: genesis_stored_def)
  then show ?case by (rule genesis_updates) (rule transition_updates, fact)
next
  case (pipeline_accept db tip ch parent_bhh bhh height db')
  then have "updates_rows (db\<lparr>chain_tip := tip\<rparr>) db'"
    by (auto simp: set_stacks_block_accepted_def and_then_Ok_iff intro: accepted_updates)
  with pipeline_accept.IH show ?case using updates_rows_trans [OF handle_updates] genesis_updates by blast
qed (blast intro: genesis_updates invalidate_updates)

lemma chain_genesis:
  assumes "pipeline X root db" and c: "stored_chain db rows"
  shows "is_initial (hd rows) \<and> sn_sortition (hd rows)"
proof -
  from pipeline_genesis [OF assms(1)] obtain s where s: "s \<in> set (snapshots db)" "is_initial s" "sn_sortition s" "sn_consensus_hash s = ConsensusHash_empty"
    by (auto simp: genesis_stored_def)
  have "hd rows \<in> set (snapshots db)" "sn_consensus_hash (hd rows) = ConsensusHash_empty" using c by (auto simp: stored_chain_def)
  moreover have "distinct (map sn_consensus_hash (snapshots db))"
    using reachable_sort_inv [OF pipeline_reachable [OF assms(1)]] by (simp add: sort_inv_def)
  ultimately have "hd rows = s" using s by (metis distinct_map inj_onD)
  with s show ?thesis by simp
qed

section \<open>The guarantees\<close>

lemma commit_found:
  assumes "winners_stored db" and "s \<in> set (snapshots db)" "sn_sortition s" "\<not> is_initial s"
  shows "\<exists>c. get_block_commit db (sn_winning_block_txid s) (sn_sortition_id s) = Ok (Some c) \<and> (c, sn_sortition_id s) \<in> set (block_commits db) \<and>
    bc_txid c = sn_winning_block_txid s \<and> bc_block_header_hash c = sn_winning_stacks_block_hash s"
proof -
  from assms obtain c where c: "(c, sn_sortition_id s) \<in> set (block_commits db)" "bc_txid c = sn_winning_block_txid s"
    "bc_block_header_hash c = sn_winning_stacks_block_hash s" unfolding winners_stored_def by blast
  let ?rows = "filter (\<lambda>(c, sid). bc_txid c = sn_winning_block_txid s \<and> sid = sn_sortition_id s) (block_commits db)"
  have "x = (c, sn_sortition_id s)" if "x \<in> set ?rows" for x
  proof -
    have "inj_on (\<lambda>(c, sid). (bc_txid c, sid)) (set (block_commits db))"
      using assms(1) by (simp add: winners_stored_def commit_ids_def distinct_map)
    from inj_onD [OF this, of x "(c, sn_sortition_id s)"] that c(1,2) show ?thesis by auto
  qed
  moreover have "(c, sn_sortition_id s) \<in> set ?rows" using c(1,2) by simp
  ultimately have "hd ?rows = (c, sn_sortition_id s)" "?rows \<noteq> []" by (metis empty_iff empty_set list.set_sel(1), metis empty_iff empty_set)
  then have "get_block_commit db (sn_winning_block_txid s) (sn_sortition_id s) = Ok (Some c)"
    by (auto simp: get_block_commit_def query_row_def neq_Nil_conv split: list.split)
  with c show ?thesis by blast
qed

lemma evaluate_extends:
  assumes inv: "sort_inv db" and ok: "evaluate_sortition X root gen_range db header ops burnchain from_tip info = Some (Ok ((sn, tr), db'))"
    and n: "sn_sortition_id sn \<noteq> SENTINEL_ARRAY"
  shows "\<exists>rows sn'. stored_chain db rows \<and> follows (last rows) header (sn_sortition_id sn) sn \<and> drawn_from (tr_burn_dist tr) (last rows) sn \<and>
    stored_chain db' (rows @ [sn']) \<and> same_core sn' sn \<and> set (tr_accepted_ops tr) \<subseteq> set ops"
proof -
  from evaluate_parts [OF inv ok] obtain parent pox recip tx db1 checked snap r where
    p: "parent \<in> set (snapshots db)" "check_block_ops X (db\<lparr>chain_tip := sn_sortition_id parent\<rparr>) burnchain (sort_key op_vtxindex ops) recip = Some (Ok checked)"
    "from_block_ops X (db\<lparr>chain_tip := sn_sortition_id parent\<rparr>) parent checked = Ok tr"
    "make_snapshot X (db\<lparr>chain_tip := sn_sortition_id parent\<rparr>) burnchain (SortitionId_new X (hdr_block_hash header) (next_pox_id pox info))
      (next_pox_id pox info) parent header (tr_burn_dist tr) (map op_txid (tr_accepted_ops tr)) = Ok snap"
    "append_chain_tip_snapshot root (db\<lparr>chain_tip := sn_sortition_id parent\<rparr>) parent snap (tr_accepted_ops tr) info recip = Ok (r, tx)"
    "handle_commit tx = Ok db1" "store_transition_ops db1 (sn_sortition_id snap) tr = Ok db'" "sn = snap\<lparr>sn_index_root := r\<rparr>" by blast
  have n': "sn_sortition_id snap \<noteq> SENTINEL_ARRAY" using n p(8) by simp
  from inv_append(2) [OF inv p(1) n' p(5,6)] obtain sn' where sn': "same_core sn' snap"
    "\<forall>rows. last rows = parent \<and> stored_chain db rows \<longrightarrow> stored_chain db1 (rows @ [sn'])" by blast
  from inv p(1) obtain rows where rows: "last rows = parent" "stored_chain db rows" unfolding sort_inv_def by blast
  have same: "snapshots db' = snapshots db1" "handle_index db' = handle_index db1" "first_block_height db' = first_block_height db1"
    using p(7) by (auto simp: store_transition_ops_def split: if_splits)
  have "stored_chain db1 (rows @ [sn'])" using sn'(2) rows by blast
  then have "stored_chain db' (rows @ [sn'])" unfolding stored_chain_def same .
  moreover have "follows parent header (sn_sortition_id sn) sn" "drawn_from (tr_burn_dist tr) parent sn" "same_core sn' sn"
    using make_snapshot_Ok [OF p(4)] sn'(1) by (auto simp: p(8) follows_def drawn_from_def same_core_def)
  moreover have "set (tr_accepted_ops tr) \<subseteq> set ops" using accepted_ops(1) [OF p(3)] checked_ops(3) [OF p(2)] by auto
  ultimately show ?thesis using rows by blast
qed

lemma example_chain:
  obtains db sn tr db' a b where "pipeline plain_externals cur_block db" and "pipeline plain_externals cur_block db'" and "stored_chain db' [a, b]"
    and "evaluate_sortition plain_externals cur_block (\<lambda>_ _. 0) db next_header [] example_burnchain (example_block 1) (Some NotSelected) = Some (Ok ((sn, tr), db'))"
    and "sn_sortition_id sn \<noteq> SENTINEL_ARRAY" and "sn_burn_header_hash a = example_block 1" and "sn_burn_header_hash b = example_block 2" and "sn_block_height b = 1"
proof -
  obtain db sn tr db' x y where e: "pipeline plain_externals cur_block db" "snapshots db' = [x, y]"
    "evaluate_sortition plain_externals cur_block (\<lambda>_ _. 0) db next_header [] example_burnchain (example_block 1) (Some NotSelected) = Some (Ok ((sn, tr), db'))"
    "sn_sortition_id sn \<noteq> SENTINEL_ARRAY" by (rule example_evaluated)
  have p': "pipeline plain_externals cur_block db'" by (rule pipeline_evaluate [OF e(1,3,4)])
  note inv = reachable_sort_inv [OF pipeline_reachable [OF e(1)]] and inv' = reachable_sort_inv [OF pipeline_reachable [OF p']]
  from evaluate_extends [OF inv e(3,4)] obtain rows b where r: "stored_chain db rows" "follows (last rows) next_header (sn_sortition_id sn) sn"
    "stored_chain db' (rows @ [b])" "same_core b sn" by blast
  have "distinct (rows @ [b])" "set (rows @ [b]) \<subseteq> {x, y}" "rows \<noteq> []"
    using chain_distinct(1) [OF inv' r(3)] r(1,3) e(2) by (simp_all add: stored_chain_def)
  then have "distinct rows" "set rows \<subseteq> {x, y} - {b}" "b \<in> {x, y}" by auto
  then have "\<exists>a. set rows \<subseteq> {a}" by blast
  then obtain a where "rows = [a]" using only_row [OF \<open>distinct rows\<close>] \<open>rows \<noteq> []\<close> by blast
  with that [OF e(1) p' _ e(3,4), of a b] r show ?thesis by (auto simp: follows_def same_core_def next_header_def)
qed

text \<open>C25. No fork is ever in conflict with itself: in every database the pipeline builds, whatever the
  operations, reorganisations and accepted blocks were, no Stacks block hash wins two sortitions of one
  fork, and no VRF key is registered twice on it.\<close>

theorem forks_never_conflict:
  assumes "pipeline X root db" and "stored_chain db rows"
  shows "distinct (fork_winners rows) \<and> distinct (fork_keys db rows)"
  using pipeline_consistent [OF assms(1)] assms(2) by (simp add: forks_consistent_def)

theorem forks_never_conflict_witness:
  "\<exists>db sn tr db' rows. evaluate_sortition plain_externals cur_block (\<lambda>_ _. 0) db next_header [] example_burnchain (example_block 1) (Some NotSelected) =
       Some (Ok ((sn, tr), db')) \<and> stored_chain db' rows \<and> length rows = 2 \<and> distinct (fork_winners rows) \<and> distinct (fork_keys db' rows)"
proof -
  obtain db sn tr db' a b where e: "pipeline plain_externals cur_block db'" "stored_chain db' [a, b]"
    "evaluate_sortition plain_externals cur_block (\<lambda>_ _. 0) db next_header [] example_burnchain (example_block 1) (Some NotSelected) = Some (Ok ((sn, tr), db'))"
    by (rule example_chain)
  with forks_never_conflict [OF e(1,2)] show ?thesis by fastforce
qed

text \<open>C26. The seed of a sortition: in every database the pipeline builds, choosing the winner of the block
  after a fork's tip samples with the VRF seed of the commit that won the fork's last sortition, or with
  the initial seed when only the first block had one. That commit is always stored, so the lookup the code
  calls a corruption when it fails never fails.\<close>

theorem seed_of_last_winner:
  assumes "pipeline X root db" and "stored_chain db rows" and "distinct (map sn_burn_header_hash rows)"
    and "hdr_block_height header - 1 = sn_block_height (last rows)"
  shows "\<exists>seed. select_winning_block X (db\<lparr>chain_tip := sn_sortition_id (last rows)\<rparr>) header h burn_dist =
      and_then (sample_burn_distribution X burn_dist seed h) (\<lambda>w. case w of None \<Rightarrow> Ok None
        | Some i \<Rightarrow> and_then (nth_res burn_dist i) (\<lambda>s. Ok (Some (candidate s)))) \<and>
    (\<exists>s \<in> set rows. find sn_sortition (rev rows) = Some s \<and>
      (if is_initial s then seed = VRFSeed_initial
       else \<exists>c. (c, sn_sortition_id s) \<in> set (block_commits db) \<and> bc_txid c = sn_winning_block_txid s \<and>
              bc_block_header_hash c = sn_winning_stacks_block_hash s \<and> seed = bc_new_seed c))"
proof -
  let ?T = "db\<lparr>chain_tip := sn_sortition_id (last rows)\<rparr>"
  have ne: "rows \<noteq> []" and sub: "set rows \<subseteq> set (snapshots db)" using assms(2) by (simp_all add: stored_chain_def)
  have h: "handle_on ?T rows" by (rule chain_handle [OF reachable_sort_inv [OF pipeline_reachable [OF assms(1)]] assms(2)])
  have "find sn_sortition (rev rows) \<noteq> None" using chain_genesis [OF assms(1,2)] hd_in_set [OF ne] unfolding find_None_iff set_rev by blast
  then obtain s where s: "find sn_sortition (rev rows) = Some s" by blast
  have s_in: "s \<in> set rows" "sn_sortition s" using find_SomeD [OF s] by auto
  have last: "get_last_snapshot_with_sortition ?T (hdr_block_height header - 1) = Ok s"
    using last_sortition_eq [OF h assms(3), of "length rows - 1"] ne s by (simp add: assms(4) last_conv_nth)
  show ?thesis
  proof (cases "is_initial s")
    case True
    then show ?thesis using s s_in by (intro exI [of _ VRFSeed_initial]) (auto simp: select_winning_block_def last)
  next
    case False
    have "winners_stored db" using pipeline_consistent [OF assms(1)] ..
    with s_in sub False obtain c where c: "get_block_commit db (sn_winning_block_txid s) (sn_sortition_id s) = Ok (Some c)"
      "(c, sn_sortition_id s) \<in> set (block_commits db)" "bc_txid c = sn_winning_block_txid s" "bc_block_header_hash c = sn_winning_stacks_block_hash s"
      using commit_found [of db s] by blast
    have "get_block_commit ?T (sn_winning_block_txid s) (sn_sortition_id s) = Ok (Some c)" using c(1) by (simp add: get_block_commit_def)
    with False s s_in c show ?thesis by (intro exI [of _ "bc_new_seed c"]) (auto simp: select_winning_block_def last)
  qed
qed

theorem seed_of_last_winner_witness:
  "\<exists>db a b seed. pipeline plain_externals cur_block db \<and> stored_chain db [a, b] \<and>
     select_winning_block plain_externals (db\<lparr>chain_tip := sn_sortition_id b\<rparr>) (next_header\<lparr>hdr_block_height := 2\<rparr>) [] [] =
       (and_then (sample_burn_distribution plain_externals [] seed []) (\<lambda>w. case w of None \<Rightarrow> Ok None
          | Some i \<Rightarrow> and_then (nth_res ([] :: BurnSamplePoint list) i) (\<lambda>s. Ok (Some (candidate s)))) :: (db_error, _) res)"
proof -
  obtain db a b where e: "pipeline plain_externals cur_block db" "stored_chain db [a, b]"
    "sn_burn_header_hash a = example_block 1" "sn_burn_header_hash b = example_block 2" "sn_block_height b = 1" by (rule example_chain)
  have d: "distinct (map sn_burn_header_hash [a, b])" "hdr_block_height (next_header\<lparr>hdr_block_height := 2\<rparr>) - 1 = sn_block_height (last [a, b])"
    using e(3-5) by (simp_all add: example_block_inj)
  from seed_of_last_winner [OF e(1,2) d, of "[]" "[]"] have "\<exists>seed. select_winning_block plain_externals (db\<lparr>chain_tip := sn_sortition_id (last [a, b])\<rparr>) (next_header\<lparr>hdr_block_height := 2\<rparr>) [] [] =
       (and_then (sample_burn_distribution plain_externals [] seed []) (\<lambda>w. case w of None \<Rightarrow> Ok None
          | Some i \<Rightarrow> and_then (nth_res ([] :: BurnSamplePoint list) i) (\<lambda>s. Ok (Some (candidate s)))) :: (db_error, _) res)" by blast
  moreover have "last [a, b] = b" by simp
  ultimately show ?thesis using e(1,2) by metis
qed

text \<open>C27. What an evaluated sortition adds: a snapshot that extends the fork of the block's parent, follows
  the burn header, carries the parent's total burn plus the burns of the block, and whose winner is a
  candidate of the burn distribution (no winner exactly when nothing was burned or the total overflows);
  only operations of the block are accepted; and the new database is again one the pipeline builds, so
  every guarantee carries over to it.\<close>

theorem evaluation_extends_fork:
  assumes "pipeline X root db" and "evaluate_sortition X root gen_range db header ops burnchain from_tip info = Some (Ok ((sn, tr), db'))"
    and "sn_sortition_id sn \<noteq> SENTINEL_ARRAY"
  shows "\<exists>rows sn'. stored_chain db rows \<and> follows (last rows) header (sn_sortition_id sn) sn \<and> drawn_from (tr_burn_dist tr) (last rows) sn \<and>
    stored_chain db' (rows @ [sn']) \<and> same_core sn' sn \<and> set (tr_accepted_ops tr) \<subseteq> set ops \<and> sortition_reachable X root db'"
  using evaluate_extends [OF reachable_sort_inv [OF pipeline_reachable [OF assms(1)]] assms(2,3)] pipeline_reachable [OF pipeline_evaluate [OF assms]] by blast

theorem evaluation_extends_fork_witness:
  "\<exists>db sn tr db' rows sn'. evaluate_sortition plain_externals cur_block (\<lambda>_ _. 0) db next_header [] example_burnchain (example_block 1) (Some NotSelected) =
       Some (Ok ((sn, tr), db')) \<and> stored_chain db' (rows @ [sn']) \<and> follows (last rows) next_header (sn_sortition_id sn) sn"
proof -
  obtain db sn tr db' where e: "pipeline plain_externals cur_block db"
    "evaluate_sortition plain_externals cur_block (\<lambda>_ _. 0) db next_header [] example_burnchain (example_block 1) (Some NotSelected) = Some (Ok ((sn, tr), db'))"
    "sn_sortition_id sn \<noteq> SENTINEL_ARRAY" by (rule example_chain)
  from evaluation_extends_fork [OF e] e(2) show ?thesis by blast
qed

end
