(* ===== verification/Coordinator.thy ===== *)
theory Coordinator
  imports BurnchainDB ForkInvalidation BlockProcessing
begin

text \<open>
  The chains coordinator, \<^verbatim>\<open>src/chainstate/coordinator/mod.rs\<close> and its signals, \<^verbatim>\<open>comm.rs\<close>: it reads burnchain
  blocks from the block store, evaluates their sortitions on the fork of its canonical sortition, lets
  the chain state process Stacks blocks, and unwinds the sortitions of a prepare phase when the anchor
  block they lacked arrives. The chain state and the reward-set provider, a trait in the source, are
  arguments. Announcing a block to the event dispatcher is not modelled.
\<close>

section \<open>State\<close>

text \<open>The functions around the coordinator. Processing Stacks blocks is given the canonical sortition
  and may change the chain state and the sortition database, also when it fails; each result is the
  consensus hash and the block hash of a processed block, or nothing.\<close>

record 's coord_env =
  env_externals :: externals
  env_root :: "(db_key, db_value) TrieStorage \<Rightarrow> bytes"
  env_gen_range :: "bytes \<Rightarrow> u32 \<Rightarrow> u32"
  block_headers :: "'s \<Rightarrow> (bytes \<times> bytes) list"
  process_blocks :: "'s \<Rightarrow> SortitionHandleTx \<Rightarrow> bytes \<Rightarrow> (coordinator_error, (bytes \<times> bytes) option list) res \<times> 's \<times> SortitionHandleTx"
  get_reward_set :: "u64 \<Rightarrow> 's \<Rightarrow> Burnchain \<Rightarrow> SortitionHandleTx \<Rightarrow> bytes \<Rightarrow> (coordinator_error, StacksAddress list) res"

record 's ChainsCoordinator =
  canonical_sortition_tip :: "bytes option"
  canonical_chain_tip :: "bytes option"
  canonical_pox_id :: "PoxId option"
  burnchain_blocks_db :: BurnchainDB
  chain_state_db :: 's
  sortition_db :: SortitionHandleTx
  coord_burnchain :: Burnchain
  stacks_blocks_processed :: u64
  sortitions_processed :: u64

text \<open>A method returns a result and the state it leaves, which on an error keeps what was done before it.
  A call that does not return has no value.\<close>

type_synonym ('s, 'a) coord_run = "((coordinator_error, 'a) res \<times> 's ChainsCoordinator) option"

definition coord_then :: "('s, 'a) coord_run \<Rightarrow> ('a \<Rightarrow> 's ChainsCoordinator \<Rightarrow> ('s, 'b) coord_run) \<Rightarrow> ('s, 'b) coord_run" where
  "coord_then m f =
     (case m of
        None \<Rightarrow> None
      | Some (r, c) \<Rightarrow> (case r of Ok x \<Rightarrow> f x c | Err e \<Rightarrow> Some (Err e, c) | Panic \<Rightarrow> Some (Panic, c)))"

definition coord_read :: "(coordinator_error, 'a) res option \<Rightarrow> 's ChainsCoordinator \<Rightarrow> ('s, 'a) coord_run" where
  "coord_read r c = map_option (\<lambda>r. (r, c)) r"

section \<open>Reward cycles\<close>

definition is_stacks_block_processed :: "'s coord_env \<Rightarrow> 's \<Rightarrow> bytes \<Rightarrow> bytes \<Rightarrow> bool" where
  "is_stacks_block_processed E chain_state consensus_hash block_hash \<longleftrightarrow> (consensus_hash, block_hash) \<in> set (block_headers E chain_state)"

definition get_reward_cycle_info :: "'s coord_env \<Rightarrow> u64 \<Rightarrow> bytes \<Rightarrow> bytes \<Rightarrow> Burnchain \<Rightarrow> 's \<Rightarrow> SortitionHandleTx
    \<Rightarrow> (coordinator_error, PoxAnchorBlockStatus option) res option" where
  "get_reward_cycle_info E burn_height parent_bhh sortition_tip burnchain chain_state sort_db =
     run_then (Some (is_reward_cycle_start burnchain burn_height)) (\<lambda>start.
       if start then
         run_then (get_chosen_pox_anchor (sort_db\<lparr>chain_tip := sortition_tip\<rparr>) parent_bhh (pox_constants burnchain)) (\<lambda>reward_cycle_info.
           case reward_cycle_info of
             Some (consensus_hash, stacks_block_hash) \<Rightarrow>
               if is_stacks_block_processed E chain_state consensus_hash stacks_block_hash then
                 run_then (Some (get_reward_set E burn_height chain_state burnchain sort_db
                     (StacksBlockId_new (env_externals E) consensus_hash stacks_block_hash))) (\<lambda>reward_set.
                   Some (Ok (Some (SelectedAndKnown stacks_block_hash reward_set))))
               else Some (Ok (Some (SelectedAndUnknown stacks_block_hash)))
           | None \<Rightarrow> Some (Ok (Some NotSelected)))
       else Some (Ok None))"

definition get_next_recipients :: "'s coord_env \<Rightarrow> BlockSnapshot \<Rightarrow> 's \<Rightarrow> SortitionHandleTx \<Rightarrow> Burnchain
    \<Rightarrow> (coordinator_error, RewardSetInfo option) res option" where
  "get_next_recipients E sortition_tip chain_state sort_db burnchain =
     run_then (get_reward_cycle_info E (sn_block_height sortition_tip + 1) (sn_burn_header_hash sortition_tip) (sn_sortition_id sortition_tip)
         burnchain chain_state sort_db) (\<lambda>reward_cycle_info.
       Some (map_err CoordBurnchainError (get_next_block_recipients (env_externals E) (env_gen_range E) sort_db sortition_tip reward_cycle_info)))"

section \<open>Processing Stacks blocks\<close>

definition pull_blocks :: "'s coord_env \<Rightarrow> bytes \<Rightarrow> 's ChainsCoordinator \<Rightarrow> (coordinator_error, (bytes \<times> bytes) option list) res \<times> 's ChainsCoordinator" where
  "pull_blocks E canonical_tip c =
     (let (processed_blocks, chain_state, sort_db) = process_blocks E (chain_state_db c) (sortition_db c) canonical_tip
      in (processed_blocks, c\<lparr>chain_state_db := chain_state, sortition_db := sort_db\<rparr>))"

definition handle_receipt :: "'s coord_env \<Rightarrow> bytes \<Rightarrow> bytes \<Rightarrow> 's ChainsCoordinator \<Rightarrow> (coordinator_error, bytes option) res \<times> 's ChainsCoordinator" where
  "handle_receipt E canonical_tip block_hash c =
     (case map_err CoordBurnchainError (is_stacks_block_in_sortition_set (sortition_db c) canonical_tip block_hash) of
        Ok in_sortition_set \<Rightarrow>
          if \<not> in_sortition_set then (Ok None, c)
          else (case and_then (map_err CoordDBError (db_get_block_snapshot (sortition_db c) canonical_tip)) expect of
                  Ok sn \<Rightarrow>
                    (map_err CoordBurnchainError (is_stacks_block_pox_anchor (sortition_db c) block_hash canonical_tip),
                     c\<lparr>canonical_chain_tip := Some (get_canonical_stacks_block_id (env_externals E) sn),
                       stacks_blocks_processed := stacks_blocks_processed c + 1\<rparr>)
                | Err e \<Rightarrow> (Err e, c)
                | Panic \<Rightarrow> (Panic, c))
      | Err e \<Rightarrow> (Err e, c)
      | Panic \<Rightarrow> (Panic, c))"

partial_function (option) ready_loop :: "'s coord_env \<Rightarrow> bytes \<Rightarrow> 's ChainsCoordinator \<Rightarrow> ('s, bytes option) coord_run" where
  "ready_loop E canonical_tip c =
     (case pull_blocks E canonical_tip c of
        (Ok processed_blocks, c) \<Rightarrow>
          if processed_blocks = [] then Some (Ok None, c)
          else (case last processed_blocks of
                  None \<Rightarrow> ready_loop E canonical_tip c
                | Some (_, block_hash) \<Rightarrow>
                    (case handle_receipt E canonical_tip block_hash c of
                       (Ok None, c) \<Rightarrow> ready_loop E canonical_tip c
                     | (Ok (Some pox_anchor), c) \<Rightarrow> Some (Ok (Some pox_anchor), c)
                     | (Err e, c) \<Rightarrow> Some (Err e, c)
                     | (Panic, c) \<Rightarrow> Some (Panic, c)))
      | (Err e, c) \<Rightarrow> Some (Err e, c)
      | (Panic, c) \<Rightarrow> Some (Panic, c))"

definition process_ready_blocks :: "'s coord_env \<Rightarrow> 's ChainsCoordinator \<Rightarrow> ('s, bytes option) coord_run" where
  "process_ready_blocks E c =
     (case canonical_sortition_tip c of None \<Rightarrow> Some (Panic, c) | Some canonical_tip \<Rightarrow> ready_loop E canonical_tip c)"

section \<open>Processing burnchain blocks\<close>

partial_function (option) unprocessed_loop :: "SortitionHandleTx \<Rightarrow> BurnchainDB \<Rightarrow> bytes \<Rightarrow> bytes \<Rightarrow> BurnchainBlockData list
    \<Rightarrow> (coordinator_error, BurnchainBlockData list) res option" where
  "unprocessed_loop sort_db burn_db canonical_tip cursor sortitions_to_process =
     (case is_sortition_processed sort_db cursor canonical_tip of
        Ok processed \<Rightarrow>
          if processed then Some (Ok sortitions_to_process)
          else (case get_burnchain_block burn_db cursor of
                  Ok current_block \<Rightarrow>
                    unprocessed_loop sort_db burn_db canonical_tip (hdr_parent_block_hash (bd_header current_block)) (current_block # sortitions_to_process)
                | Err e \<Rightarrow> Some (Err (NonContiguousBurnchainBlock e))
                | Panic \<Rightarrow> Some Panic)
      | Err e \<Rightarrow> Some (Err (CoordBurnchainError e))
      | Panic \<Rightarrow> Some Panic)"

definition evaluate_next :: "'s coord_env \<Rightarrow> bytes \<Rightarrow> BurnchainBlockData \<Rightarrow> PoxAnchorBlockStatus option \<Rightarrow> 's ChainsCoordinator
    \<Rightarrow> ('s, BlockSnapshot) coord_run" where
  "evaluate_next E canonical_tip block reward_cycle_info c =
     (case evaluate_sortition (env_externals E) (env_root E) (env_gen_range E) (sortition_db c) (bd_header block) (bd_ops block)
             (coord_burnchain c) canonical_tip reward_cycle_info of
        None \<Rightarrow> None
      | Some (Ok ((next_snapshot, _), sort_db)) \<Rightarrow> Some (Ok next_snapshot, c\<lparr>sortition_db := sort_db\<rparr>)
      | Some (Err e) \<Rightarrow> Some (Err (FailedToProcessSortition e), c)
      | Some Panic \<Rightarrow> Some (Panic, c))"

text \<open>The new sortition becomes canonical when its block is above the canonical one.\<close>

definition advance_tip :: "BlockSnapshot \<Rightarrow> BurnchainBlockHeader \<Rightarrow> BlockSnapshot \<Rightarrow> bytes \<Rightarrow> 's ChainsCoordinator \<Rightarrow> ('s, bytes) coord_run" where
  "advance_tip sortition_tip_snapshot header next_snapshot canonical_tip c =
     (let c = c\<lparr>sortitions_processed := sortitions_processed c + 1\<rparr>
      in if sn_block_height sortition_tip_snapshot < hdr_block_height header
         then Some (Ok (sn_sortition_id next_snapshot), c\<lparr>canonical_sortition_tip := Some (sn_sortition_id next_snapshot)\<rparr>)
         else Some (Ok canonical_tip, c))"

text \<open>The body of the loop over unprocessed blocks: the canonical sortition of the next round, and the
  anchor block that was discovered.\<close>

definition process_unprocessed :: "'s coord_env \<Rightarrow> bytes \<Rightarrow> BurnchainBlockData \<Rightarrow> 's ChainsCoordinator \<Rightarrow> ('s, bytes \<times> bytes option) coord_run" where
  "process_unprocessed E canonical_tip block c =
     coord_then (coord_read (Some (and_then (map_err CoordDBError (db_get_block_snapshot (sortition_db c) canonical_tip)) expect)) c) (\<lambda>sortition_tip_snapshot c.
     coord_then (coord_read (run_then (Some (expect (canonical_sortition_tip c))) (\<lambda>tip. get_reward_cycle_info E (hdr_block_height (bd_header block))
         (hdr_parent_block_hash (bd_header block)) tip (coord_burnchain c) (chain_state_db c) (sortition_db c))) c) (\<lambda>reward_cycle_info c.
     coord_then (evaluate_next E canonical_tip block reward_cycle_info c) (\<lambda>next_snapshot c.
     coord_then (advance_tip sortition_tip_snapshot (bd_header block) next_snapshot canonical_tip c) (\<lambda>canonical_tip c.
     coord_then (process_ready_blocks E c) (\<lambda>pox_anchor c. Some (Ok (canonical_tip, pox_anchor), c))))))"

primrec process_all :: "'s coord_env \<Rightarrow> bytes \<Rightarrow> BurnchainBlockData list \<Rightarrow> 's ChainsCoordinator \<Rightarrow> ('s, bytes option) coord_run" where
  "process_all E canonical_tip [] c = Some (Ok None, c)"
| "process_all E canonical_tip (block # blocks) c =
     coord_then (process_unprocessed E canonical_tip block c) (\<lambda>(canonical_tip, pox_anchor) c.
       case pox_anchor of Some a \<Rightarrow> Some (Ok (Some a), c) | None \<Rightarrow> process_all E canonical_tip blocks c)"

text \<open>One pass over the unprocessed ancestors of the burnchain tip.\<close>

definition burnchain_pass :: "'s coord_env \<Rightarrow> 's ChainsCoordinator \<Rightarrow> ('s, bytes option) coord_run" where
  "burnchain_pass E c =
     coord_then (coord_read (Some (map_err CoordBurnchainError (get_canonical_chain_tip (burnchain_blocks_db c)))) c) (\<lambda>canonical_burnchain_tip c.
     coord_then (coord_read (Some (expect (canonical_sortition_tip c))) c) (\<lambda>canonical_tip c.
     coord_then (coord_read (unprocessed_loop (sortition_db c) (burnchain_blocks_db c) canonical_tip (hdr_block_hash canonical_burnchain_tip) []) c)
       (\<lambda>sortitions_to_process c. process_all E canonical_tip sortitions_to_process c)))"

section \<open>Unwinding to an anchor block\<close>

partial_function (option) older_prepare_loop :: "SortitionHandleTx \<Rightarrow> bytes \<Rightarrow> BlockSnapshot \<Rightarrow> (coordinator_error, BlockSnapshot) res option" where
  "older_prepare_loop sort_db block_id prep_end =
     (case get_prepare_end_for sort_db (sn_sortition_id prep_end) block_id of
        Ok None \<Rightarrow> Some (Ok prep_end)
      | Ok (Some older_prep_end) \<Rightarrow> older_prepare_loop sort_db block_id older_prep_end
      | Err e \<Rightarrow> Some (Err (CoordBurnchainError e))
      | Panic \<Rightarrow> Some Panic)"

definition unwind_to_anchor :: "'s coord_env \<Rightarrow> bytes \<Rightarrow> 's ChainsCoordinator \<Rightarrow> ('s, unit) coord_run" where
  "unwind_to_anchor E block_id c =
     coord_then (coord_read (Some (expect (canonical_sortition_tip c))) c) (\<lambda>sortition_id c.
     coord_then (coord_read (Some (and_then (map_err CoordBurnchainError (get_prepare_end_for (sortition_db c) sortition_id block_id)) expect)) c) (\<lambda>prep_end c.
     coord_then (coord_read (older_prepare_loop (sortition_db c) block_id prep_end) c) (\<lambda>prep_end c.
     coord_then (coord_read (Some (map_err (\<lambda>e. CoordBurnchainError (BurnDBError e)) (get_pox_id (sortition_db c\<lparr>chain_tip := sortition_id\<rparr>)))) c) (\<lambda>pox_id c.
       case invalidate_descendants_of (sortition_db c) (sn_burn_header_hash prep_end) of
         None \<Rightarrow> None
       | Some sort_db \<Rightarrow>
           Some (Ok (), c\<lparr>sortition_db := sort_db,
             canonical_chain_tip := Some (StacksBlockId_new (env_externals E) (sn_consensus_hash prep_end) (sn_canonical_stacks_tip_hash prep_end)),
             canonical_sortition_tip := Some (sn_sortition_id prep_end),
             canonical_pox_id := Some (extend_with_present_block pox_id)\<rparr>)))))"

text \<open>\<^verbatim>\<open>handle_new_burnchain_block\<close> and \<^verbatim>\<open>process_new_pox_anchor\<close> call each other: a pass, then, when it found
  an anchor block, the unwinding and another pass.\<close>

partial_function (option) handle_new_burnchain_block :: "'s coord_env \<Rightarrow> 's ChainsCoordinator \<Rightarrow> ('s, unit) coord_run" where
  "handle_new_burnchain_block E c =
     (case burnchain_pass E c of
        None \<Rightarrow> None
      | Some (Ok None, c) \<Rightarrow> Some (Ok (), c)
      | Some (Ok (Some pox_anchor), c) \<Rightarrow>
          (case unwind_to_anchor E pox_anchor c of
             None \<Rightarrow> None
           | Some (Ok _, c) \<Rightarrow> handle_new_burnchain_block E c
           | Some (Err e, c) \<Rightarrow> Some (Err e, c)
           | Some (Panic, c) \<Rightarrow> Some (Panic, c))
      | Some (Err e, c) \<Rightarrow> Some (Err e, c)
      | Some (Panic, c) \<Rightarrow> Some (Panic, c))"

definition process_new_pox_anchor :: "'s coord_env \<Rightarrow> bytes \<Rightarrow> 's ChainsCoordinator \<Rightarrow> ('s, unit) coord_run" where
  "process_new_pox_anchor E block_id c = coord_then (unwind_to_anchor E block_id c) (\<lambda>_ c. handle_new_burnchain_block E c)"

definition handle_new_stacks_block :: "'s coord_env \<Rightarrow> 's ChainsCoordinator \<Rightarrow> ('s, unit) coord_run" where
  "handle_new_stacks_block E c =
     coord_then (process_ready_blocks E c) (\<lambda>pox_anchor c.
       case pox_anchor of Some a \<Rightarrow> process_new_pox_anchor E a c | None \<Rightarrow> Some (Ok (), c))"

section \<open>Signals\<close>

record SignalBools =
  new_stacks_block :: bool
  new_burn_block :: bool
  stop :: bool

datatype CoordinatorEvents = NEW_STACKS_BLOCK | NEW_BURN_BLOCK | STOP | TIMEOUT

definition activated_signal :: "SignalBools \<Rightarrow> bool" where
  "activated_signal b \<longleftrightarrow> stop b \<or> new_stacks_block b \<or> new_burn_block b"

definition receive_signal :: "SignalBools \<Rightarrow> CoordinatorEvents \<times> SignalBools" where
  "receive_signal b =
     (if stop b then (STOP, b)
      else if new_burn_block b then (NEW_BURN_BLOCK, b\<lparr>new_burn_block := False\<rparr>)
      else if new_stacks_block b then (NEW_STACKS_BLOCK, b\<lparr>new_stacks_block := False\<rparr>)
      else (TIMEOUT, b))"

definition announce_new_stacks_block :: "SignalBools \<Rightarrow> bool \<times> SignalBools" where
  "announce_new_stacks_block b = (\<not> stop b, b\<lparr>new_stacks_block := True\<rparr>)"

definition announce_new_burn_block :: "SignalBools \<Rightarrow> bool \<times> SignalBools" where
  "announce_new_burn_block b = (\<not> stop b, b\<lparr>new_burn_block := True\<rparr>)"

definition stop_chains_coordinator :: "SignalBools \<Rightarrow> bool \<times> SignalBools" where
  "stop_chains_coordinator b = (False, b\<lparr>stop := True\<rparr>)"

definition no_signals :: SignalBools where
  "no_signals = \<lparr>new_stacks_block = False, new_burn_block = False, stop = False\<rparr>"

section \<open>The run loop\<close>

definition coordinator_new :: "BurnchainDB \<Rightarrow> 's \<Rightarrow> SortitionHandleTx \<Rightarrow> Burnchain \<Rightarrow> (db_error, 's ChainsCoordinator) res" where
  "coordinator_new burn_db chain_state sort_db burnchain =
     and_then (get_canonical_sortition_tip sort_db) (\<lambda>tip.
       Ok \<lparr>canonical_sortition_tip = Some tip, canonical_chain_tip = None, canonical_pox_id = None, burnchain_blocks_db = burn_db,
           chain_state_db = chain_state, sortition_db = sort_db, coord_burnchain = burnchain,
           stacks_blocks_processed = 0, sortitions_processed = 0\<rparr>)"

text \<open>One turn of the loop, once it has been woken: an error of a handler is reported and the loop goes on;
  the first result tells whether it does.\<close>

definition run_turn :: "'s coord_env \<Rightarrow> SignalBools \<Rightarrow> 's ChainsCoordinator \<Rightarrow> (bool \<times> SignalBools \<times> 's ChainsCoordinator) option" where
  "run_turn E b c =
     (case receive_signal b of
        (NEW_STACKS_BLOCK, b) \<Rightarrow> map_option (\<lambda>(r, c). (r \<noteq> Panic, b, c)) (handle_new_stacks_block E c)
      | (NEW_BURN_BLOCK, b) \<Rightarrow> map_option (\<lambda>(r, c). (r \<noteq> Panic, b, c)) (handle_new_burnchain_block E c)
      | (STOP, b) \<Rightarrow> Some (False, b, c)
      | (TIMEOUT, b) \<Rightarrow> Some (True, b, c))"

end
