(* ===== verification/CoordinatorProperties.thy ===== *)
theory CoordinatorProperties
  imports Coordinator
begin

text \<open>
  The properties of the chains coordinator, over every interleaving of its run loop with the threads
  that store burnchain blocks, announce blocks and feed the chain state.
\<close>

section \<open>How the sortition database grows\<close>

text \<open>A database grows when its rows stay, up to their mutable columns, and the fork of each reads as before.\<close>

definition db_grows :: "SortitionHandleTx \<Rightarrow> SortitionHandleTx \<Rightarrow> bool" where
  "db_grows db db' \<longleftrightarrow> (\<forall>s \<in> set (snapshots db). \<exists>s' \<in> set (snapshots db'). same_core s' s \<and> view_at db' s' = view_at db s)"

lemma same_core_refl [simp]: "same_core s s"
  by (simp add: same_core_def)

lemma same_core_trans: "same_core a b \<Longrightarrow> same_core b c \<Longrightarrow> same_core a c"
  by (simp add: same_core_def)

lemma view_at_core: "same_core s' s \<Longrightarrow> view_at db s' = view_at db s"
  by (simp add: view_at_def same_core_def)

lemma db_grows_refl [simp]: "db_grows db db"
  by (force simp: db_grows_def)

lemma db_grows_trans: "db_grows a b \<Longrightarrow> db_grows b c \<Longrightarrow> db_grows a c"
  unfolding db_grows_def using same_core_trans by metis

lemma updates_grow:
  assumes "updates_rows db db'"
  shows "db_grows db db'"
proof -
  from assms obtain f where f: "handle_index db' = handle_index db" "\<And>s. same_core (f s) s" "snapshots db' = map f (snapshots db)"
    by (auto simp: updates_rows_def)
  have "view_at db' (f s) = view_at db s" for s using f(2) [of s] by (simp add: view_at_def f(1) same_core_def)
  with f show ?thesis by (auto simp: db_grows_def)
qed

lemma evaluate_grows:
  assumes inv: "sort_inv db" and ok: "evaluate_sortition X root gen_range db header ops burnchain from_tip info = Some (Ok ((sn, tr), db'))"
    and n: "sn_sortition_id sn \<noteq> SENTINEL_ARRAY"
  shows "db_grows db db'"
proof -
  from evaluate_parts [OF assms(1,2)] obtain parent snap recip tx db1 r where p: "parent \<in> set (snapshots db)"
    "append_chain_tip_snapshot root (db\<lparr>chain_tip := sn_sortition_id parent\<rparr>) parent snap (tr_accepted_ops tr) info recip = Ok (r, tx)"
    "handle_commit tx = Ok db1" "store_transition_ops db1 (sn_sortition_id snap) tr = Ok db'" "sn = snap\<lparr>sn_index_root := r\<rparr>" by blast
  have "sn_sortition_id snap \<noteq> SENTINEL_ARRAY" using n p(5) by simp
  from inv_append(2) [OF inv p(1) this p(2,3)] obtain sn' where a: "snapshots db1 = snapshots db @ [sn']"
    "\<And>s. s \<in> set (snapshots db) \<Longrightarrow> view_at db1 s = view_at db s" by blast
  have "\<exists>s' \<in> set (snapshots db1). same_core s' s \<and> view_at db1 s' = view_at db s" if "s \<in> set (snapshots db)" for s
    using a that by (intro bexI [of _ s]) auto
  then have "db_grows db db1" by (simp add: db_grows_def)
  then show ?thesis by (rule db_grows_trans [OF _ updates_grow [OF transition_updates [OF p(4)]]])
qed

text \<open>The new snapshot of an evaluated sortition is stored, under the identifier made of the block's hash.\<close>

lemma evaluate_stores:
  assumes inv: "sort_inv db" and ok: "evaluate_sortition X root gen_range db header ops burnchain from_tip info = Some (Ok ((sn, tr), db'))"
    and ids: "\<And>p. SortitionId_new X (hdr_block_hash header) p \<noteq> SENTINEL_ARRAY"
  shows "sn_sortition_id sn \<noteq> SENTINEL_ARRAY" and "sn_sortition_id sn \<in> sn_sortition_id ` set (snapshots db')"
proof -
  from evaluate_parts [OF assms(1,2)] obtain parent pox snap r where p:
    "make_snapshot X (db\<lparr>chain_tip := sn_sortition_id parent\<rparr>) burnchain (SortitionId_new X (hdr_block_hash header) (next_pox_id pox info))
      (next_pox_id pox info) parent header (tr_burn_dist tr) (map op_txid (tr_accepted_ops tr)) = Ok snap" "sn = snap\<lparr>sn_index_root := r\<rparr>" by blast
  have "sn_sortition_id snap = SortitionId_new X (hdr_block_hash header) (next_pox_id pox info)"
    using make_snapshot_Ok [OF p(1)] by (simp add: follows_def)
  then show n: "sn_sortition_id sn \<noteq> SENTINEL_ARRAY" using ids p(2) by simp
  from evaluate_extends [OF inv ok n] obtain rows sn' where "stored_chain db' (rows @ [sn'])" "same_core sn' sn" by blast
  then have "sn' \<in> set (snapshots db')" "sn_sortition_id sn' = sn_sortition_id sn" by (simp_all add: stored_chain_def same_core_def)
  then show "sn_sortition_id sn \<in> sn_sortition_id ` set (snapshots db')" by (metis imageI)
qed

section \<open>What every call keeps\<close>

definition accepts_block :: "SortitionHandleTx \<Rightarrow> SortitionHandleTx \<Rightarrow> bool" where
  "accepts_block db db' \<longleftrightarrow> (\<exists>tip ch parent_bhh bhh height. set_stacks_block_accepted (db\<lparr>chain_tip := tip\<rparr>) ch parent_bhh bhh height = Ok db')"

text \<open>The chain state writes to the sortition database only by marking Stacks blocks as accepted.\<close>

definition chain_state_accepts :: "'s coord_env \<Rightarrow> bool" where
  "chain_state_accepts E \<longleftrightarrow> (\<forall>s db tip r s' db'. process_blocks E s db tip = (r, s', db') \<longrightarrow> accepts_block\<^sup>*\<^sup>* db db')"

definition usable_hash :: "externals \<Rightarrow> bytes \<Rightarrow> bool" where
  "usable_hash X h \<longleftrightarrow> (\<forall>p. SortitionId_new X h p \<noteq> SENTINEL_ARRAY)"

definition coord_ok :: "'s coord_env \<Rightarrow> 's ChainsCoordinator \<Rightarrow> bool" where
  "coord_ok E c \<longleftrightarrow> pipeline (env_externals E) (env_root E) (sortition_db c) \<and>
     (\<exists>t \<in> set (snapshots (sortition_db c)). canonical_sortition_tip c = Some (sn_sortition_id t)) \<and>
     burn_db_reachable (env_externals E) (burnchain_blocks_db c) \<and>
     (\<forall>h \<in> set (burnchain_db_block_headers (burnchain_blocks_db c)). usable_hash (env_externals E) (hdr_block_hash h))"

definition coord_keeps :: "'s coord_env \<Rightarrow> 's ChainsCoordinator \<Rightarrow> 's ChainsCoordinator \<Rightarrow> bool" where
  "coord_keeps E c c' \<longleftrightarrow> coord_ok E c \<longrightarrow> coord_ok E c' \<and> burnchain_blocks_db c' = burnchain_blocks_db c \<and>
     coord_burnchain c' = coord_burnchain c \<and> db_grows (sortition_db c) (sortition_db c')"

definition run_keeps :: "'s coord_env \<Rightarrow> 's ChainsCoordinator \<Rightarrow> ('s, 'a) coord_run \<Rightarrow> bool" where
  "run_keeps E c m \<longleftrightarrow> (\<forall>r c'. m = Some (r, c') \<longrightarrow> coord_keeps E c c')"

lemma coord_keeps_refl [simp]: "coord_keeps E c c"
  by (simp add: coord_keeps_def)

lemma coord_keeps_trans: "coord_keeps E a b \<Longrightarrow> coord_keeps E b c \<Longrightarrow> coord_keeps E a c"
  by (auto simp: coord_keeps_def intro: db_grows_trans)

lemma run_keeps_None [simp]: "run_keeps E c None"
  by (simp add: run_keeps_def)

lemma run_keeps_Some [simp]: "run_keeps E c (Some (r, c')) \<longleftrightarrow> coord_keeps E c c'"
  by (simp add: run_keeps_def)

lemma run_keeps_read [simp]: "run_keeps E c (coord_read r c)"
  by (auto simp: run_keeps_def coord_read_def)

lemma run_keeps_trans: "coord_keeps E a b \<Longrightarrow> run_keeps E b m \<Longrightarrow> run_keeps E a m"
  by (auto simp: run_keeps_def intro: coord_keeps_trans)

lemma run_keeps_then:
  assumes "run_keeps E c m" and "\<And>x c'. m = Some (Ok x, c') \<Longrightarrow> run_keeps E c' (f x c')"
  shows "run_keeps E c (coord_then m f)"
  using assms by (auto simp: coord_then_def run_keeps_def intro: coord_keeps_trans split: option.splits prod.splits res.splits)

lemma coord_read_Ok [simp]: "coord_read r c = Some (Ok x, c') \<longleftrightarrow> r = Some (Ok x) \<and> c' = c"
  by (auto simp: coord_read_def)

lemma run_keeps_read_then: "(\<And>x. r = Some (Ok x) \<Longrightarrow> run_keeps E c (f x c)) \<Longrightarrow> run_keeps E c (coord_then (coord_read r c) f)"
  by (rule run_keeps_then) auto

text \<open>Changes of the fields the invariant does not read.\<close>

lemma coord_keeps_other:
  assumes "sortition_db c' = sortition_db c" and "canonical_sortition_tip c' = canonical_sortition_tip c"
    and "burnchain_blocks_db c' = burnchain_blocks_db c" and "coord_burnchain c' = coord_burnchain c"
  shows "coord_keeps E c c'"
  using assms by (simp add: coord_keeps_def coord_ok_def)

lemma coord_keeps_grow:
  assumes "db_grows (sortition_db c) (sortition_db c')" and "canonical_sortition_tip c' = canonical_sortition_tip c"
    and "burnchain_blocks_db c' = burnchain_blocks_db c" and "coord_burnchain c' = coord_burnchain c"
    and "coord_ok E c \<Longrightarrow> pipeline (env_externals E) (env_root E) (sortition_db c')"
  shows "coord_keeps E c c'"
proof -
  have "\<exists>t' \<in> set (snapshots (sortition_db c')). sn_sortition_id t' = sn_sortition_id t" if "t \<in> set (snapshots (sortition_db c))" for t
    using assms(1) that unfolding db_grows_def same_core_def by metis
  then show ?thesis using assms unfolding coord_keeps_def coord_ok_def by metis
qed

lemma accepts_grow:
  assumes "accepts_block\<^sup>*\<^sup>* db db'"
  shows "db_grows db db' \<and> (pipeline X root db \<longrightarrow> pipeline X root db')"
  using assms
proof induction
  case (step y z)
  then obtain tip ch p b h where a: "set_stacks_block_accepted (y\<lparr>chain_tip := tip\<rparr>) ch p b h = Ok z" by (auto simp: accepts_block_def)
  then have "updates_rows (y\<lparr>chain_tip := tip\<rparr>) z" by (auto simp: set_stacks_block_accepted_def and_then_Ok_iff intro: accepted_updates)
  then have "db_grows y z" using updates_grow updates_rows_trans handle_updates by blast
  then show ?case using step.IH a db_grows_trans pipeline_accept by blast
qed simp

lemma pull_keeps:
  assumes "chain_state_accepts E" and "pull_blocks E tip c = (r, c')"
  shows "coord_keeps E c c'"
proof -
  obtain r' s db where p: "process_blocks E (chain_state_db c) (sortition_db c) tip = (r', s, db)" by (cases "process_blocks E (chain_state_db c) (sortition_db c) tip")
  then have "accepts_block\<^sup>*\<^sup>* (sortition_db c) db" using assms(1) by (auto simp: chain_state_accepts_def)
  from accepts_grow [OF this] show ?thesis using assms(2) p
    by (intro coord_keeps_grow) (auto simp: pull_blocks_def coord_ok_def)
qed

lemma receipt_keeps: "handle_receipt E tip b c = (r, c') \<Longrightarrow> coord_keeps E c c'"
  by (auto simp: handle_receipt_def intro!: coord_keeps_other split: res.splits if_splits)

lemma ready_loop_keeps:
  assumes "ready_loop E tip c = Some y" and "chain_state_accepts E"
  shows "coord_keeps E c (snd y)"
proof -
  have "chain_state_accepts E \<longrightarrow> coord_keeps E c (snd y)"
  proof (rule ready_loop.raw_induct [OF _ assms(1)])
    fix loop E tip c y
    assume IH: "\<And>E tip c y. loop E tip c = Some y \<Longrightarrow> chain_state_accepts E \<longrightarrow> coord_keeps E c (snd y)"
      and step: "(case pull_blocks E tip c of
          (Ok processed_blocks, c) \<Rightarrow>
            if processed_blocks = [] then Some (Ok None, c)
            else (case last processed_blocks of
                    None \<Rightarrow> loop E tip c
                  | Some (_, block_hash) \<Rightarrow>
                      (case handle_receipt E tip block_hash c of
                         (Ok None, c) \<Rightarrow> loop E tip c
                       | (Ok (Some pox_anchor), c) \<Rightarrow> Some (Ok (Some pox_anchor), c)
                       | (Err e, c) \<Rightarrow> Some (Err e, c)
                       | (Panic, c) \<Rightarrow> Some (Panic, c)))
        | (Err e, c) \<Rightarrow> Some (Err e, c)
        | (Panic, c) \<Rightarrow> Some (Panic, c)) = Some y"
    show "chain_state_accepts E \<longrightarrow> coord_keeps E c (snd y)"
    proof
      assume a: "chain_state_accepts E"
      obtain r c1 where p: "pull_blocks E tip c = (r, c1)" by (cases "pull_blocks E tip c")
      note c1 = pull_keeps [OF a p]
      have next_keeps: "coord_keeps E c' (snd y)" if "loop E tip c' = Some y" for c' using IH [OF that] a by simp
      have body: "coord_keeps E c1 (snd y)" if "r = Ok bs" "bs \<noteq> []" for bs
      proof (cases "last bs")
        case None
        with that step show ?thesis by (simp add: p next_keeps)
      next
        case (Some receipt)
        obtain ch bh where receipt: "receipt = (ch, bh)" by (cases receipt)
        obtain r2 c2 where h: "handle_receipt E tip bh c1 = (r2, c2)" by (cases "handle_receipt E tip bh c1")
        from that step have "snd y = c2 \<or> loop E tip c2 = Some y"
          by (auto simp: p Some receipt h split: res.splits option.splits)
        then show ?thesis using receipt_keeps [OF h] next_keeps coord_keeps_trans by metis
      qed
      have "coord_keeps E c1 (snd y)" using step body by (auto simp: p split: res.splits if_splits)
      with c1 show "coord_keeps E c (snd y)" by (rule coord_keeps_trans)
    qed
  qed
  with assms(2) show ?thesis by simp
qed

lemma ready_keeps: "chain_state_accepts E \<Longrightarrow> run_keeps E c (process_ready_blocks E c)"
  by (auto simp: process_ready_blocks_def run_keeps_def dest!: ready_loop_keeps split: option.splits)

section \<open>The blocks of a pass\<close>

text \<open>The blocks to process are stored, unknown on the fork of the canonical sortition, and each is the
  parent of the next; the last is the one the walk started from.\<close>

definition unprocessed_path :: "SortitionHandleTx \<Rightarrow> BurnchainDB \<Rightarrow> bytes \<Rightarrow> BurnchainBlockData list \<Rightarrow> bool" where
  "unprocessed_path sort_db burn_db tip bs \<longleftrightarrow>
     (\<forall>b \<in> set bs. bd_header b \<in> set (burnchain_db_block_headers burn_db) \<and> is_sortition_processed sort_db (hdr_block_hash (bd_header b)) tip = Ok False) \<and>
     (\<forall>i. Suc i < length bs \<longrightarrow> hdr_parent_block_hash (bd_header (bs ! Suc i)) = hdr_block_hash (bd_header (bs ! i)))"

lemma block_read:
  assumes "get_burnchain_block burn_db h = Ok b"
  shows "bd_header b \<in> set (burnchain_db_block_headers burn_db) \<and> hdr_block_hash (bd_header b) = h"
  using assms find_SomeD [of "\<lambda>r. hdr_block_hash r = h" "burnchain_db_block_headers burn_db"]
  by (auto simp: get_burnchain_block_def and_then_Ok_iff ok_or_def split: option.splits)

lemma unprocessed_path_Cons:
  assumes "unprocessed_path sort_db burn_db tip (b # bs)" and "is_sortition_processed sort_db (hdr_block_hash (bd_header a)) tip = Ok False"
    and "bd_header a \<in> set (burnchain_db_block_headers burn_db)" and "hdr_parent_block_hash (bd_header b) = hdr_block_hash (bd_header a)"
  shows "unprocessed_path sort_db burn_db tip (a # b # bs)"
  using assms unfolding unprocessed_path_def by (auto simp: nth_Cons split: nat.splits)

lemma unprocessed_loop_path:
  assumes "unprocessed_loop sort_db burn_db tip cursor acc = Some (Ok bs)"
    and "unprocessed_path sort_db burn_db tip acc" and "acc \<noteq> [] \<Longrightarrow> hdr_parent_block_hash (bd_header (hd acc)) = cursor"
  shows "unprocessed_path sort_db burn_db tip bs"
proof -
  have "\<forall>bs. y = Ok bs \<longrightarrow> unprocessed_path sort_db burn_db tip acc \<longrightarrow>
      (acc \<noteq> [] \<longrightarrow> hdr_parent_block_hash (bd_header (hd acc)) = cursor) \<longrightarrow> unprocessed_path sort_db burn_db tip bs"
    if "unprocessed_loop sort_db burn_db tip cursor acc = Some y" for y
  proof (rule unprocessed_loop.raw_induct [OF _ that], intro allI impI)
    fix loop sort_db burn_db tip cursor acc y bs
    assume IH: "\<And>sort_db burn_db tip cursor acc y. loop sort_db burn_db tip cursor acc = Some y \<Longrightarrow>
        \<forall>bs. y = Ok bs \<longrightarrow> unprocessed_path sort_db burn_db tip acc \<longrightarrow>
          (acc \<noteq> [] \<longrightarrow> hdr_parent_block_hash (bd_header (hd acc)) = cursor) \<longrightarrow> unprocessed_path sort_db burn_db tip bs"
      and step: "(case is_sortition_processed sort_db cursor tip of
          Ok processed \<Rightarrow>
            if processed then Some (Ok acc)
            else (case get_burnchain_block burn_db cursor of
                    Ok current_block \<Rightarrow> loop sort_db burn_db tip (hdr_parent_block_hash (bd_header current_block)) (current_block # acc)
                  | Err e \<Rightarrow> Some (Err (NonContiguousBurnchainBlock e))
                  | Panic \<Rightarrow> Some Panic)
        | Err e \<Rightarrow> Some (Err (CoordBurnchainError e))
        | Panic \<Rightarrow> Some Panic) = Some y"
      and y: "y = Ok bs" and path: "unprocessed_path sort_db burn_db tip acc"
      and hd: "acc \<noteq> [] \<longrightarrow> hdr_parent_block_hash (bd_header (hd acc)) = cursor"
    show "unprocessed_path sort_db burn_db tip bs"
    proof (cases "is_sortition_processed sort_db cursor tip = Ok True")
      case True
      then show ?thesis using step y path by simp
    next
      case False
      then obtain b where b: "is_sortition_processed sort_db cursor tip = Ok False" "get_burnchain_block burn_db cursor = Ok b"
        "loop sort_db burn_db tip (hdr_parent_block_hash (bd_header b)) (b # acc) = Some (Ok bs)"
        using step y by (auto split: res.splits if_splits)
      have "unprocessed_path sort_db burn_db tip (b # acc)"
        using path hd b(1) block_read [OF b(2)] unprocessed_path_Cons by (cases acc) (auto simp: unprocessed_path_def)
      then show ?thesis using IH [OF b(3)] by simp
    qed
  qed
  with assms show ?thesis by blast
qed

section \<open>What a pass keeps\<close>

lemma coord_ok_inv: "coord_ok E c \<Longrightarrow> sort_inv (sortition_db c)"
  by (auto simp: coord_ok_def intro: reachable_sort_inv pipeline_reachable)

lemma run_keeps_okI: "(coord_ok E c \<Longrightarrow> run_keeps E c m) \<Longrightarrow> run_keeps E c m"
  by (auto simp: run_keeps_def coord_keeps_def)

lemma evaluate_next_Ok:
  assumes "evaluate_next E tip block info c = Some (Ok sn, c')"
  obtains tr db where "evaluate_sortition (env_externals E) (env_root E) (env_gen_range E) (sortition_db c) (bd_header block) (bd_ops block)
      (coord_burnchain c) tip info = Some (Ok ((sn, tr), db))" and "c' = c\<lparr>sortition_db := db\<rparr>"
  using assms by (auto simp: evaluate_next_def split: option.splits res.splits prod.splits)

lemma evaluate_next_keeps:
  assumes "usable_hash (env_externals E) (hdr_block_hash (bd_header block))"
  shows "run_keeps E c (evaluate_next E tip block info c)"
proof (rule run_keeps_okI)
  assume ok: "coord_ok E c"
  have "coord_keeps E c c'" if e: "evaluate_next E tip block info c = Some (Ok sn, c')" for sn c'
    using e
  proof (rule evaluate_next_Ok)
    fix tr db
    assume ev: "evaluate_sortition (env_externals E) (env_root E) (env_gen_range E) (sortition_db c) (bd_header block) (bd_ops block)
        (coord_burnchain c) tip info = Some (Ok ((sn, tr), db))" and c': "c' = c\<lparr>sortition_db := db\<rparr>"
    have n: "sn_sortition_id sn \<noteq> SENTINEL_ARRAY"
      using evaluate_stores(1) [OF coord_ok_inv [OF ok] ev] assms by (auto simp: usable_hash_def)
    show "coord_keeps E c c'"
      by (rule coord_keeps_grow)
        (use ok c' evaluate_grows [OF coord_ok_inv [OF ok] ev n] pipeline_evaluate [OF _ ev n] in \<open>auto simp: coord_ok_def\<close>)
  qed
  moreover have "c' = c" if "evaluate_next E tip block info c = Some (r, c')" "\<And>sn. r \<noteq> Ok sn" for r c'
    using that by (auto simp: evaluate_next_def split: option.splits res.splits prod.splits)
  ultimately show "run_keeps E c (evaluate_next E tip block info c)" unfolding run_keeps_def using coord_keeps_refl by metis
qed

lemma advance_tip_keeps:
  assumes ok: "coord_ok E c" and u: "usable_hash (env_externals E) (hdr_block_hash (bd_header block))"
    and e: "evaluate_next E tip block info c = Some (Ok sn, c')"
  shows "run_keeps E c' (advance_tip tip_sn (bd_header block) sn tip c')"
proof -
  from e obtain tr db where ev: "evaluate_sortition (env_externals E) (env_root E) (env_gen_range E) (sortition_db c) (bd_header block) (bd_ops block)
      (coord_burnchain c) tip info = Some (Ok ((sn, tr), db))" and c': "c' = c\<lparr>sortition_db := db\<rparr>" by (rule evaluate_next_Ok)
  from evaluate_stores(2) [OF coord_ok_inv [OF ok] ev] u obtain t where "t \<in> set (snapshots (sortition_db c'))" "sn_sortition_id sn = sn_sortition_id t"
    by (auto simp: usable_hash_def c')
  then show ?thesis by (auto simp: advance_tip_def Let_def run_keeps_def coord_keeps_def coord_ok_def)
qed

lemma process_unprocessed_keeps:
  assumes a: "chain_state_accepts E" and u: "usable_hash (env_externals E) (hdr_block_hash (bd_header block))"
  shows "run_keeps E c (process_unprocessed E tip block c)"
  unfolding process_unprocessed_def
  by (rule run_keeps_okI) (auto intro!: run_keeps_read_then run_keeps_then [OF evaluate_next_keeps [OF u]] run_keeps_then [OF advance_tip_keeps [OF _ u]]
      run_keeps_then [OF ready_keeps [OF a]])

lemma process_all_keeps:
  assumes a: "chain_state_accepts E"
    and "\<And>b. b \<in> set bs \<Longrightarrow> usable_hash (env_externals E) (hdr_block_hash (bd_header b))"
  shows "run_keeps E c (process_all E tip bs c)"
  using assms(2)
proof (induction bs arbitrary: tip c)
  case (Cons b bs)
  have "run_keeps E c (process_unprocessed E tip b c)" using Cons.prems by (intro process_unprocessed_keeps [OF a]) simp
  then show ?case using Cons by (auto intro!: run_keeps_then split: option.split)
qed simp

lemma burnchain_pass_keeps:
  assumes a: "chain_state_accepts E"
  shows "run_keeps E c (burnchain_pass E c)"
proof (rule run_keeps_okI)
  assume ok: "coord_ok E c"
  have "usable_hash (env_externals E) (hdr_block_hash (bd_header b))"
    if "unprocessed_loop (sortition_db c) (burnchain_blocks_db c) tip cursor [] = Some (Ok bs)" "b \<in> set bs" for tip cursor bs b
  proof -
    have "unprocessed_path (sortition_db c) (burnchain_blocks_db c) tip bs"
      by (rule unprocessed_loop_path [OF that(1)]) (simp_all add: unprocessed_path_def)
    with that(2) ok show ?thesis by (auto simp: unprocessed_path_def coord_ok_def)
  qed
  then show "run_keeps E c (burnchain_pass E c)" unfolding burnchain_pass_def
    by (intro run_keeps_read_then process_all_keeps [OF a])
qed

section \<open>What unwinding keeps\<close>

lemma snapshot_read:
  assumes "db_get_block_snapshot db sid = Ok (Some sn)"
  shows "sn \<in> set (snapshots db) \<and> sn_sortition_id sn = sid"
proof -
  have "filter (\<lambda>sn. sn_sortition_id sn = sid) (snapshots db) = [sn]"
    using assms by (auto simp: db_get_block_snapshot_def query_row_panic_def split: list.splits)
  then have "sn \<in> set (filter (\<lambda>sn. sn_sortition_id sn = sid) (snapshots db))" by simp
  then show ?thesis by simp
qed

lemma prepare_end_stored:
  assumes "get_prepare_end_for db tip anchor = Ok (Some sn)"
  shows "sn \<in> set (snapshots db)"
proof -
  from assms obtain sid where "db_get_block_snapshot db sid = Ok (Some sn)"
    by (auto simp: get_prepare_end_for_def and_then_Ok_iff expect_def split: option.splits)
  then show ?thesis using snapshot_read by blast
qed

lemma older_loop_stored:
  assumes "older_prepare_loop db anchor p = Some (Ok q)" and "p \<in> set (snapshots db)"
  shows "q \<in> set (snapshots db)"
proof -
  have "\<forall>q. y = Ok q \<longrightarrow> p \<in> set (snapshots db) \<longrightarrow> q \<in> set (snapshots db)" if "older_prepare_loop db anchor p = Some y" for y
  proof (rule older_prepare_loop.raw_induct [OF _ that], intro allI impI)
    fix loop db anchor p y q
    assume IH: "\<And>db anchor p y. loop db anchor p = Some y \<Longrightarrow> \<forall>q. y = Ok q \<longrightarrow> p \<in> set (snapshots db) \<longrightarrow> q \<in> set (snapshots db)"
      and step: "(case get_prepare_end_for db (sn_sortition_id p) anchor of
          Ok None \<Rightarrow> Some (Ok p)
        | Ok (Some older_prep_end) \<Rightarrow> loop db anchor older_prep_end
        | Err e \<Rightarrow> Some (Err (CoordBurnchainError e))
        | Panic \<Rightarrow> Some Panic) = Some y"
      and y: "y = Ok q" and p: "p \<in> set (snapshots db)"
    show "q \<in> set (snapshots db)"
      using step y p IH by (auto dest: prepare_end_stored split: res.splits option.splits)
  qed
  with assms show ?thesis by blast
qed

lemma unwind_keeps: "run_keeps E c (unwind_to_anchor E anchor c)"
proof (rule run_keeps_okI)
  assume ok: "coord_ok E c"
  have "run_keeps E c (case invalidate_descendants_of (sortition_db c) (sn_burn_header_hash p) of
         None \<Rightarrow> None
       | Some sort_db \<Rightarrow> Some (Ok (), c\<lparr>sortition_db := sort_db, canonical_chain_tip := ct,
           canonical_sortition_tip := Some (sn_sortition_id p), canonical_pox_id := pid\<rparr>))"
    if p: "p \<in> set (snapshots (sortition_db c))" for p ct pid
  proof (cases "invalidate_descendants_of (sortition_db c) (sn_burn_header_hash p)")
    case (Some db)
    have g: "db_grows (sortition_db c) db" by (rule updates_grow [OF invalidate_updates [OF Some]])
    have "pipeline (env_externals E) (env_root E) db" using ok Some by (auto simp: coord_ok_def intro: pipeline_invalidate)
    moreover obtain p' where "p' \<in> set (snapshots db)" "sn_sortition_id p = sn_sortition_id p'"
      using g p unfolding db_grows_def same_core_def by metis
    ultimately show ?thesis using Some g ok by (auto simp: coord_keeps_def coord_ok_def)
  qed simp
  then show "run_keeps E c (unwind_to_anchor E anchor c)" unfolding unwind_to_anchor_def
    by (auto intro!: run_keeps_read_then dest!: older_loop_stored simp: and_then_Ok_iff expect_def dest: prepare_end_stored split: option.splits)
qed

lemma handle_burn_keeps:
  assumes "handle_new_burnchain_block E c = Some y" and "chain_state_accepts E"
  shows "coord_keeps E c (snd y)"
proof -
  have "chain_state_accepts E \<longrightarrow> coord_keeps E c (snd y)"
  proof (rule handle_new_burnchain_block.raw_induct [OF _ assms(1)], rule impI)
    fix loop E c y
    assume IH: "\<And>E c y. loop E c = Some y \<Longrightarrow> chain_state_accepts E \<longrightarrow> coord_keeps E c (snd y)"
      and step: "(case burnchain_pass E c of
        None \<Rightarrow> None
      | Some (Ok None, c) \<Rightarrow> Some (Ok (), c)
      | Some (Ok (Some pox_anchor), c) \<Rightarrow>
          (case unwind_to_anchor E pox_anchor c of
             None \<Rightarrow> None
           | Some (Ok _, c) \<Rightarrow> loop E c
           | Some (Err e, c) \<Rightarrow> Some (Err e, c)
           | Some (Panic, c) \<Rightarrow> Some (Panic, c))
      | Some (Err e, c) \<Rightarrow> Some (Err e, c)
      | Some (Panic, c) \<Rightarrow> Some (Panic, c)) = Some y"
      and a: "chain_state_accepts E"
    from step obtain r1 c1 where p: "burnchain_pass E c = Some (r1, c1)" by (auto split: option.splits)
    have c1: "coord_keeps E c c1" using burnchain_pass_keeps [OF a, of c] p by (simp add: run_keeps_def)
    show "coord_keeps E c (snd y)"
    proof (cases "\<exists>anchor. r1 = Ok (Some anchor)")
      case True
      then obtain anchor where r1: "r1 = Ok (Some anchor)" by blast
      with step p obtain r2 c2 where u: "unwind_to_anchor E anchor c1 = Some (r2, c2)" by (auto split: option.splits)
      have "coord_keeps E c1 c2" using unwind_keeps [of E c1 anchor] u by (simp add: run_keeps_def)
      moreover have "snd y = c2 \<or> loop E c2 = Some y" using step p r1 u by (auto split: res.splits)
      ultimately show ?thesis using c1 IH [of E c2 y] a coord_keeps_trans by metis
    next
      case False
      then have "snd y = c1" using step p by (auto split: res.splits option.splits)
      with c1 show ?thesis by simp
    qed
  qed
  with assms(2) show ?thesis by simp
qed

lemma handle_burn_run_keeps: "chain_state_accepts E \<Longrightarrow> run_keeps E c (handle_new_burnchain_block E c)"
  using handle_burn_keeps by (fastforce simp: run_keeps_def)

lemma handle_stacks_keeps:
  assumes a: "chain_state_accepts E"
  shows "run_keeps E c (handle_new_stacks_block E c)"
  unfolding handle_new_stacks_block_def process_new_pox_anchor_def
  by (auto intro!: run_keeps_then [OF ready_keeps [OF a]] run_keeps_then [OF unwind_keeps] handle_burn_run_keeps [OF a] split: option.split)

section \<open>Every interleaving\<close>

text \<open>The states of a running coordinator: its own turns, and what other threads do between them. A block is
  stored under a hash from which no sortition identifier is the sentinel.\<close>

inductive coord_reachable :: "'s coord_env \<Rightarrow> SignalBools \<Rightarrow> 's ChainsCoordinator \<Rightarrow> bool" for E where
  coord_start: "pipeline (env_externals E) (env_root E) db \<Longrightarrow> burn_db_reachable (env_externals E) burn_db \<Longrightarrow>
    (\<And>h. h \<in> set (burnchain_db_block_headers burn_db) \<Longrightarrow> usable_hash (env_externals E) (hdr_block_hash h)) \<Longrightarrow>
    coordinator_new burn_db chain_state db burnchain = Ok c \<Longrightarrow> coord_reachable E no_signals c"
| coord_stacks_announced: "coord_reachable E b c \<Longrightarrow> coord_reachable E (snd (announce_new_stacks_block b)) c"
| coord_burn_announced: "coord_reachable E b c \<Longrightarrow> coord_reachable E (snd (announce_new_burn_block b)) c"
| coord_stopped: "coord_reachable E b c \<Longrightarrow> coord_reachable E (snd (stop_chains_coordinator b)) c"
| coord_block_stored: "coord_reachable E b c \<Longrightarrow> store_new_burnchain_block (env_externals E) (burnchain_blocks_db c) block = Ok (ops, burn_db) \<Longrightarrow>
    usable_hash (env_externals E) (hdr_block_hash (block_header block)) \<Longrightarrow> coord_reachable E b (c\<lparr>burnchain_blocks_db := burn_db\<rparr>)"
| coord_fed: "coord_reachable E b c \<Longrightarrow> coord_reachable E b (c\<lparr>chain_state_db := chain_state\<rparr>)"
| coord_turn: "coord_reachable E b c \<Longrightarrow> run_turn E b c = Some (running, b', c') \<Longrightarrow> coord_reachable E b' c'"

lemma run_turn_keeps:
  assumes "chain_state_accepts E" and "run_turn E b c = Some (running, b', c')"
  shows "coord_keeps E c c'"
  using assms(2) handle_burn_run_keeps [OF assms(1), of c] handle_stacks_keeps [OF assms(1), of c]
  by (auto simp: run_turn_def run_keeps_def split: prod.splits CoordinatorEvents.splits)

lemma canonical_tip_stored: "get_canonical_sortition_tip db = Ok tip \<Longrightarrow> \<exists>t \<in> set (snapshots db). tip = sn_sortition_id t"
  by (auto simp: get_canonical_sortition_tip_def expect_def dest!: first_by_least split: option.splits)

lemma reachable_coord_ok:
  assumes "coord_reachable E b c" and a: "chain_state_accepts E"
  shows "coord_ok E c"
  using assms(1)
proof induction
  case (coord_start db burn_db chain_state burnchain c)
  then show ?case by (auto simp: coordinator_new_def coord_ok_def and_then_Ok_iff dest!: canonical_tip_stored)
next
  case (coord_block_stored b c block ops burn_db)
  have h: "burnchain_db_block_headers burn_db = burnchain_db_block_headers (burnchain_blocks_db c) @ [block_header block]"
    using coord_block_stored(2) by (rule store_block_Ok)
  have "burn_db_reachable (env_externals E) burn_db" using coord_block_stored by (auto simp: coord_ok_def intro: burn_db_store)
  with coord_block_stored h show ?case by (auto simp: coord_ok_def)
next
  case (coord_turn b c running b' c')
  then show ?case using run_turn_keeps [OF a coord_turn(2)] by (simp add: coord_keeps_def)
qed (auto simp: coord_ok_def)


text \<open>A coordinator whose chain state has nothing to process.\<close>

definition example_env :: "unit coord_env" where
  "example_env = \<lparr>env_externals = plain_externals, env_root = cur_block, env_gen_range = (\<lambda>_ _. 0), block_headers = (\<lambda>_. []),
     process_blocks = (\<lambda>s db tip. (Ok [], s, db)), get_reward_set = (\<lambda>_ _ _ _ _. Ok [])\<rparr>"

definition example_coord :: "BurnchainDB \<Rightarrow> SortitionHandleTx \<Rightarrow> BlockSnapshot \<Rightarrow> unit ChainsCoordinator" where
  "example_coord burn_db db t = \<lparr>canonical_sortition_tip = Some (sn_sortition_id t), canonical_chain_tip = None, canonical_pox_id = None,
     burnchain_blocks_db = burn_db, chain_state_db = (), sortition_db = db, coord_burnchain = example_burnchain,
     stacks_blocks_processed = 0, sortitions_processed = 0\<rparr>"

lemma example_usable: "i \<noteq> 255 \<Longrightarrow> usable_hash plain_externals (example_block i)"
  by (auto simp: usable_hash_def SortitionId_new_def plain_externals_def example_block_def SENTINEL_ARRAY_def)

lemma example_accepts: "chain_state_accepts example_env"
  by (simp add: chain_state_accepts_def example_env_def)

text \<open>Blocks without transactions, for the examples.\<close>

definition empty_block :: "u64 \<Rightarrow> u8 \<Rightarrow> u8 \<Rightarrow> BurnchainBlock" where
  "empty_block height i parent = BitcoinBlk \<lparr>btcblk_height = height, btcblk_hash = example_block i, btcblk_parent_hash = example_block parent,
     btcblk_txs = [], btcblk_timestamp = 0\<rparr>"

definition empty_header :: "u64 \<Rightarrow> u8 \<Rightarrow> u8 \<Rightarrow> BurnchainBlockHeader" where
  "empty_header height i parent = \<lparr>hdr_block_height = height, hdr_block_hash = example_block i, hdr_parent_block_hash = example_block parent,
     hdr_num_txs = 0, hdr_timestamp = 0\<rparr>"

lemma empty_block_header [simp]: "block_header (empty_block height i parent) = empty_header height i parent"
  by (simp add: empty_block_def empty_header_def)

lemma store_empty_block:
  assumes "unat height < 2 ^ 63" and "example_block i \<notin> hdr_block_hash ` set (burnchain_db_block_headers db)"
  shows "store_new_burnchain_block X db (empty_block height i parent) =
    Ok ([], db\<lparr>burnchain_db_block_headers := burnchain_db_block_headers db @ [empty_header height i parent]\<rparr>)"
  using assms by (simp add: store_new_burnchain_block_def store_burnchain_db_entry_def get_blockstack_transactions_def
      apply_blockstack_txs_safety_checks_def store_blockstack_ops_def empty_block_def empty_header_def map_filter_def)

definition example_burn_db :: "u64 \<Rightarrow> BurnchainBlockHeader list \<Rightarrow> BurnchainDB" where
  "example_burn_db height hs = \<lparr>burnchain_db_block_headers = \<lparr>hdr_block_height = height, hdr_block_hash = example_block 1,
     hdr_parent_block_hash = SENTINEL_ARRAY, hdr_num_txs = 0, hdr_timestamp = 0\<rparr> # hs, burnchain_db_block_ops = []\<rparr>"

lemma example_burn_db_new: "unat height < 2 ^ 63 \<Longrightarrow> burn_db_reachable X (example_burn_db height [])"
  by (rule burn_db_new [of height "example_block 1" 0]) (simp add: burnchain_db_connect_def store_burnchain_db_entry_def example_burn_db_def)

lemma example_burn_db_store:
  assumes "burn_db_reachable X (example_burn_db height hs)" and "unat h < 2 ^ 63" and "i \<noteq> 1" and "example_block i \<notin> hdr_block_hash ` set hs"
  shows "burn_db_reachable X (example_burn_db height (hs @ [empty_header h i parent]))"
proof -
  have "store_new_burnchain_block X (example_burn_db height hs) (empty_block h i parent) = Ok ([], example_burn_db height (hs @ [empty_header h i parent]))"
    using assms(2-4) by (subst store_empty_block) (auto simp: example_burn_db_def example_block_inj)
  then show ?thesis by (rule burn_db_store [OF assms(1)])
qed


end
