(* ===== verification/CoordinatorStalls.thy ===== *)
theory CoordinatorStalls
  imports CoordinatorProperties
begin

text \<open>
  Two situations in which the chains coordinator never makes progress: a reorganisation of the burnchain,
  and the start of a reward cycle on a chain whose first block is not a multiple of the cycle length.
\<close>

section \<open>Reorganisations\<close>

text \<open>What a fork says of burn blocks does not change while the database grows.\<close>

lemma processed_kept:
  assumes "sort_inv db" and "sort_inv db'" and "db_grows db db'" and "t \<in> set (snapshots db)"
  shows "get_sortition_id db' h (sn_sortition_id t) = get_sortition_id db h (sn_sortition_id t)"
    and "is_sortition_processed db' h (sn_sortition_id t) = is_sortition_processed db h (sn_sortition_id t)"
proof -
  from assms(3,4) obtain t' where t': "sn_sortition_id t' = sn_sortition_id t" "view_at db' t' = view_at db t"
    unfolding db_grows_def same_core_def by metis
  have r: "index_ready (handle_index db)" "index_ready (handle_index db')" using assms(1,2) by (simp_all add: sort_inv_def)
  have "tx_get_indexed db' (sn_sortition_id t) k = tx_get_indexed db (sn_sortition_id t) k" for k
    using tx_get_view [OF r(1), of t k] tx_get_view [OF r(2), of t' k] t' by simp
  then show "get_sortition_id db' h (sn_sortition_id t) = get_sortition_id db h (sn_sortition_id t)"
    by (simp add: get_sortition_id_def get_sortition_id_for_bhh_def tx_get_indexed_def)
  then show "is_sortition_processed db' h (sn_sortition_id t) = is_sortition_processed db h (sn_sortition_id t)"
    by (simp add: is_sortition_processed_def)
qed

lemma unprocessed_loop_kept:
  assumes "unprocessed_loop db burn_db tip cursor acc = Some y" and "\<And>h. is_sortition_processed db' h tip = is_sortition_processed db h tip"
  shows "unprocessed_loop db' burn_db tip cursor acc = Some y"
proof -
  have "(\<forall>h. is_sortition_processed db' h tip = is_sortition_processed db h tip) \<longrightarrow> unprocessed_loop db' burn_db tip cursor acc = Some y"
  proof (rule unprocessed_loop.raw_induct [OF _ assms(1)], rule impI)
    fix loop db burn_db tip cursor acc y
    assume IH: "\<And>db burn_db tip cursor acc y. loop db burn_db tip cursor acc = Some y \<Longrightarrow>
        (\<forall>h. is_sortition_processed db' h tip = is_sortition_processed db h tip) \<longrightarrow> unprocessed_loop db' burn_db tip cursor acc = Some y"
      and step: "(case is_sortition_processed db cursor tip of
          Ok processed \<Rightarrow>
            if processed then Some (Ok acc)
            else (case get_burnchain_block burn_db cursor of
                    Ok current_block \<Rightarrow> loop db burn_db tip (hdr_parent_block_hash (bd_header current_block)) (current_block # acc)
                  | Err e \<Rightarrow> Some (Err (NonContiguousBurnchainBlock e))
                  | Panic \<Rightarrow> Some Panic)
        | Err e \<Rightarrow> Some (Err (CoordBurnchainError e))
        | Panic \<Rightarrow> Some Panic) = Some y"
      and eq: "\<forall>h. is_sortition_processed db' h tip = is_sortition_processed db h tip"
    then show "unprocessed_loop db' burn_db tip cursor acc = Some y"
      by (subst unprocessed_loop.simps) (auto split: res.splits if_splits)
  qed
  with assms(2) show ?thesis by simp
qed

text \<open>No Stacks block waits to be processed.\<close>

definition idle :: "'s coord_env \<Rightarrow> bool" where
  "idle E \<longleftrightarrow> (\<forall>s db tip. process_blocks E s db tip = (Ok [], s, db))"

text \<open>The burnchain has reorganised: its tip is two or more blocks above a block of the canonical
  sortition's fork, and the first of them is not above the canonical sortition.\<close>

definition behind_reorg :: "'s ChainsCoordinator \<Rightarrow> bool" where
  "behind_reorg c \<longleftrightarrow> (\<exists>t \<in> set (snapshots (sortition_db c)). \<exists>h b1 b2 bs. canonical_sortition_tip c = Some (sn_sortition_id t) \<and>
     get_canonical_chain_tip (burnchain_blocks_db c) = Ok h \<and>
     unprocessed_loop (sortition_db c) (burnchain_blocks_db c) (sn_sortition_id t) (hdr_block_hash h) [] = Some (Ok (b1 # b2 # bs)) \<and>
     hdr_block_height (bd_header b1) \<le> sn_block_height t)"

lemma idle_accepts: "idle E \<Longrightarrow> chain_state_accepts E"
  by (simp add: idle_def chain_state_accepts_def)

lemma idle_ready:
  assumes "idle E" and "process_ready_blocks E c = Some (r, c')"
  shows "c' = c \<and> (r = Ok None \<or> r = Panic)"
proof -
  have "pull_blocks E tip c = (Ok [], c)" for tip using assms(1) by (simp add: pull_blocks_def idle_def)
  then have "ready_loop E tip c = Some (Ok None, c)" for tip by (subst ready_loop.simps) simp
  with assms(2) show ?thesis by (auto simp: process_ready_blocks_def split: option.splits)
qed


lemma coord_then_SomeE:
  assumes "coord_then m f = Some (r, c)"
  obtains x c1 where "m = Some (Ok x, c1)" and "f x c1 = Some (r, c)"
  | r0 where "m = Some (r0, c)" and "\<And>x. r0 \<noteq> Ok x" and "\<And>x. r \<noteq> Ok x"
  using assms by (auto simp: coord_then_def split: option.splits res.splits prod.splits)

lemma coord_read_Some [simp]: "coord_read r c = Some (r', c') \<longleftrightarrow> r = Some r' \<and> c' = c"
  by (auto simp: coord_read_def)

lemma evaluate_next_other:
  assumes "evaluate_next E tip b info c = Some (r, c')"
  shows "canonical_sortition_tip c' = canonical_sortition_tip c"
  using assms by (auto simp: evaluate_next_def split: option.splits res.splits prod.splits)

text \<open>A block that is not above the canonical sortition leaves it canonical.\<close>

lemma low_block_keeps_tip:
  assumes idle: "idle E" and inv: "sort_inv (sortition_db c)" and t: "t \<in> set (snapshots (sortition_db c))"
    and low: "hdr_block_height (bd_header b) \<le> sn_block_height t"
    and run: "process_unprocessed E (sn_sortition_id t) b c = Some (r, c')"
  shows "canonical_sortition_tip c' = canonical_sortition_tip c \<and> (\<forall>x. r = Ok x \<longrightarrow> x = (sn_sortition_id t, None))"
proof -
  have tip: "tip_sn = t" if "and_then (map_err CoordDBError (db_get_block_snapshot (sortition_db c) (sn_sortition_id t))) expect = Ok tip_sn" for tip_sn
  proof -
    from that have "db_get_block_snapshot (sortition_db c) (sn_sortition_id t) = Ok (Some tip_sn)"
      by (auto simp: and_then_Ok_iff expect_def split: option.splits)
    from snapshot_read [OF this] show ?thesis using inv t by (auto simp: sort_inv_def distinct_map dest: inj_onD)
  qed
  have adv: "canonical_sortition_tip c1 = canonical_sortition_tip c0 \<and> r0 = Ok (sn_sortition_id t)"
    if "advance_tip t (bd_header b) sn (sn_sortition_id t) c0 = Some (r0, c1)" for sn c0 r0 c1
    using that low by (auto simp: advance_tip_def Let_def split: if_splits)
  show ?thesis using run unfolding process_unprocessed_def
    by (auto elim!: coord_then_SomeE dest!: tip evaluate_next_other idle_ready [OF idle] adv)
qed

text \<open>A block whose parent is unknown on the canonical fork fails.\<close>

lemma orphan_block_fails:
  assumes "is_sortition_processed (sortition_db c) (hdr_parent_block_hash (bd_header b)) tip = Ok False"
    and "process_unprocessed E tip b c = Some (r, c')"
  shows "c' = c \<and> (\<forall>x. r \<noteq> Ok x)"
proof -
  have "get_sortition_id (sortition_db c) (hdr_parent_block_hash (bd_header b)) tip = Ok None"
    using assms(1) by (auto simp: is_sortition_processed_def and_then_Ok_iff)
  then have "evaluate_next E tip b info c = Some (Err (FailedToProcessSortition MissingParentBlock), c)" for info
    by (simp add: evaluate_next_def evaluate_sortition_def ok_or_def)
  then show ?thesis using assms(2) unfolding process_unprocessed_def by (auto elim!: coord_then_SomeE)
qed

text \<open>Processing the blocks of a reorganisation fails at the second of them, at the latest.\<close>

lemma reorg_blocks_fail:
  assumes idle: "idle E" and ok: "coord_ok E c" and t: "t \<in> set (snapshots (sortition_db c))"
    and path: "unprocessed_path (sortition_db c) (burnchain_blocks_db c) (sn_sortition_id t) (b1 # b2 # bs)"
    and low: "hdr_block_height (bd_header b1) \<le> sn_block_height t"
    and run: "process_all E (sn_sortition_id t) (b1 # b2 # bs) c = Some (r, c')"
  shows "canonical_sortition_tip c' = canonical_sortition_tip c \<and> (\<forall>x. r \<noteq> Ok x)"
proof -
  have a: "chain_state_accepts E" by (rule idle_accepts [OF idle])
  have b1: "usable_hash (env_externals E) (hdr_block_hash (bd_header b1))" "hdr_parent_block_hash (bd_header b2) = hdr_block_hash (bd_header b1)"
    "is_sortition_processed (sortition_db c) (hdr_block_hash (bd_header b1)) (sn_sortition_id t) = Ok False"
    using path ok by (auto simp: unprocessed_path_def coord_ok_def)
  from run obtain m where m: "process_unprocessed E (sn_sortition_id t) b1 c = Some m" by (auto simp: coord_then_def split: option.splits)
  obtain r1 c1 where m_def: "m = (r1, c1)" by (cases m)
  note p1 = m [unfolded m_def]
  have low1: "canonical_sortition_tip c1 = canonical_sortition_tip c" "\<And>x. r1 = Ok x \<Longrightarrow> x = (sn_sortition_id t, None)"
    using low_block_keeps_tip [OF idle coord_ok_inv [OF ok] t low p1] by auto
  have k: "coord_keeps E c c1" using process_unprocessed_keeps [OF a b1(1)] p1 by (simp add: run_keeps_def)
  then have ok1: "coord_ok E c1" and g: "db_grows (sortition_db c) (sortition_db c1)" using ok by (auto simp: coord_keeps_def)
  show ?thesis
  proof (cases "r1 = Ok (sn_sortition_id t, None)")
    case True
    have "is_sortition_processed (sortition_db c1) (hdr_parent_block_hash (bd_header b2)) (sn_sortition_id t) = Ok False"
      using processed_kept(2) [OF coord_ok_inv [OF ok] coord_ok_inv [OF ok1] g t] b1 by simp
    note orphan = orphan_block_fails [OF this, of E]
    have "process_all E (sn_sortition_id t) (b2 # bs) c1 = Some (r, c')" using run p1 True by (simp add: coord_then_def)
    then show ?thesis unfolding process_all.simps
      by (rule coord_then_SomeE) (use orphan low1(1) in \<open>blast, metis\<close>)
  next
    case False
    then have "\<And>x. r1 \<noteq> Ok x" using low1(2) by blast
    then show ?thesis using run p1 low1(1) by (auto simp: coord_then_def split: res.splits)
  qed
qed

lemma behind_reorg_kept:
  assumes ok: "coord_ok E c" "coord_ok E c'" and g: "db_grows (sortition_db c) (sortition_db c')"
    and same: "canonical_sortition_tip c' = canonical_sortition_tip c" "burnchain_blocks_db c' = burnchain_blocks_db c"
    and "behind_reorg c"
  shows "behind_reorg c'"
proof -
  from assms(6) obtain t h b1 b2 bs where b: "t \<in> set (snapshots (sortition_db c))" "canonical_sortition_tip c = Some (sn_sortition_id t)"
    "get_canonical_chain_tip (burnchain_blocks_db c) = Ok h"
    "unprocessed_loop (sortition_db c) (burnchain_blocks_db c) (sn_sortition_id t) (hdr_block_hash h) [] = Some (Ok (b1 # b2 # bs))"
    "hdr_block_height (bd_header b1) \<le> sn_block_height t" unfolding behind_reorg_def by blast
  from g b(1) obtain t' where t': "t' \<in> set (snapshots (sortition_db c'))" "same_core t' t" unfolding db_grows_def by blast
  have "unprocessed_loop (sortition_db c') (burnchain_blocks_db c) (sn_sortition_id t) (hdr_block_hash h) [] = Some (Ok (b1 # b2 # bs))"
    by (rule unprocessed_loop_kept [OF b(4)]) (rule processed_kept(2) [OF coord_ok_inv [OF ok(1)] coord_ok_inv [OF ok(2)] g b(1)])
  then show ?thesis unfolding behind_reorg_def same using t' b by (intro bexI [OF _ t'(1)] exI) (auto simp: same_core_def)
qed

lemma reorg_pass_fails:
  assumes idle: "idle E" and ok: "coord_ok E c" and behind: "behind_reorg c" and p: "burnchain_pass E c = Some (r, c')"
  shows "canonical_sortition_tip c' = canonical_sortition_tip c \<and> (\<forall>x. r \<noteq> Ok x)"
proof -
  from behind obtain t h b1 b2 bs where b: "t \<in> set (snapshots (sortition_db c))" "canonical_sortition_tip c = Some (sn_sortition_id t)"
    "get_canonical_chain_tip (burnchain_blocks_db c) = (Ok h :: (burnchain_error, BurnchainBlockHeader) res)"
    "unprocessed_loop (sortition_db c) (burnchain_blocks_db c) (sn_sortition_id t) (hdr_block_hash h) [] = Some (Ok (b1 # b2 # bs))"
    "hdr_block_height (bd_header b1) \<le> sn_block_height t" unfolding behind_reorg_def by blast
  have pass: "burnchain_pass E c = process_all E (sn_sortition_id t) (b1 # b2 # bs) c"
    by (simp only: burnchain_pass_def b coord_read_def coord_then_def map_err.simps expect_def option.simps prod.case res.case)
  have "unprocessed_path (sortition_db c) (burnchain_blocks_db c) (sn_sortition_id t) (b1 # b2 # bs)"
    by (rule unprocessed_loop_path [OF b(4)]) (simp_all add: unprocessed_path_def)
  from reorg_blocks_fail [OF idle ok b(1) this b(5) p [unfolded pass]] show ?thesis .
qed

text \<open>A pass that fails is the result of the call.\<close>

lemma failed_pass:
  assumes "burnchain_pass E c = Some (r, c')" and "\<And>x. r \<noteq> Ok x"
  shows "\<exists>r'. handle_new_burnchain_block E c = Some (r', c') \<and> r' \<noteq> Ok ()"
  using assms by (subst handle_new_burnchain_block.simps) (auto split: res.split)


section \<open>What a fork knows\<close>

text \<open>The fork of a sortition knows exactly the burn blocks of its rows.\<close>

lemma fork_sortition_id:
  assumes inv: "sort_inv db" and c: "stored_chain db rows"
  shows "get_sortition_id_for_bhh (db\<lparr>chain_tip := sn_sortition_id (last rows)\<rparr>) h =
    Ok (last_write (map (\<lambda>r. (sn_burn_header_hash r, sn_sortition_id r)) rows) h)"
proof -
  let ?T = "db\<lparr>chain_tip := sn_sortition_id (last rows)\<rparr>"
  have k: "chain_keys ?T rows" and r: "index_ready (handle_index ?T)"
    using chain_handle [OF inv c] by (auto simp: handle_on_def sort_inv_def)
  have "tx_get_indexed ?T (sn_sortition_id (last rows)) (SortitionIdForBhh h) =
      Ok (map_option VHash (last_write (map (\<lambda>r. (sn_burn_header_hash r, sn_sortition_id r)) rows) h))"
    unfolding tx_get_view [OF r] using k by (simp add: chain_keys_def)
  then show ?thesis by (simp add: get_sortition_id_for_bhh_def option.case_eq_if map_option_case split: option.split)
qed

lemma fork_processed:
  assumes "sort_inv db" and "stored_chain db rows"
  shows "is_sortition_processed db h (sn_sortition_id (last rows)) = Ok (h \<in> sn_burn_header_hash ` set rows)"
proof -
  have "last_write (map (\<lambda>r. (sn_burn_header_hash r, sn_sortition_id r)) rows) h \<noteq> None \<longleftrightarrow> h \<in> sn_burn_header_hash ` set rows"
    by (force simp: last_write_def map_of_eq_None_iff)
  then show ?thesis by (simp add: is_sortition_processed_def get_sortition_id_def fork_sortition_id [OF assms])
qed

section \<open>A reorganisation of one block\<close>

lemma run_then_returns: "m \<noteq> None \<Longrightarrow> (\<And>x. f x \<noteq> None) \<Longrightarrow> run_then m f \<noteq> None"
  by (cases m) (auto split: res.split)

lemma empty_block_evaluates: "evaluate_sortition X root gen_range db header [] burnchain tip info \<noteq> None"
proof -
  have ops: "process_block_txs X root tx parent header burnchain [] info pox recip \<noteq> None" for tx parent pox recip
    by (simp add: process_block_txs_def process_block_ops_def check_block_ops_def split: res.split)
  have store: "run_then (Some (map_err BurnDBError (store_transition_ops d i tr))) (\<lambda>d. Some (f d)) \<noteq> None" for d i tr and f :: "_ \<Rightarrow> (burnchain_error, 'z) res"
    by (simp split: res.split)
  show ?thesis unfolding evaluate_sortition_def Let_def
    by (intro run_then_returns ops) (simp_all only: prod.case_eq_if store not_False_eq_True option.distinct)
qed

text \<open>A block of no operations that does not start a reward cycle is processed to a result.\<close>

lemma empty_block_returns:
  assumes "idle E" and "bd_ops b = []" and "is_reward_cycle_start (coord_burnchain c) (hdr_block_height (bd_header b)) = (Ok False :: (coordinator_error, bool) res)"
  shows "process_unprocessed E tip b c \<noteq> None"
proof -
  have info: "run_then (Some (expect t)) (\<lambda>tip. get_reward_cycle_info E (hdr_block_height (bd_header b)) p tip (coord_burnchain c) s db) \<noteq> None" for t p s db
    by (intro run_then_returns) (simp_all add: get_reward_cycle_info_def assms(3))
  have eval: "evaluate_next E tip b i c \<noteq> None" for i
    using empty_block_evaluates [of "env_externals E" "env_root E" "env_gen_range E" "sortition_db c" "bd_header b" "coord_burnchain c" tip i]
    by (auto simp: evaluate_next_def assms(2) split: option.split res.split prod.split)
  have ready: "process_ready_blocks E c' \<noteq> None" for c'
  proof -
    have "pull_blocks E t c' = (Ok [], c')" for t using assms(1) by (simp add: pull_blocks_def idle_def)
    then show ?thesis by (auto simp: process_ready_blocks_def ready_loop.simps split: option.split)
  qed
  have bind: "coord_then m f \<noteq> None" if "m \<noteq> None" "\<And>x c. m = Some (Ok x, c) \<Longrightarrow> f x c \<noteq> None" for m and f :: "_ \<Rightarrow> _ \<Rightarrow> ('a, _) coord_run"
    using that by (auto simp: coord_then_def split: option.split res.split prod.split)
  show ?thesis unfolding process_unprocessed_def
    by (intro bind) (use info eval ready in \<open>auto simp: coord_read_def advance_tip_def Let_def\<close>)
qed

lemma example_idle: "idle example_env"
  by (simp add: example_env_def idle_def)

definition reorg_burn_db :: BurnchainDB where
  "reorg_burn_db = example_burn_db 0 [empty_header 1 2 1, empty_header 1 3 1, empty_header 2 4 3]"

lemma reorg_burn_db_reachable: "burn_db_reachable X reorg_burn_db"
proof -
  have h: "hdr_block_hash (empty_header h i p) = example_block i" for h i p by (simp add: empty_header_def)
  have "burn_db_reachable X (example_burn_db 0 [])" by (rule example_burn_db_new) simp
  from example_burn_db_store [OF this, of 1 2 1] have "burn_db_reachable X (example_burn_db 0 [empty_header 1 2 1])" by simp
  from example_burn_db_store [OF this, of 1 3 1] have "burn_db_reachable X (example_burn_db 0 [empty_header 1 2 1, empty_header 1 3 1])"
    by (simp add: h example_block_inj)
  from example_burn_db_store [OF this, of 2 4 3] show ?thesis by (simp add: h example_block_inj reorg_burn_db_def)
qed

lemma reorg_tip: "get_canonical_chain_tip reorg_burn_db = Ok (empty_header 2 4 3)"
  by (simp add: get_canonical_chain_tip_def reorg_burn_db_def example_burn_db_def first_by_def empty_header_def expect_def)

lemma reorg_blocks:
  "get_burnchain_block reorg_burn_db (example_block 3) = Ok \<lparr>bd_header = empty_header 1 3 1, bd_ops = []\<rparr>"
  "get_burnchain_block reorg_burn_db (example_block 4) = Ok \<lparr>bd_header = empty_header 2 4 3, bd_ops = []\<rparr>"
  by (simp_all add: get_burnchain_block_def reorg_burn_db_def example_burn_db_def empty_header_def ok_or_def example_block_inj)

lemma empty_blocks_return:
  assumes idle: "idle E" and "coord_ok E c"
    and "\<And>b. b \<in> set bs \<Longrightarrow> bd_ops b = [] \<and> usable_hash (env_externals E) (hdr_block_hash (bd_header b)) \<and>
      is_reward_cycle_start (coord_burnchain c) (hdr_block_height (bd_header b)) = (Ok False :: (coordinator_error, bool) res)"
  shows "process_all E tip bs c \<noteq> None"
  using assms(2,3)
proof (induction bs arbitrary: tip c)
  case (Cons b bs)
  from empty_block_returns [OF idle, of b c tip] Cons.prems obtain r c1 where p: "process_unprocessed E tip b c = Some (r, c1)" by fastforce
  have "run_keeps E c (process_unprocessed E tip b c)"
    using Cons.prems by (intro process_unprocessed_keeps [OF idle_accepts [OF idle]]) simp
  then have k: "coord_ok E c1" "coord_burnchain c1 = coord_burnchain c" using Cons.prems(1) p by (auto simp: run_keeps_def coord_keeps_def)
  have "process_all E tip' bs c1 \<noteq> None" for tip' using Cons.IH [OF k(1)] Cons.prems(2) k(2) by simp
  then show ?case by (auto simp: p coord_then_def split: res.split option.split prod.split)
qed simp

lemma reorg_example:
  obtains c where "coord_ok example_env c" and "behind_reorg c" and "burnchain_pass example_env c \<noteq> None"
proof -
  obtain db a b where e: "pipeline plain_externals cur_block db" "stored_chain db [a, b]"
    "sn_burn_header_hash a = example_block 1" "sn_burn_header_hash b = example_block 2" "sn_block_height b = 1" by (rule example_chain)
  let ?c = "example_coord reorg_burn_db db b"
  let ?b1 = "\<lparr>bd_header = empty_header 1 3 1, bd_ops = []\<rparr>" and ?b2 = "\<lparr>bd_header = empty_header 2 4 3, bd_ops = []\<rparr>"
  have env: "env_externals example_env = plain_externals" "env_root example_env = cur_block"
    by (simp_all add: example_env_def)
  have c: "sortition_db ?c = db" "burnchain_blocks_db ?c = reorg_burn_db" "canonical_sortition_tip ?c = Some (sn_sortition_id b)"
    "coord_burnchain ?c = example_burnchain" by (simp_all add: example_coord_def)
  have b: "b \<in> set (snapshots db)" using e(2) by (simp add: stored_chain_def)
  have hash: "hdr_block_hash (empty_header h i p) = example_block i" "hdr_parent_block_hash (empty_header h i p) = example_block p"
    "hdr_block_height (empty_header h i p) = h" for h i p by (simp_all add: empty_header_def)
  have usable: "usable_hash plain_externals (hdr_block_hash h)" if "h \<in> set (burnchain_db_block_headers reorg_burn_db)" for h
    using that by (auto simp: reorg_burn_db_def example_burn_db_def hash intro!: example_usable)
  have ok: "coord_ok example_env ?c"
    unfolding coord_ok_def c env using e(1) b reorg_burn_db_reachable usable by blast
  have known: "is_sortition_processed db h (sn_sortition_id b) = Ok (h = example_block 1 \<or> h = example_block 2)" for h
    using fork_processed [OF reachable_sort_inv [OF pipeline_reachable [OF e(1)]] e(2), of h] e(3,4) by simp
  have loop: "unprocessed_loop db reorg_burn_db (sn_sortition_id b) (example_block 4) [] = Some (Ok [?b1, ?b2])"
    by (simp add: unprocessed_loop.simps known example_block_inj reorg_blocks hash)
  have behind: "behind_reorg ?c" unfolding behind_reorg_def c
    by (intro bexI [OF _ b] exI [of _ "empty_header 2 4 3"] exI [of _ ?b1] exI [of _ ?b2] exI [of _ "[]"])
      (simp add: reorg_tip loop hash e(5))
  have start: "is_reward_cycle_start example_burnchain 1 = (Ok False :: (coordinator_error, bool) res)"
    "is_reward_cycle_start example_burnchain 2 = (Ok False :: (coordinator_error, bool) res)"
    by (simp_all add: is_reward_cycle_start_def example_burnchain_def)
  have "process_all example_env (sn_sortition_id b) [?b1, ?b2] ?c \<noteq> None"
    by (rule empty_blocks_return [OF example_idle ok]) (auto simp: env c hash start intro!: example_usable)
  then have "burnchain_pass example_env ?c \<noteq> None"
    by (simp add: burnchain_pass_def c reorg_tip hash loop coord_read_def coord_then_def expect_def)
  with that ok behind show ?thesis by blast
qed


section \<open>The start of a reward cycle\<close>

text \<open>The next block to process is a child of the canonical sortition and starts a reward cycle.\<close>

definition at_cycle_start :: "'s ChainsCoordinator \<Rightarrow> bool" where
  "at_cycle_start c \<longleftrightarrow> (\<exists>t \<in> set (snapshots (sortition_db c)). \<exists>h b bs. canonical_sortition_tip c = Some (sn_sortition_id t) \<and>
     get_canonical_chain_tip (burnchain_blocks_db c) = Ok h \<and>
     unprocessed_loop (sortition_db c) (burnchain_blocks_db c) (sn_sortition_id t) (hdr_block_hash h) [] = Some (Ok (b # bs)) \<and>
     hdr_parent_block_hash (bd_header b) = sn_burn_header_hash t \<and> hdr_block_height (bd_header b) = sn_block_height t + 1 \<and>
     bch_first_block_height (coord_burnchain c) < sn_block_height t \<and> unat (sn_block_height t) < 2 ^ 32 \<and>
     is_reward_cycle_start (coord_burnchain c) (sn_block_height t + 1) = (Ok True :: (coordinator_error, bool) res))"

lemma parent_of_cycle_start:
  assumes start: "is_reward_cycle_start b (h + 1) = (Ok True :: ('e, bool) res)" and lt: "bch_first_block_height b < h" and h: "unat h < 2 ^ 32"
  shows "reward_cycle_length (pox_constants b) \<noteq> 0 \<and>
    unat ((ucast h :: u32) mod reward_cycle_length (pox_constants b)) = unat (bch_first_block_height b) mod unat (reward_cycle_length (pox_constants b))"
proof -
  let ?f = "unat (bch_first_block_height b)" and ?L = "unat (reward_cycle_length (pox_constants b))"
  have h1: "unat (h + 1) = unat h + 1" using h by (simp add: unat_word_ariths)
  obtain n where n: "unat h = ?f + n" "0 < n" using lt by (metis less_imp_add_positive word_less_nat_alt)
  have eff: "unat (h + 1 - bch_first_block_height b) = n + 1"
    using n h1 by (subst unat_sub) (auto simp: word_le_nat_alt)
  have s: "ucast (reward_cycle_length (pox_constants b)) \<noteq> (0 :: u64)"
    "(h + 1 - bch_first_block_height b) mod ucast (reward_cycle_length (pox_constants b)) = 1"
    using start by (auto simp: is_reward_cycle_start_def Let_def split: if_splits)
  have nz: "?L \<noteq> 0" using s(1) unat_cycle_length [of "reward_cycle_length (pox_constants b)"] by (metis unsigned_0 word_unat_eq_iff)
  have "(n + 1) mod ?L = 1"
    using arg_cong [OF s(2), of unat] by (simp add: unat_mod eff unat_cycle_length)
  then have "n mod ?L = 0" using nz by (metis add_diff_cancel_right' dvd_minus_mod mod_0_imp_dvd dvd_imp_mod_0)
  then have "unat h mod ?L = ?f mod ?L" using n(1) by (metis add.right_neutral mod_add_right_eq)
  moreover have "unat (ucast h :: u32) = unat h" using h by (simp add: unsigned_ucast_eq take_bit_nat_eq_self_iff)
  ultimately show ?thesis using nz by (auto simp: unat_mod)
qed

lemma anchor_of_misaligned_cycle:
  assumes inv: "sort_inv db" and t: "t \<in> set (snapshots db)"
    and start: "is_reward_cycle_start b (sn_block_height t + 1) = (Ok True :: (coordinator_error, bool) res)"
    and h: "bch_first_block_height b < sn_block_height t" "unat (sn_block_height t) < 2 ^ 32"
    and mis: "unat (bch_first_block_height b) mod unat (reward_cycle_length (pox_constants b)) \<noteq> 0"
  shows "get_chosen_pox_anchor (db\<lparr>chain_tip := sn_sortition_id t\<rparr>) (sn_burn_header_hash t) (pox_constants b) = Some (Err NotPrepareEndBlock)"
proof -
  obtain rows where rows: "last rows = t" "stored_chain db rows" using inv t by (auto simp: sort_inv_def)
  then obtain front where front: "rows = front @ [t]" by (metis append_butlast_last_id stored_chain_def)
  have id: "get_sortition_id_for_bhh (db\<lparr>chain_tip := sn_sortition_id t\<rparr>) (sn_burn_header_hash t) = Ok (Some (sn_sortition_id t))"
    using fork_sortition_id [OF inv rows(2), of "sn_burn_header_hash t"] by (simp add: rows(1)) (simp add: front)
  have "find (\<lambda>sn. sn_sortition_id sn = sn_sortition_id t) (snapshots db) = Some t"
    using snapshot_of_id(1) [OF inv t] by (auto simp: find_filter db_get_block_snapshot_def query_row_panic_def split: list.splits)
  then have height: "get_block_height_of (db\<lparr>chain_tip := sn_sortition_id t\<rparr>) (sn_sortition_id t) = Ok (Some (ucast (sn_block_height t)))"
    using h(2) by (simp add: get_block_height_of_def)
  note p = parent_of_cycle_start [OF start h]
  have nz: "reward_cycle_length (pox_constants b) \<noteq> 0" using p by blast
  have "unat ((ucast (sn_block_height t) :: u32) mod reward_cycle_length (pox_constants b)) \<noteq> unat (0 :: u32)"
    unfolding p [THEN conjunct2] using mis by (simp only: unsigned_0 not_False_eq_True)
  then have "(ucast (sn_block_height t) :: u32) mod reward_cycle_length (pox_constants b) \<noteq> 0" by metis
  then show ?thesis using nz unfolding get_chosen_pox_anchor_def id
    by (simp only: height map_err.simps and_then.simps ok_or_def expect_def option.simps if_False if_True res.case not_False_eq_True)
qed

text \<open>C40. On a burnchain whose first block is not at a multiple of the reward-cycle length, as on mainnet,
  the coordinator never enters a reward cycle: the cycles are counted from the first block, the anchor
  block is looked for at multiples of the length, so the block that starts a cycle is rejected as not ending
  a prepare phase. The call fails and leaves the coordinator exactly as it was, so it fails
  at every later call.\<close>

theorem misaligned_cycle_never_starts:
  assumes "coord_ok E c" and "at_cycle_start c"
    and "unat (bch_first_block_height (coord_burnchain c)) mod unat (reward_cycle_length (pox_constants (coord_burnchain c))) \<noteq> 0"
  shows "handle_new_burnchain_block E c = Some (Err NotPrepareEndBlock, c)"
proof -
  note inv = coord_ok_inv [OF assms(1)]
  from assms(2) obtain t h b bs where t: "t \<in> set (snapshots (sortition_db c))" "canonical_sortition_tip c = Some (sn_sortition_id t)"
    "get_canonical_chain_tip (burnchain_blocks_db c) = (Ok h :: (burnchain_error, BurnchainBlockHeader) res)"
    "unprocessed_loop (sortition_db c) (burnchain_blocks_db c) (sn_sortition_id t) (hdr_block_hash h) [] = Some (Ok (b # bs))"
    "hdr_parent_block_hash (bd_header b) = sn_burn_header_hash t" "hdr_block_height (bd_header b) = sn_block_height t + 1"
    "bch_first_block_height (coord_burnchain c) < sn_block_height t" "unat (sn_block_height t) < 2 ^ 32"
    "is_reward_cycle_start (coord_burnchain c) (sn_block_height t + 1) = (Ok True :: (coordinator_error, bool) res)"
    unfolding at_cycle_start_def by blast
  have "get_reward_cycle_info E (hdr_block_height (bd_header b)) (hdr_parent_block_hash (bd_header b)) (sn_sortition_id t) (coord_burnchain c)
      (chain_state_db c) (sortition_db c) = Some (Err NotPrepareEndBlock)"
    using anchor_of_misaligned_cycle [OF inv t(1,9,7,8) assms(3)] t(9) by (simp add: get_reward_cycle_info_def t(5,6))
  then have "process_unprocessed E (sn_sortition_id t) b c = Some (Err NotPrepareEndBlock, c)"
    using snapshot_of_id(1) [OF inv t(1)] by (simp add: process_unprocessed_def coord_then_def coord_read_def t(2) expect_def)
  then have "burnchain_pass E c = Some (Err NotPrepareEndBlock, c)"
    by (simp add: burnchain_pass_def coord_then_def coord_read_def t(2-4) expect_def)
  then show ?thesis by (simp add: handle_new_burnchain_block.simps)
qed

text \<open>Mainnet, at block 374602.\<close>

theorem misaligned_cycle_never_starts_witness:
  "\<exists>c. Burnchain_new ''/tmp'' ''bitcoin'' ''mainnet'' = Ok (coord_burnchain c) \<and> at_cycle_start c \<and>
     handle_new_burnchain_block example_env c = Some (Err NotPrepareEndBlock, c)"
proof -
  obtain bc where bc: "Burnchain_new ''/tmp'' ''bitcoin'' ''mainnet'' = Ok bc" "pox_constants bc = \<lparr>reward_cycle_length = 1000, prepare_length = 240,
      anchor_threshold = 192, pox_rejection_fraction = 25\<rparr>" "bch_first_block_height bc = 373601"
    by (simp add: Burnchain_new_def mainnet_default_def PoxConstants_new_def bitcoin_mainnet_def)
  have "374601 < BLOCK_HEIGHT_MAX" by (simp add: BLOCK_HEIGHT_MAX_def)
  then obtain db f where d: "pipeline plain_externals cur_block db" "snapshots db = [f]" "stored_chain db [f]"
    "f = snapshot_initial plain_externals 374601 (example_block 1) 0\<lparr>sn_index_root := example_block 1\<rparr>" by (rule genesis_at)
  have f: "sn_block_height f = 374601" "sn_burn_header_hash f = example_block 1" by (simp_all add: d(4) snapshot_initial_def)
  define bdb where "bdb = example_burn_db 374601 [empty_header 374602 2 1]"
  let ?c = "example_coord bdb db f\<lparr>coord_burnchain := bc\<rparr>" and ?b = "\<lparr>bd_header = empty_header 374602 2 1, bd_ops = []\<rparr>"
  have c: "sortition_db ?c = db" "burnchain_blocks_db ?c = bdb" "canonical_sortition_tip ?c = Some (sn_sortition_id f)"
    "coord_burnchain ?c = bc" by (simp_all add: example_coord_def)
  have "burn_db_reachable plain_externals bdb"
    using example_burn_db_store [OF example_burn_db_new, of 374601 374602 2 plain_externals 1] by (simp add: bdb_def)
  then have ok: "coord_ok example_env ?c"
    unfolding coord_ok_def c using d(1,2) by (auto simp: example_env_def bdb_def example_burn_db_def empty_header_def intro!: example_usable)
  have known: "is_sortition_processed db h (sn_sortition_id f) = Ok (h = example_block 1)" for h
    using fork_processed [OF reachable_sort_inv [OF pipeline_reachable [OF d(1)]] d(3), of h] f(2) by simp
  have "get_burnchain_block bdb (example_block 2) = Ok ?b"
    by (simp add: get_burnchain_block_def bdb_def example_burn_db_def empty_header_def ok_or_def example_block_inj)
  then have loop: "unprocessed_loop db bdb (sn_sortition_id f) (example_block 2) [] = Some (Ok [?b])"
    by (simp add: unprocessed_loop.simps known example_block_inj) (simp add: empty_header_def)
  have tip: "get_canonical_chain_tip bdb = Ok (empty_header 374602 2 1)"
    by (simp add: get_canonical_chain_tip_def bdb_def example_burn_db_def first_by_def empty_header_def expect_def)
  have start: "at_cycle_start ?c" unfolding at_cycle_start_def c
    by (intro bexI [of _ f] exI [of _ "empty_header 374602 2 1"] exI [of _ ?b] exI [of _ "[]"])
      (simp_all add: tip loop f d(2) bc is_reward_cycle_start_def, simp_all add: empty_header_def loop)
  from misaligned_cycle_never_starts [OF ok start] bc start show ?thesis by (intro exI [of _ ?c]) (simp add: c)
qed

end
