(* ===== verification/Bases.thy ===== *)
theory Bases
  imports Script
begin

text \<open>
  Numbers written as lists of digits in some base, least significant digit first: the facts shared by the text
  encodings of \<^verbatim>\<open>src/address\<close>, which all convert a byte string to another base and keep its leading zeros.
\<close>

section \<open>Numbers in a base\<close>

text \<open>Removing the zeros at the end of a little-endian list of digits.\<close>

definition strip_zeros :: "'a \<Rightarrow> 'a list \<Rightarrow> 'a list" where
  "strip_zeros z xs = rev (dropWhile (\<lambda>x. x = z) (rev xs))"

text \<open>The value of a little-endian list of digits.\<close>

primrec digits_value :: "nat \<Rightarrow> nat list \<Rightarrow> nat" where
  "digits_value b [] = 0"
| "digits_value b (d # ds) = d + b * digits_value b ds"

lemma digits_value_append: "digits_value b (xs @ ys) = digits_value b xs + b ^ length xs * digits_value b ys"
  by (induction xs) (simp_all add: algebra_simps)

lemma digits_value_carry:
  "digits_value b xs + b ^ length xs * w = digits_value b (xs @ [w mod b]) + b ^ length (xs @ [w mod b]) * (w div b)"
proof -
  have "b ^ length xs * w = b ^ length xs * (w mod b + b * (w div b))" by simp
  then show ?thesis by (simp only: digits_value_append distrib_left) simp
qed

lemma digits_value_zeros [simp]: "digits_value b (replicate n 0) = 0"
  by (induction n) simp_all

lemma digits_value_less: "\<forall>d \<in> set ds. d < b \<Longrightarrow> digits_value b ds < b ^ length ds"
proof (induction ds)
  case (Cons d ds)
  then have "d < b" "digits_value b ds + 1 \<le> b ^ length ds" by auto
  then have "b * (digits_value b ds + 1) \<le> b * b ^ length ds" "d < b" by (simp_all del: add_Suc_right add: mult_le_mono2)
  then show ?case by simp
qed simp

lemma strip_zeros_snoc [simp]: "strip_zeros z (xs @ [x]) = (if x = z then strip_zeros z xs else xs @ [x])"
  by (simp add: strip_zeros_def)

lemma strip_zeros_Nil [simp]: "strip_zeros z [] = []"
  by (simp add: strip_zeros_def)

lemma strip_zeros_last: "strip_zeros z xs \<noteq> [] \<Longrightarrow> last (strip_zeros z xs) \<noteq> z"
  by (induction xs rule: rev_induct) auto

lemma strip_zeros_value: "digits_value b (strip_zeros 0 xs) = digits_value b xs"
  by (induction xs rule: rev_induct) (auto simp: digits_value_append)

lemma strip_zeros_subset: "set (strip_zeros z xs) \<subseteq> set xs"
  by (induction xs rule: rev_induct) auto

lemma strip_zeros_map: "inj_on f (insert z (set xs)) \<Longrightarrow> strip_zeros (f z) (map f xs) = map f (strip_zeros z xs)"
  by (induction xs rule: rev_induct) (auto simp: inj_on_def)

text \<open>Digits without leading zeros are determined by their value.\<close>

lemma digits_unique:
  assumes "\<forall>d \<in> set xs. d < b" "\<forall>d \<in> set ys. d < b" "xs \<noteq> [] \<longrightarrow> last xs \<noteq> 0" "ys \<noteq> [] \<longrightarrow> last ys \<noteq> 0"
    and "digits_value b xs = digits_value b ys"
  shows "xs = ys"
  using assms
proof (induction xs arbitrary: ys)
  case Nil
  have "digits_value b zs > 0" if "zs \<noteq> []" "last zs \<noteq> 0" "\<forall>d \<in> set zs. d < b" for zs
    using that
  proof (induction zs)
    case (Cons d zs)
    then show ?case by (cases "zs = []") (auto intro: Nat.gr0I)
  qed simp
  with Nil show ?case by (metis digits_value.simps(1) less_numeral_extra(3))
next
  case (Cons x xs)
  have pos: "0 < b" using Cons.prems(1) by auto
  show ?case
  proof (cases ys)
    case Nil
    with Cons.prems have "x + b * digits_value b xs = 0" by simp
    then have "x = 0" "digits_value b xs = digits_value b []" using pos by auto
    with Cons.IH [of "[]"] Cons.prems have "xs = []" by (cases "xs = []") auto
    with Cons.prems \<open>x = 0\<close> show ?thesis by simp
  next
    case (Cons y ys')
    then have eq: "x + b * digits_value b xs = y + b * digits_value b ys'" "x < b" "y < b" using Cons.prems by auto
    have "x = (x + b * digits_value b xs) mod b" "y = (y + b * digits_value b ys') mod b" using eq(2,3) by simp_all
    with eq(1) have xy: "x = y" by simp
    with eq pos have "digits_value b xs = digits_value b ys'" by simp
    then have "xs = ys'" using Cons.IH [of ys'] Cons.prems local.Cons by (auto split: if_splits)
    with xy Cons show ?thesis by simp
  qed
qed

lemma strip_zeros_unique:
  assumes "\<forall>d \<in> set xs. d < b" "\<forall>d \<in> set ys. d < b" "digits_value b xs = digits_value b ys"
  shows "strip_zeros 0 xs = strip_zeros 0 ys"
proof (rule digits_unique [of _ b])
  show "\<forall>d \<in> set (strip_zeros 0 xs). d < b" "\<forall>d \<in> set (strip_zeros 0 ys). d < b"
    using assms(1,2) strip_zeros_subset [of 0 xs] strip_zeros_subset [of 0 ys] by blast+
  show "strip_zeros 0 xs \<noteq> [] \<longrightarrow> last (strip_zeros 0 xs) \<noteq> 0" "strip_zeros 0 ys \<noteq> [] \<longrightarrow> last (strip_zeros 0 ys) \<noteq> 0"
    using strip_zeros_last [of 0 xs] strip_zeros_last [of 0 ys] by blast+
qed (simp add: strip_zeros_value assms(3))

section \<open>Words as numbers\<close>

lemma unat_low_bits: "unat (w AND (push_bit k 1 - 1)) = unat w mod 2 ^ k" for w :: "'a :: len word"
proof -
  have "(push_bit k 1 - 1 :: 'a word) = mask k" by (simp add: mask_eq_decr_exp push_bit_eq_mult)
  then have "w AND (push_bit k 1 - 1) = take_bit k w" by (simp only: take_bit_eq_mask)
  then have "unat (w AND (push_bit k 1 - 1)) = take_bit k (unat w)" by (simp only: unsigned_take_bit_eq)
  then show ?thesis by (simp only: take_bit_eq_mod)
qed

lemmas unat_low_bits_power = unat_low_bits [unfolded push_bit_of_1]
lemmas unat_low_5_bits = unat_low_bits [of _ 5, simplified]
lemmas unat_low_8_bits = unat_low_bits [of _ 8, simplified]

lemma unat_low_byte: "unat (ucast (w :: u16) :: u8) = unat w mod 256"
  by (simp add: unsigned_ucast_eq take_bit_eq_mod)

lemma unat_shifted_in:
  assumes "unat low < 2 ^ (n - k)" "unat carry < 2 ^ k" "k \<le> n" "n \<le> LENGTH('a)"
  shows "unat (push_bit k low + carry :: 'a :: len word) = unat carry + 2 ^ k * unat low"
    and "unat carry + 2 ^ k * unat low < 2 ^ n"
proof -
  have "2 ^ k * (unat low + 1) \<le> 2 ^ k * 2 ^ (n - k)" using assms(1) by (intro mult_le_mono2) simp
  also have "\<dots> = 2 ^ n" using assms(3) by (simp add: power_add [symmetric])
  finally show bound: "unat carry + 2 ^ k * unat low < 2 ^ n" using assms(2) by simp
  have word: "n' < 2 ^ LENGTH('a)" if "n' < (2 :: nat) ^ n" for n'
    by (rule less_le_trans [OF that]) (rule power_increasing [OF assms(4)], simp)
  have "push_bit k low + carry = of_nat (unat carry + 2 ^ k * unat low)"
    by (simp add: push_bit_eq_mult mult.commute add.commute)
  then show "unat (push_bit k low + carry) = unat carry + 2 ^ k * unat low"
    using word [OF bound] by (simp only: unat_of_nat mod_less)
qed

lemma unat_drop_bit: "unat (drop_bit k w) = unat w div 2 ^ k" for w :: "'a :: len word"
  using unat_drop_bit_eq [of k w] by (simp only: drop_bit_eq_div [where ?'a = nat])

section \<open>Byte strings\<close>

text \<open>The number a byte string denotes, and its leading zero bytes.\<close>

definition bytes_value :: "bytes \<Rightarrow> nat" where
  "bytes_value bs = digits_value 256 (map unat (rev bs))"

definition leading_zeros :: "bytes \<Rightarrow> nat" where
  "leading_zeros bs = length (takeWhile (\<lambda>b. b = 0) bs)"

lemma takeWhile_zeros: "xs \<noteq> [] \<longrightarrow> hd xs \<noteq> z \<Longrightarrow> takeWhile (\<lambda>d. d = z) (replicate n z @ xs) = replicate n z"
  by (induction n) (cases xs, simp_all)

lemma inj_unat: "inj (unat :: 'a :: len word \<Rightarrow> nat)"
  by (rule injI) (simp add: word_unat_eq_iff)

lemma strip_zeros_unat: "strip_zeros 0 (map unat xs) = map unat (strip_zeros 0 xs)"
  using strip_zeros_map [OF inj_on_subset [OF inj_unat subset_UNIV], of 0 xs] by simp

lemma leading_zeros_split: "replicate (leading_zeros bs) 0 @ dropWhile (\<lambda>b. b = 0) bs = bs"
proof -
  have "takeWhile (\<lambda>b. b = 0) bs = replicate (leading_zeros bs) 0"
    unfolding leading_zeros_def by (rule replicate_eqI) (auto dest: set_takeWhileD)
  then show ?thesis by (metis takeWhile_dropWhile_id)
qed

lemma digits_value_ge: "ds \<noteq> [] \<Longrightarrow> last ds \<noteq> 0 \<Longrightarrow> b ^ (length ds - 1) \<le> digits_value b ds"
proof -
  assume ne: "ds \<noteq> []" "last ds \<noteq> 0"
  have "digits_value b ds = digits_value b (butlast ds) + b ^ (length ds - 1) * last ds"
    using digits_value_append [of b "butlast ds" "[last ds]"] ne(1) by simp
  then show ?thesis using ne(2) by (simp add: trans_le_add2)
qed

end
