(* ===== verification/B58.thy ===== *)
theory B58
  imports Distribution Bases
begin

text \<open>
  Base 58 and base 58 with a checksum (\<^verbatim>\<open>src/address/b58.rs\<close>), the text form of Bitcoin addresses. Text is the
  list of its bytes. Encoding and decoding are the schoolbook base conversions of the code, digit by digit in
  machine arithmetic; the properties are that they invert each other, and that the decoder's buffer is large
  enough for every input, so that its assertion never fails.
\<close>

section \<open>Definitions\<close>

definition BASE58_CHARS :: bytes where
  "BASE58_CHARS = map of_char ''123456789ABCDEFGHJKLMNPQRSTUVWXYZabcdefghijkmnopqrstuvwxyz''"

definition BASE58_DIGITS :: "u8 option list" where
  "BASE58_DIGITS =
     [None, None, None, None, None, None, None, None, None, None, None, None, None, None, None, None,
      None, None, None, None, None, None, None, None, None, None, None, None, None, None, None, None,
      None, None, None, None, None, None, None, None, None, None, None, None, None, None, None, None,
      None, Some 0, Some 1, Some 2, Some 3, Some 4, Some 5, Some 6, Some 7, Some 8, None, None, None, None, None, None,
      None, Some 9, Some 10, Some 11, Some 12, Some 13, Some 14, Some 15, Some 16, None, Some 17, Some 18, Some 19, Some 20, Some 21, None,
      Some 22, Some 23, Some 24, Some 25, Some 26, Some 27, Some 28, Some 29, Some 30, Some 31, Some 32, None, None, None, None, None,
      None, Some 33, Some 34, Some 35, Some 36, Some 37, Some 38, Some 39, Some 40, Some 41, Some 42, Some 43, None, Some 44, Some 45, Some 46,
      Some 47, Some 48, Some 49, Some 50, Some 51, Some 52, Some 53, Some 54, Some 55, Some 56, Some 57, None, None, None, None, None]"

text \<open>The inner loop of \<^verbatim>\<open>from\<close>: the buffer (least significant byte first) times 58, plus the carry.\<close>

primrec times58_loop :: "u32 \<Rightarrow> bytes \<Rightarrow> bytes \<times> u32" where
  "times58_loop carry [] = ([], carry)"
| "times58_loop carry (d256 # ds) =
     (let carry = carry + ucast d256 * 58;
          (ds', carry') = times58_loop (carry div 256) ds
      in (ucast carry # ds', carry'))"

definition from_step :: "u8 \<Rightarrow> bytes \<Rightarrow> (address_error, bytes) res" where
  "from_step d58 scratch =
     (if unat d58 > length BASE58_DIGITS then Err (BadByte d58)
      else and_then (nth_res BASE58_DIGITS (unat d58)) (\<lambda>digit.
        case digit of
          None \<Rightarrow> Err (BadByte d58)
        | Some d \<Rightarrow>
            let (ds, carry) = times58_loop (ucast d) (rev scratch)
            in if carry = 0 then Ok (rev ds) else Panic))"

definition b58_from :: "bytes \<Rightarrow> (address_error, bytes) res" where
  "b58_from data =
     and_then (fold_res from_step data (replicate (1 + length data * 11 div 15) 0)) (\<lambda>scratch.
       Ok (map (\<lambda>_. 0) (takeWhile (\<lambda>x. x = BASE58_CHARS ! 0) data) @ dropWhile (\<lambda>x. x = 0) scratch))"

text \<open>\<^verbatim>\<open>DoubleSha256\<close> (\<^verbatim>\<open>src/util/hash.rs\<close>), and its reading as four words on a little-endian machine.\<close>

definition double_sha256 :: "externals \<Rightarrow> bytes \<Rightarrow> bytes" where
  "double_sha256 X data = sha256 X (sha256 X data)"

definition into_le :: "bytes \<Rightarrow> uint" where
  "into_le data = map (\<lambda>i. from_be_bytes (rev (slice (8 * i) (8 * i + 8) data))) [0..<4]"

definition from_check :: "externals \<Rightarrow> bytes \<Rightarrow> (address_error, bytes) res" where
  "from_check X data =
     and_then (b58_from data) (\<lambda>ret.
       if length ret < 4 then Err (TooShort (length ret))
       else let ck_start = length ret - 4;
                expected = low_u32 (into_le (double_sha256 X (take ck_start ret)));
                actual = from_be_bytes (rev (slice ck_start (ck_start + 4) ret))
            in if expected \<noteq> actual then Err (BadChecksum expected actual) else Ok (take ck_start ret))"

text \<open>The loops of \<^verbatim>\<open>encode_iter_utf8\<close>: the digits so far times 256 plus the carry, then the digits of what is
  left of the carry.\<close>

primrec times256_loop :: "u64 \<Rightarrow> bytes \<Rightarrow> bytes \<times> u64" where
  "times256_loop carry [] = ([], carry)"
| "times256_loop carry (ch # chs) =
     (let new_ch = ucast ch * 256 + carry;
          (chs', carry') = times256_loop (new_ch div 58) chs
      in (ucast (new_ch mod 58) # chs', carry'))"

function push_carry :: "u64 \<Rightarrow> bytes" where
  "push_carry carry = (if carry > 0 then ucast (carry mod 58) # push_carry (carry div 58) else [])"
  by pat_completeness auto

termination push_carry
proof (relation "measure unat")
  fix carry :: u64
  assume "carry > 0"
  then have "unat carry > 0" by (simp add: word_less_nat_alt)
  then show "(carry div 58, carry) \<in> measure unat" by (simp add: unat_div)
qed simp

declare push_carry.simps [simp del]

definition encode_step :: "u8 \<Rightarrow> bytes \<times> nat \<times> bool \<Rightarrow> bytes \<times> nat \<times> bool" where
  "encode_step d256 st =
     (let (ret, leading_zero_count, leading_zeroes) = st;
          carry = ucast d256;
          (leading_zero_count, leading_zeroes) =
            (if leading_zeroes \<and> carry = 0 then (leading_zero_count + 1, leading_zeroes) else (leading_zero_count, False));
          (ret, carry) = times256_loop carry ret
      in (ret @ push_carry carry, leading_zero_count, leading_zeroes))"

definition encode_iter_utf8 :: "bytes \<Rightarrow> ('e, bytes) res" where
  "encode_iter_utf8 data =
     (let (ret, leading_zero_count, _) = fold encode_step data ([], 0, True)
      in map_res (\<lambda>ch. nth_res BASE58_CHARS (unat ch)) (rev (ret @ replicate leading_zero_count 0)))"

definition encode_slice :: "bytes \<Rightarrow> ('e, bytes) res" where
  "encode_slice data = encode_iter_utf8 data"

definition check_encode_slice :: "externals \<Rightarrow> bytes \<Rightarrow> ('e, bytes) res" where
  "check_encode_slice X data = encode_iter_utf8 (data @ slice 0 4 (double_sha256 X data))"

section \<open>The loops compute\<close>

lemma unat_u8_wide: "LENGTH('a::len) \<ge> 8 \<Longrightarrow> unat (ucast (b :: u8) :: 'a word) = unat b"
proof -
  assume "LENGTH('a) \<ge> 8"
  then have "(2 :: nat) ^ 8 \<le> 2 ^ LENGTH('a)" by (rule power_increasing) simp
  then have "unat b < 2 ^ LENGTH('a)" using u8_less [of b] by simp
  then show ?thesis by (simp add: unsigned_ucast_eq take_bit_nat_eq_self_iff)
qed

lemma unat_u8_low: "unat (ucast (w :: 'a::len word) :: u8) = unat w mod 256"
  by (simp add: unsigned_ucast_eq take_bit_eq_mod)

lemma carry_out:
  fixes b :: nat
  assumes "X + B * c = m * V + q" "r + b * q = m * d + k"
  shows "(r + b * X) + (b * B) * c = m * (d + b * V) + k"
proof -
  have "b * X + b * (B * c) = b * (m * V) + b * q" using arg_cong [OF assms(1), of "\<lambda>x. b * x"] by (simp only: distrib_left)
  then have "(r + b * X) + b * (B * c) = (r + b * q) + b * (m * V)" by simp
  then show ?thesis by (simp add: assms(2) distrib_left mult.assoc mult.left_commute)
qed

lemma unat_div_256: "unat (c div 256 :: u32) = unat c div 256"
  by (simp add: unat_div)

lemma unat_div_58: "unat (c div 58 :: u64) = unat c div 58"
  by (simp add: unat_div)

lemma unat_mod_58: "unat (ucast (c mod 58 :: u64) :: u8) = unat c mod 58"
  by (simp add: unat_u8_low unat_mod)

lemma times58_value:
  assumes "times58_loop carry ds = (ds', carry')" "unat carry < 58"
  shows "length ds' = length ds \<and> digits_value 256 (map unat ds') + 256 ^ length ds * unat carry'
    = 58 * digits_value 256 (map unat ds) + unat carry"
  using assms
proof (induction ds arbitrary: carry ds')
  case (Cons d ds)
  define c where "c = carry + ucast d * 58"
  have c: "unat c = unat carry + unat d * 58"
    using Cons.prems(2) u8_less [of d] by (simp add: c_def unat_word_ariths unat_u8_wide)
  obtain es where es: "times58_loop (c div 256) ds = (es, carry')" "ds' = ucast c # es"
    using Cons.prems(1) by (auto simp: Let_def c_def [symmetric] split: prod.splits)
  have "unat (c div 256) < 58" using c Cons.prems(2) u8_less [of d] by (simp add: unat_div_256)
  note IH = Cons.IH [OF es(1) this, unfolded unat_div_256]
  have "unat c mod 256 + 256 * (unat c div 256) = 58 * unat d + unat carry" unfolding mod_mult_div_eq c by simp
  from carry_out [OF conjunct2 [OF IH] this] show ?case using IH by (simp add: es(2) unat_u8_low)
qed auto

lemma times256_value:
  assumes "times256_loop carry ds = (ds', carry')" "unat carry < 256" "\<forall>d \<in> set ds. unat d < 58"
  shows "length ds' = length ds \<and> unat carry' < 256 \<and> (\<forall>d \<in> set ds'. unat d < 58) \<and>
    digits_value 58 (map unat ds') + 58 ^ length ds * unat carry' = 256 * digits_value 58 (map unat ds) + unat carry"
  using assms
proof (induction ds arbitrary: carry ds')
  case (Cons d ds)
  define c where "c = ucast d * 256 + carry"
  have d: "unat d < 58" using Cons.prems(3) by simp
  have c: "unat c = unat d * 256 + unat carry"
    using Cons.prems(2) d by (simp add: c_def unat_word_ariths unat_u8_wide)
  obtain es where es: "times256_loop (c div 58) ds = (es, carry')" "ds' = ucast (c mod 58) # es"
    using Cons.prems(1) by (auto simp: Let_def c_def [symmetric] split: prod.splits)
  have "unat (c div 58) < 256" using c Cons.prems(2) d by (simp add: unat_div_58)
  moreover have "\<forall>d \<in> set ds. unat d < 58" using Cons.prems(3) by simp
  ultimately have IH: "length es = length ds" "unat carry' < 256" "\<forall>d \<in> set es. unat d < 58"
    "digits_value 58 (map unat es) + 58 ^ length ds * unat carry' = 256 * digits_value 58 (map unat ds) + unat c div 58"
    using Cons.IH [OF es(1)] by (simp_all add: unat_div_58)
  have "unat c mod 58 + 58 * (unat c div 58) = 256 * unat d + unat carry" unfolding mod_mult_div_eq c by simp
  from carry_out [OF IH(4) this] show ?case using IH by (simp add: es(2) unat_mod_58)
qed auto

lemma push_carry_digits:
  "digits_value 58 (map unat (push_carry c)) = unat c \<and> (\<forall>d \<in> set (push_carry c). unat d < 58) \<and> (push_carry c = [] \<longleftrightarrow> c = 0) \<and>
   (c \<noteq> 0 \<longrightarrow> unat (last (push_carry c)) \<noteq> 0)"
proof (induction c rule: push_carry.induct)
  case (1 c)
  show ?case
  proof (cases "c > 0")
    case True
    then have "unat c \<noteq> 0" by (simp add: word_gt_0 unat_eq_0)
    moreover have "c div 58 = 0 \<longleftrightarrow> unat c div 58 = 0" by (metis unat_div_58 unat_eq_0)
    ultimately show ?thesis using 1 [OF True] True by (auto simp: push_carry.simps [of c] unat_mod_58 unat_div_58 div_eq_0_iff)
  next
    case False
    then have "push_carry c = []" by (simp only: push_carry.simps [of c] if_False)
    moreover have "c = 0" using False by (simp add: word_gt_0)
    ultimately show ?thesis by simp
  qed
qed

text \<open>Digits without a leading zero, as a bound on the value.\<close>

lemma last_digit:
  assumes "\<forall>d \<in> set ds. d < b" "ds \<noteq> []"
  shows "last ds \<noteq> 0 \<longleftrightarrow> b ^ (length ds - 1) \<le> digits_value b ds"
proof
  assume "b ^ (length ds - 1) \<le> digits_value b ds"
  moreover have "digits_value b (butlast ds) < b ^ (length ds - 1)"
    using digits_value_less [of "butlast ds" b] assms(1) by (auto dest: in_set_butlastD)
  moreover have "digits_value b ds = digits_value b (butlast ds) + b ^ (length ds - 1) * last ds"
    using digits_value_append [of b "butlast ds" "[last ds]"] assms(2) by simp
  ultimately show "last ds \<noteq> 0" by (cases "last ds = 0") simp_all
qed (rule digits_value_ge [OF assms(2)])

section \<open>Encoding\<close>

definition b58_inv :: "bytes \<Rightarrow> bytes \<times> nat \<times> bool \<Rightarrow> bool" where
  "b58_inv bs st \<longleftrightarrow> (case st of (ret, z, lz) \<Rightarrow>
     (\<forall>d \<in> set ret. unat d < 58) \<and> (ret \<noteq> [] \<longrightarrow> unat (last ret) \<noteq> 0) \<and>
     digits_value 58 (map unat ret) = bytes_value bs \<and> z = leading_zeros bs \<and> lz = (\<forall>b \<in> set bs. b = 0))"

lemma bytes_value_snoc: "bytes_value (bs @ [b]) = unat b + 256 * bytes_value bs"
  by (simp add: bytes_value_def)

lemma leading_zeros_snoc:
  "leading_zeros (bs @ [b]) = (if (\<forall>x \<in> set bs. x = 0) \<and> b = 0 then leading_zeros bs + 1 else leading_zeros bs)"
  by (induction bs) (auto simp: leading_zeros_def)

lemma b58_step_inv:
  assumes "b58_inv bs st"
  shows "b58_inv (bs @ [b]) (encode_step b st)"
proof -
  obtain ret z lz where st: "st = (ret, z, lz)" by (cases st)
  have inv: "\<forall>d \<in> set ret. unat d < 58" "ret \<noteq> [] \<longrightarrow> unat (last ret) \<noteq> 0" "digits_value 58 (map unat ret) = bytes_value bs"
    "z = leading_zeros bs" "lz = (\<forall>b \<in> set bs. b = 0)" using assms by (simp_all add: b58_inv_def st)
  have ub: "unat (ucast b :: u64) = unat b" by (simp add: unat_u8_wide)
  have zero: "(ucast b :: u64) = 0 \<longleftrightarrow> b = 0" using ub by (metis unat_eq_0)
  obtain ret' c where t: "times256_loop (ucast b) ret = (ret', c)" by fastforce
  have t': "length ret' = length ret" "\<forall>d \<in> set ret'. unat d < 58"
    "digits_value 58 (map unat ret') + 58 ^ length ret * unat c = bytes_value (bs @ [b])"
    using times256_value [OF t] inv(1,3) u8_less [of b] by (simp_all add: ub bytes_value_snoc)
  define ds where "ds = ret' @ push_carry c"
  have ds: "\<forall>d \<in> set ds. unat d < 58" "digits_value 58 (map unat ds) = bytes_value (bs @ [b])"
    using t' push_carry_digits [of c] by (auto simp: ds_def digits_value_append)
  have "unat (last ds) \<noteq> 0" if "ds \<noteq> []"
  proof (cases "c = 0")
    case True
    then have "ds = ret'" "ret \<noteq> []" using push_carry_digits [of c] t'(1) that by (auto simp: ds_def)
    then have "58 ^ (length ds - 1) \<le> digits_value 58 (map unat ret)"
      using digits_value_ge [of "map unat ret" 58] inv(2) t'(1) by (simp add: last_map)
    also have "\<dots> \<le> digits_value 58 (map unat ds)" by (simp add: ds(2) inv(3) bytes_value_snoc)
    finally show ?thesis using last_digit [of "map unat ds" 58] ds(1) that by (simp add: last_map)
  next
    case False
    then show ?thesis using push_carry_digits [of c] by (simp add: ds_def)
  qed
  then show ?thesis using ds inv(4,5) by (auto simp: b58_inv_def encode_step_def st t ds_def zero leading_zeros_snoc)
qed

lemma b58_fold_inv: "b58_inv bs st \<Longrightarrow> b58_inv (bs @ cs) (fold encode_step cs st)"
proof (induction cs arbitrary: bs st)
  case (Cons c cs)
  show ?case using Cons.IH [OF b58_step_inv [OF Cons.prems, of c]] by simp
qed simp

definition b58_char :: "nat \<Rightarrow> u8" where
  "b58_char d = BASE58_CHARS ! d"

lemma length_B58 [simp]: "length BASE58_CHARS = 58" "length BASE58_DIGITS = 128"
  by (simp_all add: BASE58_CHARS_def BASE58_DIGITS_def)

lemma encode_digits:
  "\<exists>ds. (\<forall>d \<in> set ds. d < 58) \<and> (ds \<noteq> [] \<longrightarrow> last ds \<noteq> 0) \<and> digits_value 58 ds = bytes_value bs \<and>
     encode_iter_utf8 bs = (Ok (map b58_char (replicate (leading_zeros bs) 0 @ rev ds)) :: ('e, _) res)"
proof -
  have "b58_inv [] ([], 0, True)" by (simp add: b58_inv_def bytes_value_def leading_zeros_def)
  from b58_fold_inv [OF this, of bs] obtain ret where inv: "b58_inv bs (fold encode_step bs ([], 0, True))"
    and f: "fold encode_step bs ([], 0, True) = (ret, leading_zeros bs, \<forall>b \<in> set bs. b = 0)"
    by (cases "fold encode_step bs ([], 0, True)") (auto simp: b58_inv_def)
  have ret: "\<forall>d \<in> set ret. unat d < 58" "ret \<noteq> [] \<longrightarrow> unat (last ret) \<noteq> 0" "digits_value 58 (map unat ret) = bytes_value bs"
    using inv by (simp_all add: f b58_inv_def)
  have "encode_iter_utf8 bs = (Ok (map (\<lambda>ch. b58_char (unat ch)) (rev (ret @ replicate (leading_zeros bs) 0))) :: ('e, _) res)"
    unfolding encode_iter_utf8_def f Let_def prod.case
    by (rule map_res_Ok) (use ret(1) in \<open>auto simp: nth_res_def b58_char_def\<close>)
  then show ?thesis using ret by (intro exI [of _ "map unat ret"]) (auto simp: last_map rev_map)
qed

section \<open>Decoding\<close>

lemma BASE58_CHARS_bytes:
  "BASE58_CHARS =
     [49, 50, 51, 52, 53, 54, 55, 56, 57, 65, 66, 67, 68, 69, 70, 71, 72, 74, 75, 76,
      77, 78, 80, 81, 82, 83, 84, 85, 86, 87, 88, 89, 90, 97, 98, 99, 100, 101, 102, 103,
      104, 105, 106, 107, 109, 110, 111, 112, 113, 114, 115, 116, 117, 118, 119, 120, 121, 122]"
  by (simp add: BASE58_CHARS_def)

lemma b58_tables: "d < 58 \<Longrightarrow> unat (b58_char d) < 128 \<and> BASE58_DIGITS ! unat (b58_char d) = Some (of_nat d)"
proof -
  have "list_all (\<lambda>d. unat (b58_char d) < 128 \<and> BASE58_DIGITS ! unat (b58_char d) = Some (of_nat d)) [0..<58]"
    by (simp add: b58_char_def BASE58_CHARS_bytes BASE58_DIGITS_def upt_rec)
  then show "d < 58 \<Longrightarrow> ?thesis" by (simp add: list_all_iff)
qed

lemma b58_digit_char: "n < 128 \<Longrightarrow> BASE58_DIGITS ! n = Some d \<Longrightarrow> unat d < 58 \<and> b58_char (unat d) = of_nat n"
proof -
  have "list_all (\<lambda>n. case BASE58_DIGITS ! n of None \<Rightarrow> True | Some d \<Rightarrow> unat d < 58 \<and> b58_char (unat d) = of_nat n) [0..<128]"
    by (simp add: b58_char_def BASE58_CHARS_bytes BASE58_DIGITS_def upt_rec)
  then show "n < 128 \<Longrightarrow> BASE58_DIGITS ! n = Some d \<Longrightarrow> ?thesis" by (auto simp: list_all_iff split: option.splits)
qed

text \<open>The buffer is large enough: eleven bytes hold fifteen digits.\<close>

lemma b58_capacity: "(58 :: nat) ^ n < 256 ^ (1 + n * 11 div 15)"
proof -
  define q r where "q = n div 15" and "r = n mod 15"
  have n: "n = 15 * q + r" and r: "r < 15" by (simp_all add: q_def r_def)
  have "list_all (\<lambda>r. (58 :: nat) ^ r < 256 ^ (1 + r * 11 div 15)) [0..<15]" by (simp add: upt_rec)
  then have r58: "(58 :: nat) ^ r < 256 ^ (1 + r * 11 div 15)" using r by (simp add: list_all_iff)
  have "((58 :: nat) ^ 15) ^ q \<le> (256 ^ 11) ^ q" by (rule power_mono) simp_all
  then have "(58 :: nat) ^ (15 * q) * 58 ^ r < 256 ^ (11 * q) * 256 ^ (1 + r * 11 div 15)"
    using r58 by (intro mult_le_less_imp_less) (simp_all add: power_mult)
  moreover have "n * 11 div 15 = 11 * q + r * 11 div 15" by (simp add: n algebra_simps)
  ultimately show ?thesis by (simp only: n power_add [symmetric] add.assoc add.left_commute)
qed

lemma from_step_digit:
  assumes d: "d < 58" and cap: "58 * bytes_value scratch + d < 256 ^ length scratch"
  shows "\<exists>scratch'. from_step (b58_char d) scratch = Ok scratch' \<and> length scratch' = length scratch \<and>
    bytes_value scratch' = 58 * bytes_value scratch + d"
proof -
  obtain ds carry where t: "times58_loop (ucast (of_nat d :: u8)) (rev scratch) = (ds, carry)" by fastforce
  have ud: "unat (ucast (of_nat d :: u8) :: u32) = d" using d by (simp add: unat_u8_wide unat_of_nat)
  have v: "length ds = length scratch" "digits_value 256 (map unat ds) + 256 ^ length scratch * unat carry = 58 * bytes_value scratch + d"
    using times58_value [OF t] d by (simp_all add: ud bytes_value_def)
  then have "unat carry = 0" using cap by (cases "unat carry") auto
  then have "carry = 0" by (simp add: unat_eq_0)
  then have "from_step (b58_char d) scratch = Ok (rev ds)"
    using b58_tables [OF d] t by (simp add: from_step_def nth_res_def)
  then show ?thesis using v \<open>carry = 0\<close> by (simp add: bytes_value_def)
qed

lemma from_fold_digits:
  assumes "\<forall>d \<in> set ds. d < 58" "bytes_value scratch < 58 ^ m" "58 ^ (m + length ds) < (256 :: nat) ^ length scratch"
  shows "\<exists>scratch'. fold_res from_step (map b58_char ds) scratch = Ok scratch' \<and>
    bytes_value scratch' = digits_value 58 (rev ds) + 58 ^ length ds * bytes_value scratch"
  using assms
proof (induction ds arbitrary: scratch m)
  case (Cons d ds)
  have d: "d < 58" using Cons.prems(1) by simp
  have "58 * (bytes_value scratch + 1) \<le> 58 * 58 ^ m" using Cons.prems(2) by (intro mult_le_mono2) simp
  then have lt: "58 * bytes_value scratch + d < 58 ^ Suc m" using d by simp
  also have "\<dots> \<le> 58 ^ (m + length (d # ds))" by (rule power_increasing) simp_all
  also note Cons.prems(3)
  finally obtain t where t: "from_step (b58_char d) scratch = Ok t" "length t = length scratch" "bytes_value t = 58 * bytes_value scratch + d"
    using from_step_digit [OF d] by blast
  show ?case using Cons.IH [of t "Suc m"] Cons.prems lt t by (auto simp: digits_value_append algebra_simps)
qed simp

lemma b58_char_eq: "i < 58 \<Longrightarrow> j < 58 \<Longrightarrow> b58_char i = b58_char j \<longleftrightarrow> i = j"
proof
  assume ij: "i < 58" "j < 58" "b58_char i = b58_char j"
  then have "(of_nat i :: u8) = of_nat j" using b58_tables [of i] b58_tables [of j] by simp
  then have "unat (of_nat i :: u8) = unat (of_nat j :: u8)" by simp
  then show "i = j" using ij by (simp add: unat_of_nat)
qed simp

lemma b58_distinct: "distinct BASE58_CHARS"
  using b58_char_eq by (simp add: distinct_conv_nth b58_char_def)

lemma index_of_b58_char: "d < 58 \<Longrightarrow> index_of BASE58_CHARS (b58_char d) = Some d"
  by (simp add: index_of_Some b58_distinct b58_char_def)

lemma scratch_start:
  "bytes_value (replicate (1 + n * 11 div 15) 0) < 58 ^ 0" "58 ^ (0 + n) < (256 :: nat) ^ length (replicate (1 + n * 11 div 15) (0 :: u8))"
  "bytes_value (replicate k 0) = 0"
  using b58_capacity [of n] by (simp_all add: bytes_value_def digits_value_append)

lemma from_digits:
  assumes ds: "\<forall>d \<in> set ds. d < 58"
  obtains R where "b58_from (map b58_char ds) = Ok (replicate (length (takeWhile (\<lambda>d. d = 0) ds)) 0 @ dropWhile (\<lambda>x. x = 0) R)"
    and "bytes_value R = digits_value 58 (rev ds)"
proof -
  obtain R where f: "fold_res from_step (map b58_char ds) (replicate (1 + length ds * 11 div 15) 0) = Ok R"
      and R: "bytes_value R = digits_value 58 (rev ds)"
    using from_fold_digits [OF ds scratch_start(1,2)] unfolding scratch_start(3) by auto
  have "takeWhile (\<lambda>x. x = BASE58_CHARS ! 0) (map b58_char ds) = map b58_char (takeWhile (\<lambda>d. d = 0) ds)"
    using ds b58_char_eq [of _ 0] unfolding takeWhile_map b58_char_def [of 0, symmetric]
    by (auto intro!: arg_cong [where f = "map b58_char"] takeWhile_cong)
  then show ?thesis using f R by (intro that [of R]) (simp_all add: b58_from_def map_replicate_const)
qed

lemma from_encode: "\<exists>s. encode_iter_utf8 bs = (Ok s :: ('e, _) res) \<and> b58_from s = Ok bs"
proof -
  obtain ds where ds: "\<forall>d \<in> set ds. d < 58" "ds \<noteq> [] \<longrightarrow> last ds \<noteq> 0" "digits_value 58 ds = bytes_value bs"
    and enc: "encode_iter_utf8 bs = (Ok (map b58_char (replicate (leading_zeros bs) 0 @ rev ds)) :: ('e, _) res)"
    using encode_digits by blast
  define es where "es = replicate (leading_zeros bs) 0 @ rev ds"
  have es: "\<forall>d \<in> set es. d < 58" using ds(1) by (auto simp: es_def)
  obtain R where R: "b58_from (map b58_char es) = Ok (replicate (length (takeWhile (\<lambda>d. d = 0) es)) 0 @ dropWhile (\<lambda>x. x = 0) R)"
    "bytes_value R = digits_value 58 (rev es)" using from_digits [OF es] by blast
  have z: "takeWhile (\<lambda>d. d = 0) es = replicate (leading_zeros bs) 0"
    unfolding es_def by (rule takeWhile_zeros) (simp add: hd_rev ds(2))
  have "strip_zeros 0 (map unat (rev R)) = strip_zeros 0 (map unat (rev bs))"
    by (rule strip_zeros_unique [of _ 256]) (use R(2) ds(3) in \<open>auto simp: u8_less bytes_value_def es_def digits_value_append\<close>)
  then have "strip_zeros 0 (rev R) = strip_zeros 0 (rev bs)" by (simp only: strip_zeros_unat inj_map_eq_map [OF inj_unat])
  then have "b58_from (map b58_char es) = Ok bs" using leading_zeros_split [of bs] by (simp add: R(1) z strip_zeros_def)
  then show ?thesis using enc by (simp add: es_def)
qed

lemma b58_chars: "b \<in> set BASE58_CHARS \<Longrightarrow> \<exists>d < 58. b = b58_char d"
  by (auto simp: in_set_conv_nth b58_char_def)

lemma from_step_foreign:
  assumes "b \<notin> set BASE58_CHARS" "b \<noteq> 128"
  shows "from_step b scratch = Err (BadByte b)"
proof (cases "unat b < 128")
  case True
  have "BASE58_DIGITS ! unat b \<noteq> Some d" for d
  proof
    assume "BASE58_DIGITS ! unat b = Some d"
    from b58_digit_char [OF True this] have "b = BASE58_CHARS ! unat d" "unat d < 58" by (simp_all add: b58_char_def)
    then show False using assms(1) by simp
  qed
  then have "BASE58_DIGITS ! unat b = None" by (cases "BASE58_DIGITS ! unat b") auto
  then show ?thesis using True by (simp add: from_step_def nth_res_def)
next
  case False
  have "unat b \<noteq> 128" using assms(2) by (simp add: word_unat_eq_iff)
  then show ?thesis using False by (simp add: from_step_def)
qed

lemma from_fold_foreign:
  assumes "find (\<lambda>b. b \<notin> set BASE58_CHARS) data = Some b" "b \<noteq> 128"
    and "bytes_value scratch < 58 ^ m" "58 ^ (m + length data) < (256 :: nat) ^ length scratch"
  shows "fold_res from_step data scratch = Err (BadByte b)"
  using assms
proof (induction data arbitrary: scratch m)
  case (Cons c data)
  show ?case
  proof (cases "c \<in> set BASE58_CHARS")
    case True
    then obtain d where d: "d < 58" "c = b58_char d" using b58_chars by blast
    have "58 * (bytes_value scratch + 1) \<le> 58 * 58 ^ m" using Cons.prems(3) by (intro mult_le_mono2) simp
    then have lt: "58 * bytes_value scratch + d < 58 ^ Suc m" using d by simp
    also have "\<dots> \<le> 58 ^ (m + length (c # data))" by (rule power_increasing) simp_all
    also note Cons.prems(4)
    finally obtain t where t: "from_step c scratch = Ok t" "length t = length scratch" "bytes_value t = 58 * bytes_value scratch + d"
      using from_step_digit [OF d(1)] d(2) by blast
    show ?thesis using Cons.IH [of t "Suc m"] Cons.prems True lt t by auto
  next
    case False
    then show ?thesis using Cons.prems from_step_foreign [OF False] by simp
  qed
qed simp

lemma b58_from_cases:
  assumes "128 \<notin> set data"
  shows "case find (\<lambda>b. b \<notin> set BASE58_CHARS) data of
      Some b \<Rightarrow> b58_from data = Err (BadByte b)
    | None \<Rightarrow> \<exists>bs. b58_from data = Ok bs \<and> bytes_value bs = digits_value 58 (map (the \<circ> index_of BASE58_CHARS) (rev data))"
proof (cases "find (\<lambda>b. b \<notin> set BASE58_CHARS) data")
  case (Some b)
  then have "b \<noteq> 128" using assms by (metis (mono_tags, lifting) find_Some_iff nth_mem)
  from from_fold_foreign [OF Some this scratch_start(1,2)] show ?thesis by (simp add: Some b58_from_def)
next
  case None
  then have "\<forall>b \<in> set data. \<exists>d < 58. b = b58_char d" using b58_chars by (auto simp: find_None_iff)
  then obtain f where f: "\<forall>b \<in> set data. f b < 58 \<and> b = b58_char (f b)" by metis
  define ds where "ds = map f data"
  have ds: "\<forall>d \<in> set ds. d < 58" "data = map b58_char ds" using f by (auto simp: ds_def map_idI)
  have idx: "map (the \<circ> index_of BASE58_CHARS) (rev data) = rev ds"
    using ds(1) by (auto simp: ds(2) rev_map index_of_b58_char intro: map_idI)
  obtain R where R: "b58_from data = Ok (replicate (length (takeWhile (\<lambda>d. d = 0) ds)) 0 @ dropWhile (\<lambda>x. x = 0) R)"
    "bytes_value R = digits_value 58 (rev ds)" using from_digits [OF ds(1)] unfolding ds(2) by blast
  have "bytes_value (replicate n 0 @ dropWhile (\<lambda>x. x = 0) R) = bytes_value R" for n
    using strip_zeros_value [of 256 "map unat (rev R)"]
    by (simp add: bytes_value_def digits_value_append strip_zeros_unat) (simp add: strip_zeros_def)
  then show ?thesis using R by (simp add: None idx)
qed

text \<open>The checksum of the decoder is that of the encoder: the low word of the hash is its first four bytes.\<close>

lemma bit_from_be_bytes:
  "bit (from_be_bytes bs :: 'a::len word) k \<longleftrightarrow> k < LENGTH('a) \<and> k < 8 * length bs \<and> bit (rev bs ! (k div 8)) (k mod 8)"
proof (induction bs arbitrary: k rule: rev_induct)
  case Nil
  then show ?case by (simp add: from_be_bytes_def)
next
  case (snoc b bs)
  have "(k - 8) div 8 = k div 8 - 1" "(k - 8) mod 8 = k mod 8" if "8 \<le> k"
    using that by (simp_all add: le_div_geq le_mod_geq)
  then show ?case
    using bit_imp_le_length [of b k]
    by (cases "k < 8") (auto simp: from_be_bytes_snoc bit_simps snoc nth_Cons' div_eq_0_iff)
qed

lemma low_u32_into_le:
  assumes "length h = 32"
  shows "low_u32 (into_le h) = from_be_bytes (rev (slice 0 4 h))"
proof (rule bit_word_eqI)
  fix k assume "k < LENGTH(32)"
  then show "bit (low_u32 (into_le h)) k \<longleftrightarrow> bit (from_be_bytes (rev (slice 0 4 h)) :: u32) k"
    using assms by (auto simp: low_u32_def into_le_def upt_rec bit_simps bit_from_be_bytes slice_def)
qed

lemma from_check_encode:
  assumes "digest_sizes X"
  shows "\<exists>s. check_encode_slice X data = (Ok s :: ('e, _) res) \<and> from_check X s = Ok data"
proof -
  have l: "length (double_sha256 X data) = 32" using assms by (simp add: digest_sizes_def double_sha256_def)
  obtain s where s: "check_encode_slice X data = (Ok s :: ('e, _) res)" "b58_from s = Ok (data @ slice 0 4 (double_sha256 X data))"
    unfolding check_encode_slice_def using from_encode by blast
  have "from_check X s = Ok data"
    using l by (simp add: from_check_def s(2) Let_def low_u32_into_le slice_append_right) (simp add: slice_def)
  then show ?thesis using s(1) by blast
qed

section \<open>Properties\<close>

text \<open>C29. Base 58 text reads back. For every byte string, encoding succeeds and decoding the text returns the bytes,
  leading zeros included; the same holds with the four checksum bytes that Bitcoin addresses carry.\<close>

theorem b58_round_trip:
  assumes "digest_sizes X"
  shows "(\<exists>s. encode_slice data = (Ok s :: (address_error, _) res) \<and> b58_from s = Ok data) \<and>
    (\<exists>s. check_encode_slice X data = (Ok s :: (address_error, _) res) \<and> from_check X s = Ok data)"
  using from_encode from_check_encode [OF assms] by (auto simp: encode_slice_def)

theorem b58_round_trip_witness:
  "\<exists>s. check_encode_slice example_externals [0, 9] = (Ok s :: (address_error, _) res) \<and> from_check example_externals s = Ok [0, 9]"
  using b58_round_trip [of example_externals "[0, 9]"] by (simp add: example_externals_def digest_sizes_def)

text \<open>C30. The decoder's buffer of \<open>1 + 11 n / 15\<close> bytes is enough for every text of \<open>n\<close> characters, so its assertion that
  no carry is left never fails: a text with a character outside the alphabet is the error \<open>BadByte\<close> of the first
  such character, and any other text decodes to the number its digits denote. (The byte 128, which the code's table
  lookup would not survive, never comes first in UTF-8: it is a continuation byte.)\<close>

theorem b58_buffer_suffices:
  assumes "128 \<notin> set data"
  shows "case find (\<lambda>b. b \<notin> set BASE58_CHARS) data of
      Some b \<Rightarrow> b58_from data = Err (BadByte b)
    | None \<Rightarrow> \<exists>bs. b58_from data = Ok bs \<and> bytes_value bs = digits_value 58 (map (the \<circ> index_of BASE58_CHARS) (rev data))"
  by (rule b58_from_cases [OF assms])

theorem b58_buffer_suffices_witness: "b58_from [50, 48, 51] = Err (BadByte 48)"
  using b58_buffer_suffices [of "[50, 48, 51]"] by (simp add: BASE58_CHARS_bytes)

end
