(* ===== verification/C32.thy ===== *)
theory C32
  imports Distribution Bases
begin

text \<open>
  The text form of Stacks addresses (\<^verbatim>\<open>src/address/c32.rs\<close>): Crockford's base 32 with a version
  character and a checksum. Strings are lists of one-byte characters. The lemmas treat both conversions as
  changes of base of one number; the property is that decoding an encoded address returns it.
\<close>

section \<open>Definitions\<close>

definition C32_CHARACTERS :: string where
  "C32_CHARACTERS = ''0123456789ABCDEFGHJKMNPQRSTVWXYZ''"

text \<open>One round of the loop of \<^verbatim>\<open>c32_encode\<close> over the reversed input; the state is the result, the
  carry and its number of bits.\<close>

definition c32_encode_step :: "u8 \<Rightarrow> string \<times> u8 \<times> nat \<Rightarrow> ('e, string \<times> u8 \<times> nat) res" where
  "c32_encode_step current_value st =
     (let (result, carry, carry_bits) = st;
          low_bits_to_take = 5 - carry_bits;
          low_bits = current_value AND (push_bit low_bits_to_take 1 - 1);
          c32_value = push_bit carry_bits low_bits + carry
      in and_then (nth_res C32_CHARACTERS (unat c32_value)) (\<lambda>c.
         let result = result @ [c];
             carry_bits = 8 + carry_bits - 5;
             carry = drop_bit (8 - carry_bits) current_value
         in if carry_bits \<ge> 5 then
              and_then (nth_res C32_CHARACTERS (unat (carry AND (push_bit 5 1 - 1)))) (\<lambda>c.
                Ok (result @ [c], drop_bit 5 carry, carry_bits - 5))
            else Ok (result, carry, carry_bits)))"

definition c32_encode :: "bytes \<Rightarrow> ('e, string) res" where
  "c32_encode input_bytes =
     and_then (fold_res c32_encode_step (rev input_bytes) ([], 0, 0)) (\<lambda>(result, carry, carry_bits).
     and_then (if carry_bits > 0 then and_then (nth_res C32_CHARACTERS (unat carry)) (\<lambda>c. Ok (result @ [c])) else Ok result) (\<lambda>result.
       let zero = C32_CHARACTERS ! 0
       in Ok (rev (strip_zeros zero result @ map (\<lambda>_. zero) (takeWhile (\<lambda>x. x = 0) input_bytes)))))"

definition to_uppercase :: "char \<Rightarrow> char" where
  "to_uppercase c = (if 97 \<le> (of_char c :: nat) \<and> (of_char c :: nat) \<le> 122 then char_of ((of_char c :: nat) - 32) else c)"

definition c32_normalize :: "string \<Rightarrow> string" where
  "c32_normalize input_str =
     map (\<lambda>c. let c = to_uppercase c in
       if c = CHR ''O'' then CHR ''0'' else if c = CHR ''L'' then CHR ''1'' else if c = CHR ''I'' then CHR ''1'' else c) input_str"

definition c32_decode_step :: "nat \<Rightarrow> bytes \<times> u16 \<times> nat \<Rightarrow> bytes \<times> u16 \<times> nat" where
  "c32_decode_step current_5bit st =
     (let (result, carry, carry_bits) = st;
          carry = carry + push_bit carry_bits (of_nat current_5bit);
          carry_bits = carry_bits + 5
      in if carry_bits \<ge> 8 then (result @ [ucast (carry AND (push_bit 8 1 - 1))], drop_bit 8 carry, carry_bits - 8)
         else (result, carry, carry_bits))"

definition c32_decode :: "string \<Rightarrow> (address_error, bytes) res" where
  "c32_decode input_str =
     (let digits_opts = map (index_of C32_CHARACTERS) (rev (c32_normalize input_str));
          digits = map the (filter (\<lambda>x. x \<noteq> None) digits_opts)
      in if length digits \<noteq> length digits_opts then Err InvalidCrockford32
         else let (result, carry, carry_bits) = fold c32_decode_step digits ([], 0, 0);
                  result = (if carry_bits > 0 then result @ [ucast carry] else result)
              in Ok (rev (strip_zeros 0 result @ map (\<lambda>_. 0) (takeWhile (\<lambda>x. x = CHR ''0'') input_str))))"

definition double_sha256_checksum :: "externals \<Rightarrow> bytes \<Rightarrow> bytes" where
  "double_sha256_checksum X data = slice 0 4 (sha256 X (sha256 X data))"

definition c32_check_encode :: "externals \<Rightarrow> u8 \<Rightarrow> bytes \<Rightarrow> (address_error, string) res" where
  "c32_check_encode X version data =
     (if version \<ge> 32 then Err (InvalidVersion version)
      else let checksum = double_sha256_checksum X (version # data)
           in and_then (c32_encode (data @ checksum)) (\<lambda>c32_string.
              and_then (nth_res C32_CHARACTERS (unat version)) (\<lambda>version_char. Ok (version_char # c32_string))))"

definition le_u32 :: "bytes \<Rightarrow> u32" where
  "le_u32 b = ucast (b ! 0) OR push_bit 8 (ucast (b ! 1)) OR push_bit 16 (ucast (b ! 2)) OR push_bit 24 (ucast (b ! 3))"

definition c32_check_decode :: "externals \<Rightarrow> string \<Rightarrow> (address_error, u8 \<times> bytes) res" where
  "c32_check_decode X check_data_unsanitized =
     (if length check_data_unsanitized < 2 then Err InvalidCrockford32
      else let check_data = c32_normalize check_data_unsanitized;
               version = take 1 check_data; data = drop 1 check_data
           in and_then (c32_decode data) (\<lambda>data_sum_bytes.
                if length data_sum_bytes < 5 then Err InvalidCrockford32
                else let data_bytes = take (length data_sum_bytes - 4) data_sum_bytes;
                         expected_sum = drop (length data_sum_bytes - 4) data_sum_bytes
                     in and_then (c32_decode version) (\<lambda>version.
                          let check_data = version @ data_bytes;
                              computed_sum = double_sha256_checksum X check_data
                          in if computed_sum \<noteq> expected_sum then Err (BadChecksum (le_u32 computed_sum) (le_u32 expected_sum))
                             else and_then (nth_res check_data 0) (\<lambda>version. Ok (version, data_bytes)))))"

definition c32_address_decode :: "externals \<Rightarrow> string \<Rightarrow> (address_error, u8 \<times> bytes) res" where
  "c32_address_decode X c32_address_str =
     (if length c32_address_str \<le> 5 then Err InvalidCrockford32 else c32_check_decode X (drop 1 c32_address_str))"

definition c32_address :: "externals \<Rightarrow> u8 \<Rightarrow> bytes \<Rightarrow> (address_error, string) res" where
  "c32_address X version data = and_then (c32_check_encode X version data) (\<lambda>c32_string. Ok (CHR ''S'' # c32_string))"

section \<open>The loops compute in base 32 and base 256\<close>

definition c32_char :: "nat \<Rightarrow> char" where
  "c32_char d = C32_CHARACTERS ! d"

lemma length_C32 [simp]: "length C32_CHARACTERS = 32"
  by (simp add: C32_CHARACTERS_def)

lemma nth_res_C32: "d < 32 \<Longrightarrow> nth_res C32_CHARACTERS d = Ok (c32_char d)"
  by (simp add: nth_res_def c32_char_def)

text \<open>The state of the encoder after the bytes \<open>bs\<close> (least significant first).\<close>

definition encoder_inv :: "u8 list \<Rightarrow> nat list \<Rightarrow> string \<times> u8 \<times> nat \<Rightarrow> bool" where
  "encoder_inv bs ds st \<longleftrightarrow> (case st of (result, carry, carry_bits) \<Rightarrow>
     result = map c32_char ds \<and> (\<forall>d \<in> set ds. d < 32) \<and> carry_bits < 5 \<and> unat carry < 2 ^ carry_bits \<and>
     8 * length bs = 5 * length ds + carry_bits \<and>
     digits_value 256 (map unat bs) = digits_value 32 ds + 32 ^ length ds * unat carry)"

lemma split_low_high: "k \<le> 5 \<Longrightarrow> a + 2 ^ (5 - k) * b = c \<Longrightarrow> (2 :: nat) ^ k * a + 32 * b = 2 ^ k * c"
proof -
  assume k: "k \<le> 5" and c: "a + 2 ^ (5 - k) * b = c"
  have "(2 :: nat) ^ k * 2 ^ (5 - k) = 32" using k by (simp add: power_add [symmetric])
  then show ?thesis using c by (metis distrib_left mult.assoc)
qed

lemma byte_high_bits: "k \<le> 8 \<Longrightarrow> unat (w :: u8) div 2 ^ (8 - k) < 2 ^ k"
proof -
  assume "k \<le> 8"
  then have "(2 :: nat) ^ k * 2 ^ (8 - k) = 256" by (simp add: power_add [symmetric])
  then show ?thesis using u8_less [of w] by (intro less_mult_imp_div_less) simp
qed

lemma encode_step_inv:
  assumes "encoder_inv bs ds st"
  shows "\<exists>st' ds'. c32_encode_step cur st = (Ok st' :: ('e, _) res) \<and> encoder_inv (bs @ [cur]) ds' st'"
proof -
  obtain result carry cb where st: "st = (result, carry, cb)" by (cases st)
  have inv: "result = map c32_char ds" "\<forall>d \<in> set ds. d < 32" "cb < 5" "unat carry < 2 ^ cb" "8 * length bs = 5 * length ds + cb"
    "digits_value 256 (map unat bs) = digits_value 32 ds + 32 ^ length ds * unat carry"
    using assms by (simp_all add: encoder_inv_def st)
  define low where "low = cur AND (2 ^ (5 - cb) - 1)"
  define c0 where "c0 = unat carry + 2 ^ cb * unat low"
  define c1 where "c1 = unat cur div 2 ^ (5 - cb)"
  have low: "unat low = unat cur mod 2 ^ (5 - cb)" by (simp only: low_def unat_low_bits_power)
  have c0: "unat (push_bit cb low + carry) = c0" "c0 < 32"
    using unat_shifted_in [of low 5 cb carry] inv(3,4) by (simp_all add: c0_def low)
  define carry' where "carry' = drop_bit (8 - (8 + cb - 5)) cur"
  have c1: "unat carry' = c1" "c1 < 2 ^ (cb + 3)"
    using byte_high_bits [of "cb + 3" cur] inv(3) by (simp_all add: carry'_def c1_def unat_drop_bit)
  have split: "c0 + 32 * c1 = unat carry + 2 ^ cb * unat cur"
    using split_low_high [of cb "unat low" c1 "unat cur"] inv(3) by (simp add: c0_def low c1_def)
  have "(256 :: nat) ^ length bs = 2 ^ (8 * length bs)" by (simp add: power_mult)
  then have "(256 :: nat) ^ length bs = 32 ^ length ds * 2 ^ cb" by (simp add: inv(5) power_add power_mult)
  then have val: "digits_value 256 (map unat (bs @ [cur])) = digits_value 32 ds + 32 ^ length ds * (c0 + 32 * c1)"
    unfolding split by (simp add: digits_value_append inv(6) algebra_simps)
  have step: "c32_encode_step cur st = (Ok (if cb + 3 \<ge> 5 then (map c32_char (ds @ [c0, c1 mod 32]), drop_bit 5 carry', cb - 2)
      else (map c32_char (ds @ [c0]), carry', cb + 3)) :: ('e, _) res)"
    unfolding c32_encode_step_def st Let_def prod.case push_bit_of_1 low_def [symmetric] carry'_def [symmetric] c0(1)
    by (simp add: nth_res_C32 c0(2) c1(1) unat_low_5_bits inv(1))
  show ?thesis
  proof (cases "cb + 3 \<ge> 5")
    case True
    have "unat (drop_bit 5 carry') = c1 div 32" by (simp add: unat_drop_bit c1(1) del: unsigned_drop_bit_eq)
    moreover have "c1 div 32 < 2 ^ (cb - 2)"
      using c1(2) True power_add [of "2 :: nat" "cb - 2" 5] by (intro less_mult_imp_div_less) (simp add: add.commute)
    moreover have "digits_value 256 (map unat (bs @ [cur]))
      = digits_value 32 (ds @ [c0, c1 mod 32]) + 32 ^ length (ds @ [c0, c1 mod 32]) * (c1 div 32)"
      using digits_value_carry [of 32 "ds @ [c0]" c1] unfolding val by (simp add: digits_value_append algebra_simps)
    ultimately have "encoder_inv (bs @ [cur]) (ds @ [c0, c1 mod 32]) (map c32_char (ds @ [c0, c1 mod 32]), drop_bit 5 carry', cb - 2)"
      using inv(2,3,5) c0(2) True by (auto simp: encoder_inv_def)
    then show ?thesis using True unfolding step by (simp only: if_True) blast
  next
    case False
    have "encoder_inv (bs @ [cur]) (ds @ [c0]) (map c32_char (ds @ [c0]), carry', cb + 3)"
      using inv(2,5) c0(2) c1 False val by (auto simp: encoder_inv_def digits_value_append algebra_simps)
    then show ?thesis using False unfolding step by (simp only: if_False) blast
  qed
qed

lemma encode_fold_inv:
  assumes "encoder_inv bs ds st"
  shows "\<exists>st' ds'. fold_res c32_encode_step cs st = (Ok st' :: ('e, _) res) \<and> encoder_inv (bs @ cs) ds' st'"
  using assms
proof (induction cs arbitrary: bs ds st)
  case (Cons c cs)
  obtain st' ds' where s: "c32_encode_step c st = (Ok st' :: ('e, _) res)" "encoder_inv (bs @ [c]) ds' st'"
    using encode_step_inv [OF Cons.prems] by blast
  show ?case using Cons.IH [OF s(2)] by (simp add: s(1))
qed auto

lemma c32_distinct: "distinct C32_CHARACTERS"
  by (simp add: C32_CHARACTERS_def)

lemma c32_char_inj: "i < 32 \<Longrightarrow> j < 32 \<Longrightarrow> c32_char i = c32_char j \<longleftrightarrow> i = j"
  by (simp add: c32_char_def nth_eq_iff_index_eq c32_distinct)

lemma c32_encode_digits:
  "\<exists>ds. (\<forall>d \<in> set ds. d < 32) \<and> (ds \<noteq> [] \<longrightarrow> last ds \<noteq> 0) \<and> digits_value 32 ds = bytes_value bs \<and>
     c32_encode bs = (Ok (replicate (leading_zeros bs) (c32_char 0) @ map c32_char (rev ds)) :: ('e, _) res)"
proof -
  have "encoder_inv [] [] ([], 0, 0)" by (simp add: encoder_inv_def)
  from encode_fold_inv [OF this, of "rev bs"] obtain result carry cb ds0
    where f: "fold_res c32_encode_step (rev bs) ([], 0, 0) = (Ok (result, carry, cb) :: ('e, _) res)"
      and inv: "encoder_inv (rev bs) ds0 (result, carry, cb)" by auto
  define ds1 where "ds1 = (if cb > 0 then ds0 @ [unat carry] else ds0)"
  have "unat carry < 32" using inv power_strict_increasing [of cb 5 "2 :: nat"] by (simp add: encoder_inv_def)
  then have ds1: "\<forall>d \<in> set ds1. d < 32" "digits_value 32 ds1 = bytes_value bs"
    using inv by (auto simp: ds1_def encoder_inv_def bytes_value_def digits_value_append)
  have out: "(if cb > 0 then and_then (nth_res C32_CHARACTERS (unat carry)) (\<lambda>c. Ok (result @ [c])) else Ok result)
      = (Ok (map c32_char ds1) :: ('e, _) res)"
    using inv \<open>unat carry < 32\<close> by (simp add: ds1_def encoder_inv_def nth_res_C32)
  have "inj_on c32_char (insert 0 (set ds1))" by (rule inj_onI) (use ds1(1) c32_char_inj in auto)
  then have strip: "strip_zeros (c32_char 0) (map c32_char ds1) = map c32_char (strip_zeros 0 ds1)" by (rule strip_zeros_map)
  have "c32_encode bs = (Ok (replicate (leading_zeros bs) (c32_char 0) @ map c32_char (rev (strip_zeros 0 ds1))) :: ('e, _) res)"
    by (simp add: c32_encode_def f out strip c32_char_def [symmetric] Let_def rev_map leading_zeros_def map_replicate_const)
  then show ?thesis
    using ds1 strip_zeros_subset [of 0 ds1] strip_zeros_last [of 0 ds1] by (intro exI [of _ "strip_zeros 0 ds1"]) (auto simp: strip_zeros_value)
qed

text \<open>The state of the decoder after the digits \<open>ds\<close> (least significant first).\<close>

definition decoder_inv :: "nat list \<Rightarrow> bytes \<times> u16 \<times> nat \<Rightarrow> bool" where
  "decoder_inv ds st \<longleftrightarrow> (case st of (result, carry, carry_bits) \<Rightarrow>
     carry_bits < 8 \<and> unat carry < 2 ^ carry_bits \<and> 5 * length ds = 8 * length result + carry_bits \<and>
     digits_value 32 ds = digits_value 256 (map unat result) + 256 ^ length result * unat carry)"

lemma decode_step_inv:
  assumes "decoder_inv ds st" and d: "d < 32"
  shows "decoder_inv (ds @ [d]) (c32_decode_step d st)"
proof -
  obtain result carry cb where st: "st = (result, carry, cb)" by (cases st)
  have inv: "cb < 8" "unat carry < 2 ^ cb" "5 * length ds = 8 * length result + cb"
    "digits_value 32 ds = digits_value 256 (map unat result) + 256 ^ length result * unat carry"
    using assms by (simp_all add: decoder_inv_def st)
  have ud: "unat (of_nat d :: u16) = d" using d by (simp add: unat_of_nat)
  define carry' where "carry' = carry + push_bit cb (of_nat d)"
  have c: "unat carry' = unat carry + 2 ^ cb * d" "unat carry' < 2 ^ (cb + 5)"
    using unat_shifted_in [of "of_nat d :: u16" "cb + 5" cb carry] inv(1,2) d ud by (simp_all add: carry'_def add.commute)
  have "(32 :: nat) ^ length ds = 2 ^ (5 * length ds)" by (simp add: power_mult)
  then have "(32 :: nat) ^ length ds = 256 ^ length result * 2 ^ cb" by (simp add: inv(3) power_add power_mult)
  then have val: "digits_value 32 (ds @ [d]) = digits_value 256 (map unat result) + 256 ^ length result * unat carry'"
    by (simp add: digits_value_append inv(4) c(1) algebra_simps)
  show ?thesis
  proof (cases "cb + 5 \<ge> 8")
    case True
    define b :: u8 where "b = ucast (carry' AND (push_bit 8 1 - 1))"
    have step: "c32_decode_step d st = (result @ [b], drop_bit 8 carry', cb + 5 - 8)"
      unfolding c32_decode_step_def st Let_def prod.case carry'_def [symmetric] b_def using True by simp
    have b: "unat b = unat carry' mod 256" by (simp add: b_def unat_low_byte unat_low_8_bits)
    have dr: "unat (drop_bit 8 carry') = unat carry' div 256" by (simp add: unat_drop_bit del: unsigned_drop_bit_eq)
    have "unat carry' div 256 < 2 ^ (cb - 3)"
      using c(2) True power_add [of "2 :: nat" "cb - 3" 8] by (intro less_mult_imp_div_less) (simp add: add.commute)
    moreover have "digits_value 32 (ds @ [d]) = digits_value 256 (map unat (result @ [b])) + 256 ^ length (result @ [b]) * (unat carry' div 256)"
      using digits_value_carry [of 256 "map unat result" "unat carry'"] unfolding val by (simp add: b)
    ultimately show ?thesis using inv(1,3) True unfolding step by (simp add: decoder_inv_def dr)
  next
    case False
    have step: "c32_decode_step d st = (result, carry', cb + 5)"
      unfolding c32_decode_step_def st Let_def prod.case carry'_def [symmetric] using False by simp
    show ?thesis using val inv(3) c(2) False unfolding step by (simp add: decoder_inv_def)
  qed
qed

lemma decode_fold_inv: "decoder_inv ds st \<Longrightarrow> \<forall>d \<in> set es. d < 32 \<Longrightarrow> decoder_inv (ds @ es) (fold c32_decode_step es st)"
proof (induction es arbitrary: ds st)
  case (Cons e es)
  then show ?case using Cons.IH [OF decode_step_inv [of ds st e]] by simp
qed simp

section \<open>Decoding what was encoded\<close>

lemma normalize_char: "\<forall>c \<in> set C32_CHARACTERS. c32_normalize [c] = [c]"
  by code_simp

lemma c32_normalize_Cons: "c32_normalize (c # cs) = c32_normalize [c] @ c32_normalize cs"
  by (simp add: c32_normalize_def)

lemma c32_char_in: "d < 32 \<Longrightarrow> c32_char d \<in> set C32_CHARACTERS"
  by (simp add: c32_char_def)

lemma c32_normalize_digits: "\<forall>d \<in> set ds. d < 32 \<Longrightarrow> c32_normalize (map c32_char ds) = map c32_char ds"
proof (induction ds)
  case (Cons d ds)
  then show ?case using normalize_char c32_char_in [of d] c32_normalize_Cons [of "c32_char d"] by simp
qed (simp add: c32_normalize_def)

lemma c32_char_zero: "c32_char 0 = CHR ''0''"
  by (simp add: c32_char_def C32_CHARACTERS_def)

lemma index_of_c32_char: "d < 32 \<Longrightarrow> index_of C32_CHARACTERS (c32_char d) = Some d"
  by (simp add: index_of_Some c32_distinct c32_char_def)

lemma c32_decode_digits:
  assumes ds: "\<forall>d \<in> set ds. d < 32"
  obtains R where "c32_decode (map c32_char ds) = Ok (rev (strip_zeros 0 R @ replicate (length (takeWhile (\<lambda>d. d = 0) ds)) 0))"
    and "digits_value 256 (map unat R) = digits_value 32 (rev ds)"
proof -
  obtain result carry cb where f: "fold c32_decode_step (rev ds) ([], 0, 0) = (result, carry, cb)" by (metis prod_cases3)
  define R where "R = (if cb > 0 then result @ [ucast carry] else result)"
  have "decoder_inv (rev ds) (result, carry, cb)"
    using decode_fold_inv [of "[]" "([], 0, 0)" "rev ds"] ds by (simp add: f decoder_inv_def)
  then have inv: "cb < 8" "unat carry < 2 ^ cb"
    "digits_value 32 (rev ds) = digits_value 256 (map unat result) + 256 ^ length result * unat carry"
    by (simp_all add: decoder_inv_def)
  have "unat carry < 256" using inv(1,2) power_strict_increasing [of cb 8 "2 :: nat"] by simp
  then have R: "digits_value 256 (map unat R) = digits_value 32 (rev ds)"
    using inv(2) by (auto simp: R_def inv(3) digits_value_append unat_low_byte)
  have opts: "map (index_of C32_CHARACTERS) (rev (map c32_char ds)) = map Some (rev ds)"
    using ds by (auto simp: rev_map index_of_c32_char)
  have "takeWhile (\<lambda>x. x = CHR ''0'') (map c32_char ds) = map c32_char (takeWhile (\<lambda>d. d = 0) ds)"
    using ds c32_char_inj [of _ 0] unfolding takeWhile_map c32_char_zero [symmetric]
    by (auto intro!: arg_cong [where f = "map c32_char"] takeWhile_cong)
  then have "c32_decode (map c32_char ds) = Ok (rev (strip_zeros 0 R @ replicate (length (takeWhile (\<lambda>d. d = 0) ds)) 0))"
    by (simp add: c32_decode_def c32_normalize_digits [OF ds] opts f R_def Let_def filter_map comp_def map_replicate_const)
  then show ?thesis using R that by blast
qed

text \<open>An encoding has at least as many characters as there are bytes.\<close>

lemma digits_length:
  assumes ds: "\<forall>d \<in> set ds. d < 32" and val: "digits_value 32 ds = bytes_value bs"
  shows "length bs \<le> leading_zeros bs + length ds"
proof (cases "dropWhile (\<lambda>b. b = 0) bs")
  case Nil
  then show ?thesis using leading_zeros_split [of bs] by (metis append_Nil2 le_add1 length_replicate)
next
  case (Cons t ts)
  then have bs: "bs = replicate (leading_zeros bs) 0 @ t # ts" and t: "t \<noteq> 0"
    using leading_zeros_split [of bs] by (simp, metis (mono_tags) dropWhile_eq_Cons_conv)
  define ts' where "ts' = map unat (rev (t # ts))"
  have "bytes_value bs = digits_value 256 (ts' @ replicate (leading_zeros bs) 0)"
    unfolding bytes_value_def ts'_def by (subst bs) simp
  then have "bytes_value bs = digits_value 256 ts'" by (simp add: digits_value_append)
  then have "256 ^ length ts \<le> bytes_value bs" using digits_value_ge [of ts' 256] t by (simp add: ts'_def unat_eq_0)
  moreover have "bytes_value bs < 32 ^ length ds" using digits_value_less [OF ds] val by simp
  ultimately have "(256 :: nat) ^ length ts < 32 ^ length ds" by simp
  also have "\<dots> \<le> 256 ^ length ds" by (rule power_mono) simp_all
  finally have "length ts < length ds" by (rule power_less_imp_less_exp [rotated]) simp
  moreover have "length bs = leading_zeros bs + length (t # ts)" by (subst bs) simp
  ultimately show ?thesis by simp
qed

lemma c32_decode_encode:
  "\<exists>s. c32_encode bs = (Ok s :: ('e, _) res) \<and> c32_decode s = Ok bs \<and> c32_normalize s = s \<and> length bs \<le> length s \<and>
     set s \<subseteq> set C32_CHARACTERS"
proof -
  obtain ds where ds: "\<forall>d \<in> set ds. d < 32" "ds \<noteq> [] \<longrightarrow> last ds \<noteq> 0" "digits_value 32 ds = bytes_value bs"
    and enc: "c32_encode bs = (Ok (replicate (leading_zeros bs) (c32_char 0) @ map c32_char (rev ds)) :: ('e, _) res)"
    using c32_encode_digits by blast
  define es where "es = replicate (leading_zeros bs) 0 @ rev ds"
  have es: "\<forall>d \<in> set es. d < 32" using ds(1) by (auto simp: es_def)
  obtain R where R: "c32_decode (map c32_char es) = Ok (rev (strip_zeros 0 R @ replicate (length (takeWhile (\<lambda>d. d = 0) es)) 0))"
    "digits_value 256 (map unat R) = digits_value 32 (rev es)" using c32_decode_digits [OF es] by blast
  have z: "takeWhile (\<lambda>d. d = 0) es = replicate (leading_zeros bs) 0"
    unfolding es_def by (rule takeWhile_zeros) (simp add: hd_rev ds(2))
  have "strip_zeros 0 (map unat R) = strip_zeros 0 (map unat (rev bs))"
    by (rule strip_zeros_unique [of _ 256]) (use R(2) ds(3) in \<open>auto simp: u8_less bytes_value_def es_def digits_value_append\<close>)
  then have "strip_zeros 0 R = strip_zeros 0 (rev bs)" by (simp only: strip_zeros_unat inj_map_eq_map [OF inj_unat])
  moreover have "replicate (leading_zeros bs) 0 @ dropWhile (\<lambda>b. b = 0) bs = bs"
    by (rule leading_zeros_split)
  ultimately have "c32_decode (map c32_char es) = Ok bs" by (simp add: R(1) z strip_zeros_def)
  moreover have "c32_encode bs = (Ok (map c32_char es) :: ('e, _) res)" by (simp add: enc es_def)
  moreover have "set (map c32_char es) \<subseteq> set C32_CHARACTERS" using es c32_char_in by auto
  ultimately show ?thesis using c32_normalize_digits [OF es] digits_length [OF ds(1,3)] by (auto simp: es_def)
qed

lemma version_char: "v < 32 \<Longrightarrow> c32_decode [c32_char (unat v)] = Ok [v]"
proof -
  assume "v < 32"
  then have v: "unat v < 32" by (simp add: word_less_nat_alt)
  then have ds: "\<forall>d \<in> set [unat v]. d < 32" by simp
  obtain R where R: "c32_decode (map c32_char [unat v]) =
      Ok (rev (strip_zeros 0 R @ replicate (length (takeWhile (\<lambda>d. d = 0) [unat v])) 0))"
    "digits_value 256 (map unat R) = digits_value 32 (rev [unat v])" using c32_decode_digits [OF ds] by blast
  have "strip_zeros 0 (map unat R) = strip_zeros 0 (map unat [v])"
    by (rule strip_zeros_unique [of _ 256]) (use R(2) in \<open>auto simp: u8_less\<close>)
  then have "strip_zeros 0 R = strip_zeros 0 [v]" by (simp only: strip_zeros_unat inj_map_eq_map [OF inj_unat])
  then show ?thesis using R(1) by (simp add: strip_zeros_def unat_eq_0)
qed

lemma c32_address_decodes:
  assumes v: "v < 32" and data: "data \<noteq> []" and size: "digest_sizes X"
  shows "\<exists>s. c32_address X v data = Ok s \<and> c32_address_decode X s = Ok (v, data) \<and> set s \<subseteq> set C32_CHARACTERS \<and> s \<noteq> []"
proof -
  define sum where "sum = double_sha256_checksum X (v # data)"
  have ls: "length sum = 4" by (simp add: sum_def double_sha256_checksum_def slice_def size [unfolded digest_sizes_def])
  have vn: "unat v < 32" using v by (simp add: word_less_nat_alt)
  obtain s where s: "c32_encode (data @ sum) = (Ok s :: (address_error, _) res)" "c32_decode s = Ok (data @ sum)"
    "c32_normalize s = s" "length (data @ sum) \<le> length s" "set s \<subseteq> set C32_CHARACTERS" using c32_decode_encode by blast
  have n: "c32_normalize (c32_char (unat v) # s) = c32_char (unat v) # s"
    using c32_normalize_Cons [of "c32_char (unat v)" s] normalize_char c32_char_in [OF vn] s(3) by simp
  have "c32_address X v data = Ok (CHR ''S'' # c32_char (unat v) # s)"
    using v [unfolded not_le [symmetric]] by (simp add: c32_address_def c32_check_encode_def sum_def [symmetric] s(1) nth_res_C32 [OF vn])
  moreover have "4 < length s" using s(4) ls data by (cases data) simp_all
  moreover have "c32_check_decode X (c32_char (unat v) # s) = Ok (v, data)"
  proof -
    have "\<not> length data + 4 < 5" "0 < length s" using data \<open>4 < length s\<close> by (auto simp: Suc_le_eq)
    then show ?thesis
      by (simp add: c32_check_decode_def n s(2) Let_def ls version_char [OF v] sum_def [symmetric] nth_res_def)
  qed
  moreover have "CHR ''S'' \<in> set C32_CHARACTERS" by (simp add: C32_CHARACTERS_def)
  ultimately show ?thesis using s(5) c32_char_in [OF vn] by (simp add: c32_address_decode_def)
qed

section \<open>The property\<close>

text \<open>C28. Text addresses read back. For every version below 32 and every non-empty payload, writing the address
  in c32 succeeds, and reading the text (which re-computes the checksum) returns exactly the version and the
  payload, leading zero bytes included. A version of 32 or more has no text form: writing it is the error
  \<open>InvalidVersion\<close>.\<close>

theorem c32_address_round_trip:
  assumes "data \<noteq> []" and "digest_sizes X"
  shows "if v < 32 then \<exists>s. c32_address X v data = Ok s \<and> c32_address_decode X s = Ok (v, data)
    else c32_address X v data = Err (InvalidVersion v)"
proof (cases "v < 32")
  case True
  then show ?thesis using c32_address_decodes [OF _ assms] by auto
qed (simp add: c32_address_def c32_check_encode_def not_less)

theorem c32_address_round_trip_witness:
  "\<exists>s. c32_address example_externals 22 [0, 0, 7] = Ok s \<and> c32_address_decode example_externals s = Ok (22, [0, 0, 7])"
  using c32_address_round_trip [of "[0, 0, 7]" example_externals 22] by (simp add: example_externals_def digest_sizes_def)

end
