(* ===== verification/Principals.thy ===== *)
theory Principals
  imports C32
begin

text \<open>
  Names and principals of the Clarity virtual machine and their text forms (\<^verbatim>\<open>src/vm/types/mod.rs\<close>,
  \<^verbatim>\<open>src/vm/representations.rs\<close>), and the hexadecimal text of bytes (\<^verbatim>\<open>src/util/hash.rs\<close>). The text of a
  principal is the key under which accounts and contracts are stored, so the property is that it determines the
  principal.
\<close>

section \<open>Hexadecimal\<close>

datatype hex_error = BadLength nat | BadCharacter char

definition HEX_DIGITS :: string where
  "HEX_DIGITS = ''0123456789abcdef''"

definition to_hex :: "bytes \<Rightarrow> string" where
  "to_hex s = concat (map (\<lambda>b. [HEX_DIGITS ! (unat b div 16), HEX_DIGITS ! (unat b mod 16)]) s)"

definition to_digit16 :: "char \<Rightarrow> nat option" where
  "to_digit16 c = (let n = of_char c :: nat in
     if 48 \<le> n \<and> n \<le> 57 then Some (n - 48) else if 97 \<le> n \<and> n \<le> 102 then Some (n - 87)
     else if 65 \<le> n \<and> n \<le> 70 then Some (n - 55) else None)"

fun hex_pairs :: "nat \<Rightarrow> string \<Rightarrow> (hex_error, bytes) res" where
  "hex_pairs len [] = Ok []"
| "hex_pairs len [c] = Err (BadLength len)"
| "hex_pairs len (f # s # cs) =
     (case (to_digit16 f, to_digit16 s) of
        (None, _) \<Rightarrow> Err (BadCharacter f)
      | (_, None) \<Rightarrow> Err (BadCharacter s)
      | (Some f, Some s) \<Rightarrow> and_then (hex_pairs len cs) (\<lambda>v. Ok (of_nat (f * 16 + s) # v)))"

definition hex_bytes :: "string \<Rightarrow> (hex_error, bytes) res" where
  "hex_bytes s = hex_pairs (length s) s"

lemma hex_digit: "n < 16 \<Longrightarrow> to_digit16 (HEX_DIGITS ! n) = Some n"
proof -
  have "list_all (\<lambda>n. to_digit16 (HEX_DIGITS ! n) = Some n) [0..<16]" by (simp add: HEX_DIGITS_def to_digit16_def upt_rec)
  then show "n < 16 \<Longrightarrow> ?thesis" by (simp add: list_all_iff)
qed

lemma hex_pairs_to_hex: "hex_pairs n (to_hex bs) = Ok bs"
proof (induction bs)
  case (Cons b bs)
  have "unat b div 16 < 16" "unat b mod 16 < 16" using u8_less [of b] by auto
  moreover have "of_nat (unat b div 16 * 16 + unat b mod 16) = b" by simp
  ultimately show ?case using Cons by (simp add: to_hex_def hex_digit)
qed (simp add: to_hex_def)

lemma hex_bytes_to_hex [simp]: "hex_bytes (to_hex bs) = Ok bs"
  by (simp add: hex_bytes_def hex_pairs_to_hex)

lemma length_to_hex [simp]: "length (to_hex bs) = 2 * length bs"
  by (induction bs) (simp_all add: to_hex_def)

lemma to_hex_append: "to_hex (as @ bs) = to_hex as @ to_hex bs"
  by (simp add: to_hex_def)

section \<open>Names\<close>

text \<open>The errors of this part; a parse error carries its cause in place of the message.\<close>

datatype parse_cause = NoDot | BadAddress address_error | NotTwentyBytes

datatype vm_error = BadNameValue string string | ParseError parse_cause | UnknownBlockHeaderHash bytes | NoSuchContract string

definition MAX_STRING_LEN :: nat where
  "MAX_STRING_LEN = 128"

definition is_letter :: "char \<Rightarrow> bool" where
  "is_letter c = (let n = of_char c :: nat in 65 \<le> n \<and> n \<le> 90 \<or> 97 \<le> n \<and> n \<le> 122)"

definition is_decimal :: "char \<Rightarrow> bool" where
  "is_decimal c = (let n = of_char c :: nat in 48 \<le> n \<and> n \<le> 57)"

fun clarity_name_regex :: "string \<Rightarrow> bool" where
  "clarity_name_regex [] = False"
| "clarity_name_regex (c # cs) =
     (is_letter c \<and> list_all (\<lambda>d. is_letter d \<or> is_decimal d \<or> d \<in> set ''-_!?+<>=/*'') cs \<or>
      c \<in> set ''-+=/*'' \<and> cs = [] \<or> c \<in> set ''<>'' \<and> (cs = [] \<or> cs = ''=''))"

fun contract_name_regex :: "string \<Rightarrow> bool" where
  "contract_name_regex [] = False"
| "contract_name_regex (c # cs) =
     (is_letter c \<and> list_all (\<lambda>d. is_letter d \<or> is_decimal d \<or> d \<in> set ''-_'') cs \<or> c # cs = ''__transient'')"

definition guarded_string :: "string \<Rightarrow> (string \<Rightarrow> bool) \<Rightarrow> string \<Rightarrow> (vm_error, string) res" where
  "guarded_string label regex value =
     (if length value > MAX_STRING_LEN then Err (BadNameValue label value)
      else if regex value then Ok value else Err (BadNameValue label value))"

definition clarity_name_try_from :: "string \<Rightarrow> (vm_error, string) res" where
  "clarity_name_try_from = guarded_string ''ClarityName'' clarity_name_regex"

definition contract_name_try_from :: "string \<Rightarrow> (vm_error, string) res" where
  "contract_name_try_from = guarded_string ''ContractName'' contract_name_regex"

section \<open>Principals\<close>

datatype StandardPrincipalData = StandardPrincipalData (sp_version: u8) (sp_bytes: bytes)

datatype QualifiedContractIdentifier = QualifiedContractIdentifier (issuer: StandardPrincipalData) (contract_name: string)

datatype PrincipalData = Standard StandardPrincipalData | Contract QualifiedContractIdentifier

definition to_address :: "externals \<Rightarrow> StandardPrincipalData \<Rightarrow> string" where
  "to_address X p = (case c32_address X (sp_version p) (sp_bytes p) of Ok s \<Rightarrow> s | _ \<Rightarrow> ''INVALID_C32_ADD'')"

definition contract_to_string :: "externals \<Rightarrow> QualifiedContractIdentifier \<Rightarrow> string" where
  "contract_to_string X c = to_address X (issuer c) @ ''.'' @ contract_name c"

definition principal_to_string :: "externals \<Rightarrow> PrincipalData \<Rightarrow> string" where
  "principal_to_string X p =
     (case p of Standard s \<Rightarrow> to_address X s | Contract c \<Rightarrow> to_address X (issuer c) @ ''.'' @ contract_name c)"

definition parse_standard_principal :: "externals \<Rightarrow> string \<Rightarrow> (vm_error, StandardPrincipalData) res" where
  "parse_standard_principal X literal =
     (case c32_address_decode X literal of
        Err x \<Rightarrow> Err (ParseError (BadAddress x))
      | Panic \<Rightarrow> Panic
      | Ok (version, data) \<Rightarrow>
          if length data \<noteq> 20 then Err (ParseError NotTwentyBytes)
          else Ok (StandardPrincipalData version data))"

text \<open>\<^verbatim>\<open>splitn(2, ".")\<close>: the text before the first dot and, if there is one, the text after it.\<close>

definition splitn2 :: "char \<Rightarrow> string \<Rightarrow> string list" where
  "splitn2 c s =
     (if c \<in> set s then [takeWhile (\<lambda>x. x \<noteq> c) s, tl (dropWhile (\<lambda>x. x \<noteq> c) s)] else [s])"

definition contract_parse :: "externals \<Rightarrow> string \<Rightarrow> (vm_error, QualifiedContractIdentifier) res" where
  "contract_parse X literal =
     (let split = splitn2 (CHR ''.'') literal
      in if length split \<noteq> 2 then Err (ParseError NoDot)
         else and_then (parse_standard_principal X (split ! 0)) (\<lambda>sender.
              and_then (contract_name_try_from (split ! 1)) (\<lambda>name. Ok (QualifiedContractIdentifier sender name))))"

definition principal_parse :: "externals \<Rightarrow> string \<Rightarrow> (vm_error, PrincipalData) res" where
  "principal_parse X literal =
     (let literal = (if literal \<noteq> [] \<and> hd literal = CHR 0x27 then tl literal else literal)
      in if CHR ''.'' \<in> set literal then and_then (contract_parse X literal) (\<lambda>c. Ok (Contract c))
         else and_then (parse_standard_principal X literal) (\<lambda>p. Ok (Standard p)))"

section \<open>Text determines the principal\<close>

fun principal_issuer :: "PrincipalData \<Rightarrow> StandardPrincipalData" where
  "principal_issuer (Standard s) = s"
| "principal_issuer (Contract c) = issuer c"

text \<open>What the constructors of these types ensure: twenty bytes, and a name the guard accepts.\<close>

fun principal_wf :: "PrincipalData \<Rightarrow> bool" where
  "principal_wf (Standard s) \<longleftrightarrow> length (sp_bytes s) = 20"
| "principal_wf (Contract c) \<longleftrightarrow> length (sp_bytes (issuer c)) = 20 \<and> contract_name_try_from (contract_name c) = Ok (contract_name c)"

lemma address_reads_back:
  assumes X: "digest_sizes X" and p: "length (sp_bytes p) = 20" "sp_version p < 32"
  shows "parse_standard_principal X (to_address X p) = Ok p" "set (to_address X p) \<subseteq> set C32_CHARACTERS" "to_address X p \<noteq> []"
proof -
  have "sp_bytes p \<noteq> []" using p(1) by auto
  from c32_address_decodes [OF p(2) this X] obtain s where s: "c32_address X (sp_version p) (sp_bytes p) = Ok s"
    "c32_address_decode X s = Ok (sp_version p, sp_bytes p)" "set s \<subseteq> set C32_CHARACTERS" "s \<noteq> []" by blast
  then show "parse_standard_principal X (to_address X p) = Ok p" "set (to_address X p) \<subseteq> set C32_CHARACTERS" "to_address X p \<noteq> []"
    using p(1) by (simp_all add: to_address_def parse_standard_principal_def)
qed

lemma c32_no_punctuation: "CHR ''.'' \<notin> set C32_CHARACTERS" "CHR 0x27 \<notin> set C32_CHARACTERS"
  by (simp_all add: C32_CHARACTERS_def)

lemma splitn2_append: "c \<notin> set s \<Longrightarrow> splitn2 c (s @ c # t) = [s, t]"
  by (simp add: splitn2_def takeWhile_append dropWhile_append)

lemma principal_reads_back:
  assumes X: "digest_sizes X" and p: "principal_wf p" "sp_version (principal_issuer p) < 32"
  shows "principal_parse X (principal_to_string X p) = Ok p"
proof -
  let ?a = "to_address X (principal_issuer p)"
  have len: "length (sp_bytes (principal_issuer p)) = 20" using p(1) by (cases p) simp_all
  note a = address_reads_back [OF X len p(2)]
  then have no: "CHR ''.'' \<notin> set ?a" "hd ?a \<noteq> CHR 0x27" using c32_no_punctuation subsetD [OF a(2)] hd_in_set [OF a(3)] by (auto, metis)
  show ?thesis
  proof (cases p)
    case (Standard s)
    then show ?thesis using a no by (simp add: principal_to_string_def principal_parse_def)
  next
    case (Contract c)
    then show ?thesis using a no p(1)
      by (cases c) (simp add: principal_to_string_def principal_parse_def contract_parse_def splitn2_append)
  qed
qed

section \<open>The property\<close>

text \<open>C31. The text of a principal determines it: for every well-formed principal (twenty bytes, a contract name
  accepted by its guard) whose address version is below 32, parsing the text it prints as returns the same
  principal. For versions of 32 and more the text is the same placeholder whatever the twenty bytes are.\<close>

theorem principal_text_round_trip:
  assumes "digest_sizes X" and "principal_wf p"
  shows "if sp_version (principal_issuer p) < 32 then principal_parse X (principal_to_string X p) = Ok p
    else to_address X (principal_issuer p) = ''INVALID_C32_ADD''"
proof (cases "sp_version (principal_issuer p) < 32")
  case True
  then show ?thesis using principal_reads_back [OF assms] by simp
next
  case False
  then have "to_address X (principal_issuer p) = ''INVALID_C32_ADD''"
    by (simp add: to_address_def c32_address_def c32_check_encode_def not_less)
  then show ?thesis using False by simp
qed

theorem principal_text_round_trip_witness:
  "let p = Contract (QualifiedContractIdentifier (StandardPrincipalData 22 (replicate 20 7)) ''pox-2'')
   in principal_parse example_externals (principal_to_string example_externals p) = Ok p"
  using principal_text_round_trip [of example_externals "Contract (QualifiedContractIdentifier (StandardPrincipalData 22 (replicate 20 7)) ''pox-2'')"]
  by (simp add: example_externals_def digest_sizes_def contract_name_try_from_def guarded_string_def MAX_STRING_LEN_def
    is_letter_def is_decimal_def)

end
