(* ===== verification/BackingStore.thy ===== *)
theory BackingStore
  imports Principals Marf "HOL-Library.Mapping"
begin

text \<open>
  The stores under the Clarity database: the SQLite side store (\<^verbatim>\<open>src/vm/database/sqlite.rs\<close>), the trait
  \<^verbatim>\<open>ClarityBackingStore\<close> with its default methods, and its two implementations, over memory and over the fork
  index (\<^verbatim>\<open>src/vm/database/marf.rs\<close>). A table is the list of its rows; a savepoint keeps the tables as they were
  when it was set.
\<close>

section \<open>The side store\<close>

record sqlite_tables =
  data_table :: "(string \<times> string) list"
  metadata_table :: "(bytes \<times> string \<times> string) list"

record SqliteConnection =
  tables :: sqlite_tables
  savepoints :: "(bytes \<times> sqlite_tables) list"

definition sqlite_memory :: SqliteConnection where
  "sqlite_memory = \<lparr>tables = \<lparr>data_table = [], metadata_table = []\<rparr>, savepoints = []\<rparr>"

definition sqlite_put :: "string \<Rightarrow> string \<Rightarrow> SqliteConnection \<Rightarrow> SqliteConnection" where
  "sqlite_put key value conn =
     (let t = tables conn
      in conn\<lparr>tables := t\<lparr>data_table := filter (\<lambda>r. fst r \<noteq> key) (data_table t) @ [(key, value)]\<rparr>\<rparr>)"

definition sqlite_get :: "string \<Rightarrow> SqliteConnection \<Rightarrow> string option" where
  "sqlite_get key conn = map_of (data_table (tables conn)) key"

definition sqlite_has_entry :: "string \<Rightarrow> SqliteConnection \<Rightarrow> bool" where
  "sqlite_has_entry key conn = (sqlite_get key conn \<noteq> None)"

definition metadata_key :: "string \<Rightarrow> string \<Rightarrow> string" where
  "metadata_key contract_hash key = ''clr-meta::'' @ contract_hash @ ''::'' @ key"

text \<open>The rows of the metadata table are unique in their block and key.\<close>

definition sqlite_insert_metadata :: "bytes \<Rightarrow> string \<Rightarrow> string \<Rightarrow> string \<Rightarrow> SqliteConnection \<Rightarrow> ('e, SqliteConnection) res" where
  "sqlite_insert_metadata bhh contract_hash key value conn =
     (let key = metadata_key contract_hash key; t = tables conn
      in if list_ex (\<lambda>(b, k, _). b = bhh \<and> k = key) (metadata_table t) then Panic
         else Ok (conn\<lparr>tables := t\<lparr>metadata_table := metadata_table t @ [(bhh, key, value)]\<rparr>\<rparr>))"

definition commit_metadata_to :: "bytes \<Rightarrow> bytes \<Rightarrow> SqliteConnection \<Rightarrow> ('e, SqliteConnection) res" where
  "commit_metadata_to from to conn =
     (let t = tables conn; rows = map (\<lambda>(b, k, v). (if b = from then to else b, k, v)) (metadata_table t)
      in if distinct (map (\<lambda>(b, k, v). (b, k)) rows) then Ok (conn\<lparr>tables := t\<lparr>metadata_table := rows\<rparr>\<rparr>) else Panic)"

definition sqlite_get_metadata :: "bytes \<Rightarrow> string \<Rightarrow> string \<Rightarrow> SqliteConnection \<Rightarrow> string option" where
  "sqlite_get_metadata bhh contract_hash key conn =
     map_of (map (\<lambda>(b, k, v). ((b, k), v)) (metadata_table (tables conn))) (bhh, metadata_key contract_hash key)"

definition sqlite_begin :: "bytes \<Rightarrow> SqliteConnection \<Rightarrow> SqliteConnection" where
  "sqlite_begin key conn = conn\<lparr>savepoints := (key, tables conn) # savepoints conn\<rparr>"

text \<open>\<^verbatim>\<open>ROLLBACK TO\<close> the most recent savepoint of that name and \<^verbatim>\<open>RELEASE\<close> it; both fail when there is none.\<close>

definition sqlite_rollback :: "bytes \<Rightarrow> SqliteConnection \<Rightarrow> ('e, SqliteConnection) res" where
  "sqlite_rollback key conn =
     (case dropWhile (\<lambda>s. fst s \<noteq> key) (savepoints conn) of
        [] \<Rightarrow> Panic
      | (_, t) # rest \<Rightarrow> Ok (conn\<lparr>tables := t, savepoints := rest\<rparr>))"

definition delete_unconfirmed :: "bytes \<Rightarrow> SqliteConnection \<Rightarrow> SqliteConnection" where
  "delete_unconfirmed key conn =
     (let t = tables conn in conn\<lparr>tables := t\<lparr>metadata_table := filter (\<lambda>(b, _). b \<noteq> key) (metadata_table t)\<rparr>\<rparr>)"

definition sqlite_rollback_unconfirmed :: "bytes \<Rightarrow> SqliteConnection \<Rightarrow> ('e, SqliteConnection) res" where
  "sqlite_rollback_unconfirmed key conn = and_then (sqlite_rollback key conn) (\<lambda>conn. Ok (delete_unconfirmed key conn))"

definition sqlite_commit :: "bytes \<Rightarrow> SqliteConnection \<Rightarrow> ('e, SqliteConnection) res" where
  "sqlite_commit key conn =
     (case dropWhile (\<lambda>s. fst s \<noteq> key) (savepoints conn) of
        [] \<Rightarrow> Panic
      | _ # rest \<Rightarrow> Ok (conn\<lparr>savepoints := rest\<rparr>))"

section \<open>The trait\<close>

text \<open>A store is its state \<open>'s\<close> with the methods the trait requires. The default methods are written over them.\<close>

record 's ClarityBackingStore =
  st_put_all :: "(string \<times> string) list \<Rightarrow> 's \<Rightarrow> (vm_error, 's) res"
  st_get :: "string \<Rightarrow> 's \<Rightarrow> (vm_error, string option) res"
  st_set_block_hash :: "bytes \<Rightarrow> 's \<Rightarrow> (vm_error, bytes \<times> 's) res"
  st_get_block_at_height :: "u32 \<Rightarrow> 's \<Rightarrow> (vm_error, bytes option) res"
  st_get_current_block_height :: "'s \<Rightarrow> (vm_error, u32) res"
  st_get_open_chain_tip_height :: "'s \<Rightarrow> (vm_error, u32) res"
  st_get_open_chain_tip :: "'s \<Rightarrow> (vm_error, bytes) res"
  st_get_side_store :: "'s \<Rightarrow> SqliteConnection"
  st_set_side_store :: "SqliteConnection \<Rightarrow> 's \<Rightarrow> 's"

definition st_has_entry :: "'s ClarityBackingStore \<Rightarrow> string \<Rightarrow> 's \<Rightarrow> (vm_error, bool) res" where
  "st_has_entry M key s = and_then (st_get M key s) (\<lambda>v. Ok (v \<noteq> None))"

record ContractCommitment =
  cc_hash :: bytes
  cc_block_height :: u32

definition commitment_serialize :: "ContractCommitment \<Rightarrow> string" where
  "commitment_serialize cc = to_hex (cc_hash cc) @ to_hex (to_be_bytes 4 (cc_block_height cc))"

definition commitment_deserialize :: "string \<Rightarrow> (vm_error, ContractCommitment) res" where
  "commitment_deserialize input =
     (if length input \<noteq> 72 then Panic
      else case (hex_bytes (slice 0 64 input), hex_bytes (slice 64 72 input)) of
        (Ok hash, Ok height_bytes) \<Rightarrow> Ok \<lparr>cc_hash = hash, cc_block_height = from_be_bytes height_bytes\<rparr>
      | _ \<Rightarrow> Panic)"

definition make_contract_hash_key :: "externals \<Rightarrow> QualifiedContractIdentifier \<Rightarrow> string" where
  "make_contract_hash_key X contract = ''clarity-contract::'' @ contract_to_string X contract"

definition make_contract_commitment :: "'s ClarityBackingStore \<Rightarrow> bytes \<Rightarrow> 's \<Rightarrow> (vm_error, string) res" where
  "make_contract_commitment M contract_hash s =
     and_then (st_get_open_chain_tip_height M s) (\<lambda>block_height.
       Ok (commitment_serialize \<lparr>cc_hash = contract_hash, cc_block_height = block_height\<rparr>))"

definition get_contract_hash :: "externals \<Rightarrow> 's ClarityBackingStore \<Rightarrow> QualifiedContractIdentifier \<Rightarrow> 's
    \<Rightarrow> (vm_error, bytes \<times> bytes) res" where
  "get_contract_hash X M contract s =
     and_then (st_get M (make_contract_hash_key X contract) s) (\<lambda>v.
       case v of
         None \<Rightarrow> Err (NoSuchContract (contract_to_string X contract))
       | Some x \<Rightarrow>
           and_then (commitment_deserialize x) (\<lambda>cc.
           and_then (st_get_block_at_height M (cc_block_height cc) s) (\<lambda>bhh.
           and_then (expect bhh) (\<lambda>bhh. Ok (bhh, cc_hash cc)))))"

definition st_insert_metadata :: "externals \<Rightarrow> 's ClarityBackingStore \<Rightarrow> QualifiedContractIdentifier \<Rightarrow> string \<Rightarrow> string \<Rightarrow> 's
    \<Rightarrow> (vm_error, 's) res" where
  "st_insert_metadata X M contract key value s =
     and_then (st_get_open_chain_tip M s) (\<lambda>bhh.
     and_then (sqlite_insert_metadata bhh (contract_to_string X contract) key value (st_get_side_store M s)) (\<lambda>conn.
       Ok (st_set_side_store M conn s)))"

definition st_get_metadata :: "externals \<Rightarrow> 's ClarityBackingStore \<Rightarrow> QualifiedContractIdentifier \<Rightarrow> string \<Rightarrow> 's
    \<Rightarrow> (vm_error, string option) res" where
  "st_get_metadata X M contract key s =
     and_then (get_contract_hash X M contract s) (\<lambda>(bhh, _).
       Ok (sqlite_get_metadata bhh (contract_to_string X contract) key (st_get_side_store M s)))"

definition put_all_metadata :: "externals \<Rightarrow> 's ClarityBackingStore \<Rightarrow> ((QualifiedContractIdentifier \<times> string) \<times> string) list \<Rightarrow> 's
    \<Rightarrow> (vm_error, 's) res" where
  "put_all_metadata X M = fold_res (\<lambda>((contract, key), value). st_insert_metadata X M contract key value)"

section \<open>The store in memory\<close>

definition memory_put_all :: "(string \<times> string) list \<Rightarrow> SqliteConnection \<Rightarrow> (vm_error, SqliteConnection) res" where
  "memory_put_all items side_store = Ok (fold (\<lambda>(key, value). sqlite_put key value) items side_store)"

definition MemoryBackingStore :: "SqliteConnection ClarityBackingStore" where
  "MemoryBackingStore =
     \<lparr>st_put_all = memory_put_all,
      st_get = (\<lambda>key s. Ok (sqlite_get key s)),
      st_set_block_hash = (\<lambda>bhh s. Err (UnknownBlockHeaderHash bhh)),
      st_get_block_at_height = (\<lambda>height s. Ok (if height = 0 then Some SENTINEL_ARRAY else None)),
      st_get_current_block_height = (\<lambda>s. Ok 0),
      st_get_open_chain_tip_height = (\<lambda>s. Ok 0),
      st_get_open_chain_tip = (\<lambda>s. Ok SENTINEL_ARRAY),
      st_get_side_store = (\<lambda>s. s),
      st_set_side_store = (\<lambda>conn s. conn)\<rparr>"

section \<open>The store over the fork index\<close>

record MarfedKV =
  kv_chain_tip :: bytes
  kv_marf :: "(string, bytes) MarfTransaction"
  kv_side_store :: SqliteConnection

text \<open>The 40 bytes of a leaf: those of a value are its hash, padded.\<close>

definition marf_from_value :: "externals \<Rightarrow> string \<Rightarrow> bytes" where
  "marf_from_value X s = sha512_256 X (map of_char s) @ replicate 8 0"

primrec marf_value_bytes :: "bytes MARFValue \<Rightarrow> bytes" where
  "marf_value_bytes (OfHeight h) = rev (to_be_bytes 4 h) @ replicate 36 0"
| "marf_value_bytes (OfBlock b) = b @ replicate (40 - length b) 0"
| "marf_value_bytes (OfValue v) = v"

definition unwrap_marf :: "(marf_error, 'a) res \<Rightarrow> (vm_error, 'a) res" where
  "unwrap_marf r = (case r of Ok x \<Rightarrow> Ok x | _ \<Rightarrow> Panic)"

definition kv_begin :: "bytes \<Rightarrow> bytes \<Rightarrow> MarfedKV \<Rightarrow> (vm_error, MarfedKV) res" where
  "kv_begin current next kv =
     and_then (unwrap_marf (marf_begin (kv_marf kv) current next)) (\<lambda>marf.
     and_then (expect (open_chain_tip marf)) (\<lambda>(tip, _).
       Ok (kv\<lparr>kv_marf := marf, kv_chain_tip := tip, kv_side_store := sqlite_begin tip (kv_side_store kv)\<rparr>)))"

definition kv_rollback :: "MarfedKV \<Rightarrow> (vm_error, MarfedKV) res" where
  "kv_rollback kv =
     and_then (unwrap_marf (drop_current (kv_marf kv))) (\<lambda>marf.
     and_then (sqlite_rollback (kv_chain_tip kv) (kv_side_store kv)) (\<lambda>side_store.
       Ok (kv\<lparr>kv_marf := marf, kv_side_store := side_store, kv_chain_tip := SENTINEL_ARRAY\<rparr>)))"

definition kv_commit_to :: "bytes \<Rightarrow> MarfedKV \<Rightarrow> (vm_error, MarfedKV) res" where
  "kv_commit_to final_bhh kv =
     and_then (commit_metadata_to (kv_chain_tip kv) final_bhh (kv_side_store kv)) (\<lambda>side_store.
     and_then (sqlite_commit (kv_chain_tip kv) side_store) (\<lambda>side_store.
     and_then (unwrap_marf (marf_commit_to final_bhh (kv_marf kv))) (\<lambda>marf.
       Ok (kv\<lparr>kv_marf := marf, kv_side_store := side_store\<rparr>))))"

definition kv_set_block_hash :: "bytes \<Rightarrow> MarfedKV \<Rightarrow> (vm_error, bytes \<times> MarfedKV) res" where
  "kv_set_block_hash bhh kv =
     (case check_ancestor_block_hash (storage (kv_marf kv)) bhh of
        Ok _ \<Rightarrow> Ok (kv_chain_tip kv, kv\<lparr>kv_chain_tip := bhh\<rparr>)
      | Err MarfNotFoundError \<Rightarrow> Err (UnknownBlockHeaderHash bhh)
      | Err (MarfNonMatchingForks _ _) \<Rightarrow> Err (UnknownBlockHeaderHash bhh)
      | _ \<Rightarrow> Panic)"

definition kv_get_block_height_of :: "bytes \<Rightarrow> bytes \<Rightarrow> (string, bytes) MarfTransaction \<Rightarrow> (marf_error, u32 option) res" where
  "kv_get_block_height_of bhh current_block_hash marf =
     (if Some bhh = map_option fst (open_chain_tip marf) then Ok (map_option snd (open_chain_tip marf))
      else get_block_height_miner_tip (storage marf) bhh current_block_hash)"

definition kv_get_current_block_height :: "MarfedKV \<Rightarrow> (vm_error, u32) res" where
  "kv_get_current_block_height kv =
     and_then (unwrap_marf (kv_get_block_height_of (kv_chain_tip kv) (kv_chain_tip kv) (kv_marf kv))) expect"

definition kv_get_block_at_height :: "u32 \<Rightarrow> MarfedKV \<Rightarrow> (vm_error, bytes option) res" where
  "kv_get_block_at_height block_height kv =
     unwrap_marf (get_block_at_height (storage (kv_marf kv)) block_height (kv_chain_tip kv))"

definition kv_get :: "string \<Rightarrow> MarfedKV \<Rightarrow> (vm_error, string option) res" where
  "kv_get key kv =
     and_then (unwrap_marf (case get_by_key (storage (kv_marf kv)) (kv_chain_tip kv) (IndexKey key) of
         Err MarfNotFoundError \<Rightarrow> Ok None | r \<Rightarrow> r)) (\<lambda>v.
       case v of
         None \<Rightarrow> Ok None
       | Some marf_value \<Rightarrow>
           and_then (expect (sqlite_get (to_hex (marf_value_bytes marf_value)) (kv_side_store kv))) (\<lambda>x. Ok (Some x)))"

definition kv_put_all :: "externals \<Rightarrow> (string \<times> string) list \<Rightarrow> MarfedKV \<Rightarrow> (vm_error, MarfedKV) res" where
  "kv_put_all X items kv =
     (let side_store = fold (\<lambda>(key, value). sqlite_put (to_hex (marf_from_value X value)) value) items (kv_side_store kv);
          keys = map (\<lambda>(key, value). IndexKey key) items;
          values = map (\<lambda>(key, value). OfValue (marf_from_value X value)) items
      in and_then (unwrap_marf (insert_batch (kv_marf kv) keys values)) (\<lambda>marf.
           Ok (kv\<lparr>kv_marf := marf, kv_side_store := side_store\<rparr>)))"

definition MarfedKV_store :: "externals \<Rightarrow> MarfedKV ClarityBackingStore" where
  "MarfedKV_store X =
     \<lparr>st_put_all = kv_put_all X,
      st_get = kv_get,
      st_set_block_hash = kv_set_block_hash,
      st_get_block_at_height = kv_get_block_at_height,
      st_get_current_block_height = kv_get_current_block_height,
      st_get_open_chain_tip_height = (\<lambda>kv. expect (map_option snd (open_chain_tip (kv_marf kv)))),
      st_get_open_chain_tip = (\<lambda>kv. expect (map_option fst (open_chain_tip (kv_marf kv)))),
      st_get_side_store = kv_side_store,
      st_set_side_store = (\<lambda>conn kv. kv\<lparr>kv_side_store := conn\<rparr>)\<rparr>"

section \<open>The contract of a store\<close>

text \<open>What the layers above rely on, in states that are \<open>ready\<close> and for writes that \<open>fit\<close>: a batch of writes succeeds, and
  then a key reads as its last write, or as before; metadata does not affect reads.\<close>

locale backing_store =
  fixes M :: "'s ClarityBackingStore" and ready :: "'s \<Rightarrow> bool" and fits :: "(string \<times> string) list \<Rightarrow> 's \<Rightarrow> bool"
  assumes put_all_writes: "ready s \<Longrightarrow> fits items s \<Longrightarrow> \<exists>s'. st_put_all M items s = Ok s' \<and> ready s' \<and>
      (\<forall>k. st_get M k s' = (case map_of (rev items) k of Some v \<Rightarrow> Ok (Some v) | None \<Rightarrow> st_get M k s))"
    and set_side_store: "ready s \<Longrightarrow> data_table (tables conn) = data_table (tables (st_get_side_store M s)) \<Longrightarrow>
      ready (st_set_side_store M conn s) \<and> st_get M k (st_set_side_store M conn s) = st_get M k s"
begin

lemma insert_metadata_keeps:
  "ready s \<Longrightarrow> st_insert_metadata X M contract key value s = Ok s' \<Longrightarrow> ready s' \<and> (\<forall>k. st_get M k s' = st_get M k s)"
  using set_side_store [of s]
  by (auto simp: st_insert_metadata_def sqlite_insert_metadata_def and_then_Ok_iff Let_def split: if_splits)

lemma put_all_metadata_keeps:
  "ready s \<Longrightarrow> put_all_metadata X M ms s = Ok s' \<Longrightarrow> ready s' \<and> (\<forall>k. st_get M k s' = st_get M k s)"
proof (induction ms arbitrary: s)
  case (Cons m ms)
  then show ?case
    using insert_metadata_keeps [OF Cons.prems(1)]
    by (cases m) (auto simp: put_all_metadata_def and_then_Ok_iff, metis+)
qed (simp add: put_all_metadata_def)

end

lemma sqlite_get_put: "sqlite_get k (sqlite_put k' v conn) = (if k = k' then Some v else sqlite_get k conn)"
proof -
  have "map_of (filter (\<lambda>r. fst r \<noteq> k') t @ [(k', v)]) k = (if k = k' then Some v else map_of t k)" for t
    by (induction t) auto
  then show ?thesis by (simp add: sqlite_get_def sqlite_put_def Let_def)
qed

lemma sqlite_get_puts:
  "sqlite_get k (fold (\<lambda>(key, value). sqlite_put (f key value) value) items conn) =
     (case find (\<lambda>(key, value). f key value = k) (rev items) of Some (_, v) \<Rightarrow> Some v | None \<Rightarrow> sqlite_get k conn)"
proof (induction items rule: rev_induct)
  case (snoc kv items)
  then show ?case by (cases kv) (simp add: sqlite_get_put)
qed simp

lemma memory_get_puts:
  "sqlite_get k (fold (\<lambda>(key, value). sqlite_put key value) items conn) = (case map_of (rev items) k of Some v \<Rightarrow> Some v | None \<Rightarrow> sqlite_get k conn)"
proof (induction items rule: rev_induct)
  case (snoc kv items)
  then show ?case by (cases kv) (simp add: sqlite_get_put)
qed simp

lemma sqlite_get_side: "data_table (tables conn) = data_table (tables conn') \<Longrightarrow> sqlite_get k conn = sqlite_get k conn'"
  by (simp add: sqlite_get_def)

lemma memory_fields:
  "st_put_all MemoryBackingStore = memory_put_all" "st_get MemoryBackingStore = (\<lambda>key s. Ok (sqlite_get key s))"
  "st_get_side_store MemoryBackingStore = (\<lambda>s. s)" "st_set_side_store MemoryBackingStore = (\<lambda>conn s. conn)"
  by (simp_all add: MemoryBackingStore_def)

lemma memory_put_all_reads:
  "\<exists>s'. memory_put_all items s = Ok s' \<and> (\<forall>k. Ok (sqlite_get k s') = (case map_of (rev items) k of Some v \<Rightarrow> Ok (Some v) | None \<Rightarrow> Ok (sqlite_get k s)))"
  by (rule exI [of _ "fold (\<lambda>(key, value). sqlite_put key value) items s"])
    (simp add: memory_put_all_def memory_get_puts option.case_distrib [of Ok])

interpretation memory_store: backing_store MemoryBackingStore "\<lambda>_. True" "\<lambda>_ _. True"
proof
  fix items :: "(string \<times> string) list" and s
  show "\<exists>s'. st_put_all MemoryBackingStore items s = Ok s' \<and> True \<and>
      (\<forall>k. st_get MemoryBackingStore k s' = (case map_of (rev items) k of Some v \<Rightarrow> Ok (Some v) | None \<Rightarrow> st_get MemoryBackingStore k s))"
    using memory_put_all_reads [of items s] by (simp only: memory_fields simp_thms)
next
  fix k conn s
  show "data_table (tables conn) = data_table (tables (st_get_side_store MemoryBackingStore s)) \<Longrightarrow>
    True \<and> st_get MemoryBackingStore k (st_set_side_store MemoryBackingStore conn s) = st_get MemoryBackingStore k s"
    using sqlite_get_side [of conn s k] by (simp add: memory_fields)
qed

section \<open>The store over the fork index keeps the contract\<close>

text \<open>Every value a trie refers to has its row in the side store.\<close>

definition covered :: "sqlite_tables \<Rightarrow> (string, bytes) trie \<Rightarrow> bool" where
  "covered T t \<longleftrightarrow> (\<forall>k mv. tr_leaves t (IndexKey k) = Some mv \<longrightarrow> map_of (data_table T) (to_hex (marf_value_bytes mv)) \<noteq> None)"

text \<open>A block is open for writing and reads go to it.\<close>

definition kv_ready :: "MarfedKV \<Rightarrow> bool" where
  "kv_ready kv \<longleftrightarrow> marf_shape (kv_marf kv) \<and> (\<exists>h t. open_chain_tip (kv_marf kv) = Some (kv_chain_tip kv, h) \<and>
     last_extended (storage (kv_marf kv)) = Some (kv_chain_tip kv, t) \<and> covered (tables (kv_side_store kv)) t)"

text \<open>No two different values among those written and those stored have the same hash.\<close>

definition kv_fits :: "externals \<Rightarrow> (string \<times> string) list \<Rightarrow> MarfedKV \<Rightarrow> bool" where
  "kv_fits X items kv \<longleftrightarrow> (\<forall>v \<in> snd ` set items. \<forall>w.
     sqlite_get (to_hex (marf_from_value X v)) (kv_side_store kv) = Some w \<or>
     w \<in> snd ` set items \<and> to_hex (marf_from_value X w) = to_hex (marf_from_value X v) \<longrightarrow> w = v)"

definition side_puts :: "externals \<Rightarrow> (string \<times> string) list \<Rightarrow> SqliteConnection \<Rightarrow> SqliteConnection" where
  "side_puts X items = fold (\<lambda>(key, value). sqlite_put (to_hex (marf_from_value X value)) value) items"

lemma side_puts_get:
  "sqlite_get key (side_puts X items conn) =
     (case find (\<lambda>(k, v). to_hex (marf_from_value X v) = key) (rev items) of Some (_, v) \<Rightarrow> Some v | None \<Rightarrow> sqlite_get key conn)"
  unfolding side_puts_def by (rule sqlite_get_puts)

lemma find_Some_in: "find P xs = Some x \<Longrightarrow> x \<in> set xs \<and> P x"
  by (auto simp: find_Some_iff)

lemma side_puts_written:
  assumes "kv_fits X items kv" "v \<in> snd ` set items"
  shows "sqlite_get (to_hex (marf_from_value X v)) (side_puts X items (kv_side_store kv)) = Some v"
proof -
  let ?p = "\<lambda>(k, w). to_hex (marf_from_value X w) = to_hex (marf_from_value X v)"
  obtain k0 where "(k0, v) \<in> set items" "?p (k0, v)" using assms(2) by auto
  then have "find ?p (rev items) \<noteq> None" unfolding find_None_iff set_rev by blast
  then obtain k w where f: "find ?p (rev items) = Some (k, w)" by auto
  from find_Some_in [OF f] have "(k, w) \<in> set items" "?p (k, w)" by simp_all
  then have "w = v" using assms by (force simp: kv_fits_def)
  then show ?thesis by (simp add: side_puts_get f)
qed

lemma side_puts_kept:
  assumes "kv_fits X items kv" "sqlite_get key (kv_side_store kv) = Some w"
  shows "sqlite_get key (side_puts X items (kv_side_store kv)) = Some w"
proof (cases "find (\<lambda>(k, v). to_hex (marf_from_value X v) = key) (rev items)")
  case (Some kv')
  obtain k v where kv': "kv' = (k, v)" by (cases kv')
  have "(k, v) \<in> set items" "to_hex (marf_from_value X v) = key"
    using find_Some_in [OF Some] by (simp_all add: kv')
  then have "w = v" using assms by (force simp: kv_fits_def)
  then show ?thesis by (simp add: side_puts_get Some kv' )
qed (simp add: side_puts_get assms(2))

lemma shape_restore: "marf_shape tx \<Longrightarrow> cur_block (storage tx) = SENTINEL_ARRAY \<or> read_trie (storage tx) (cur_block (storage tx)) \<noteq> None"
  by (auto simp: marf_shape_def read_trie_def has_block_def split: option.splits)

lemma kv_get_trie:
  assumes "marf_shape (kv_marf kv)" "kv_chain_tip kv \<noteq> SENTINEL_ARRAY" "read_trie (storage (kv_marf kv)) (kv_chain_tip kv) = Some t"
  shows "kv_get key kv = (case tr_leaves t (IndexKey key) of None \<Rightarrow> Ok None
    | Some mv \<Rightarrow> and_then (expect (sqlite_get (to_hex (marf_value_bytes mv)) (kv_side_store kv))) (\<lambda>x. Ok (Some x)))"
  using get_by_key_eq [OF shape_restore [OF assms(1)] assms(2)] assms(3)
  by (simp add: kv_get_def unwrap_marf_def split: option.split)

lemma kv_readyE:
  assumes "kv_ready kv"
  obtains h t where "open_chain_tip (kv_marf kv) = Some (kv_chain_tip kv, h)" "last_extended (storage (kv_marf kv)) = Some (kv_chain_tip kv, t)"
    "covered (tables (kv_side_store kv)) t" "kv_chain_tip kv \<noteq> SENTINEL_ARRAY" "cur_block (storage (kv_marf kv)) = kv_chain_tip kv"
    "\<not> st_readonly (storage (kv_marf kv))" "marf_shape (kv_marf kv)"
  using assms by (auto simp: kv_ready_def marf_shape_def)

lemma batch_leaves:
  "(m ++ map_of (rev (zip (map (\<lambda>(k, v). IndexKey k) items) (map (\<lambda>(k, v). OfValue (f v)) items)))) (IndexKey k)
     = (case map_of (rev items) k of Some v \<Rightarrow> Some (OfValue (f v)) | None \<Rightarrow> m (IndexKey k))"
proof -
  have "zip (map (\<lambda>(k, v). IndexKey k) items) (map (\<lambda>(k, v). OfValue (f v)) items) = map (\<lambda>(k, v). (IndexKey k, OfValue (f v))) items"
    by (induction items) auto
  moreover have "map_of (map (\<lambda>(k, v). (IndexKey k, OfValue (f v))) xs) (IndexKey k) = map_option (\<lambda>v. OfValue (f v)) (map_of xs k)" for xs
    by (induction xs) auto
  ultimately show ?thesis by (simp add: map_add_def rev_map split: option.split)
qed

definition kv_written :: "externals \<Rightarrow> (string \<times> string) list \<Rightarrow> (string, bytes) trie \<Rightarrow> (string, bytes) trie" where
  "kv_written X items t = t\<lparr>tr_leaves := tr_leaves t ++ map_of (rev (zip (map (\<lambda>(k, v). IndexKey k) items)
      (map (\<lambda>(k, v). OfValue (marf_from_value X v)) items)))\<rparr>"

lemma kv_written_leaf:
  "tr_leaves (kv_written X items t) (IndexKey k) =
     (case map_of (rev items) k of Some v \<Rightarrow> Some (OfValue (marf_from_value X v)) | None \<Rightarrow> tr_leaves t (IndexKey k))"
  by (simp add: kv_written_def batch_leaves)

lemma covered_row: "covered (tables conn) t \<Longrightarrow> tr_leaves t (IndexKey k) = Some mv \<Longrightarrow> \<exists>w. sqlite_get (to_hex (marf_value_bytes mv)) conn = Some w"
  by (auto simp: covered_def sqlite_get_def)

lemma kv_written_row:
  assumes fits: "kv_fits X items kv" and cov: "covered (tables (kv_side_store kv)) t"
    and leaf: "tr_leaves (kv_written X items t) (IndexKey k) = Some mv"
  shows "\<exists>w. sqlite_get (to_hex (marf_value_bytes mv)) (side_puts X items (kv_side_store kv)) = Some w \<and>
    (case map_of (rev items) k of Some v \<Rightarrow> w = v
      | None \<Rightarrow> tr_leaves t (IndexKey k) = Some mv \<and> sqlite_get (to_hex (marf_value_bytes mv)) (kv_side_store kv) = Some w)"
proof (cases "map_of (rev items) k")
  case None
  then have "tr_leaves t (IndexKey k) = Some mv" using leaf by (simp add: kv_written_leaf)
  moreover obtain w where w: "sqlite_get (to_hex (marf_value_bytes mv)) (kv_side_store kv) = Some w"
    using covered_row [OF cov calculation] by blast
  ultimately show ?thesis using side_puts_kept [OF fits w] None by simp
next
  case (Some v)
  then have "v \<in> snd ` set items" by (force dest: map_of_SomeD)
  from side_puts_written [OF fits this] show ?thesis using leaf Some by (auto simp: kv_written_leaf)
qed

lemma kv_put_all_open:
  assumes "marf_shape (kv_marf kv)" "open_chain_tip (kv_marf kv) = Some (b, h)" "last_extended (storage (kv_marf kv)) = Some (b, t)"
  shows "kv_put_all X items kv = Ok (kv\<lparr>kv_marf := (kv_marf kv)\<lparr>storage := (storage (kv_marf kv))\<lparr>last_extended :=
      Some (b, kv_written X items t)\<rparr>\<rparr>, kv_side_store := side_puts X items (kv_side_store kv)\<rparr>)"
  using assms by (simp add: marf_shape_def kv_put_all_def insert_batch_open kv_written_def side_puts_def unwrap_marf_def Let_def)

lemma kv_put_all_reads:
  assumes ready: "kv_ready kv" and fits: "kv_fits X items kv"
  shows "\<exists>kv'. kv_put_all X items kv = Ok kv' \<and> kv_ready kv' \<and>
    (\<forall>k. kv_get k kv' = (case map_of (rev items) k of Some v \<Rightarrow> Ok (Some v) | None \<Rightarrow> kv_get k kv))"
proof -
  obtain h t where o: "open_chain_tip (kv_marf kv) = Some (kv_chain_tip kv, h)" "last_extended (storage (kv_marf kv)) = Some (kv_chain_tip kv, t)"
    "covered (tables (kv_side_store kv)) t" "kv_chain_tip kv \<noteq> SENTINEL_ARRAY" "marf_shape (kv_marf kv)" using kv_readyE [OF ready] by blast
  define kv' where "kv' = kv\<lparr>kv_marf := (kv_marf kv)\<lparr>storage := (storage (kv_marf kv))\<lparr>last_extended :=
      Some (kv_chain_tip kv, kv_written X items t)\<rparr>\<rparr>, kv_side_store := side_puts X items (kv_side_store kv)\<rparr>"
  have fields: "kv_chain_tip kv' = kv_chain_tip kv" "kv_side_store kv' = side_puts X items (kv_side_store kv)"
    "read_trie (storage (kv_marf kv')) (kv_chain_tip kv) = Some (kv_written X items t)" "marf_shape (kv_marf kv')"
    using o(1,5) by (simp_all add: kv'_def read_trie_def marf_shape_def has_block_def)
  note row = kv_written_row [OF fits o(3)]
  have "kv_get k kv' = (case map_of (rev items) k of Some v \<Rightarrow> Ok (Some v) | None \<Rightarrow> kv_get k kv)" for k
  proof -
    note get' = kv_get_trie [OF fields(4), unfolded fields, OF o(4) refl, of k]
    note get = kv_get_trie [OF o(5,4), of t k] 
    show ?thesis
    proof (cases "tr_leaves (kv_written X items t) (IndexKey k)")
      case None
      then show ?thesis using get get' o(2) by (auto simp: kv_written_leaf read_trie_def split: option.splits)
    next
      case (Some mv)
      then show ?thesis using row [OF Some] get get' o(2) by (auto simp: read_trie_def expect_def split: option.splits)
    qed
  qed
  moreover have "covered (tables (kv_side_store kv')) (kv_written X items t)"
    using row by (fastforce simp: covered_def sqlite_get_def fields)
  then have "kv_ready kv'" using fields(4) o(1) by (auto simp: kv_ready_def kv'_def)
  ultimately show ?thesis using kv_put_all_open [OF o(5,1,2), of X items] by (auto simp: kv'_def)
qed

lemma kv_fields [simp]:
  "st_put_all (MarfedKV_store X) = kv_put_all X" "st_get (MarfedKV_store X) = kv_get"
  "st_get_side_store (MarfedKV_store X) = kv_side_store" "st_set_side_store (MarfedKV_store X) = (\<lambda>conn kv. kv\<lparr>kv_side_store := conn\<rparr>)"
  by (simp_all add: MarfedKV_store_def)

lemma kv_get_side: "data_table (tables conn) = data_table (tables (kv_side_store kv)) \<Longrightarrow> kv_get k (kv\<lparr>kv_side_store := conn\<rparr>) = kv_get k kv"
  by (simp add: kv_get_def sqlite_get_def cong: option.case_cong)

interpretation marfed_store: backing_store "MarfedKV_store X" kv_ready "kv_fits X" for X
proof
  fix items kv
  assume "kv_ready kv" "kv_fits X items kv"
  then show "\<exists>kv'. st_put_all (MarfedKV_store X) items kv = Ok kv' \<and> kv_ready kv' \<and> (\<forall>k. st_get (MarfedKV_store X) k kv' =
      (case map_of (rev items) k of Some v \<Rightarrow> Ok (Some v) | None \<Rightarrow> st_get (MarfedKV_store X) k kv))"
    unfolding kv_fields by (rule kv_put_all_reads)
next
  fix k kv and conn :: SqliteConnection
  assume "kv_ready kv" "data_table (tables conn) = data_table (tables (st_get_side_store (MarfedKV_store X) kv))"
  then show "kv_ready (st_set_side_store (MarfedKV_store X) conn kv) \<and>
      st_get (MarfedKV_store X) k (st_set_side_store (MarfedKV_store X) conn kv) = st_get (MarfedKV_store X) k kv"
    using kv_get_side [of conn kv k] by (simp add: kv_ready_def covered_def)
qed

section \<open>Reads never miss a row\<close>

definition kv_new :: "bytes \<Rightarrow> MarfedKV" where
  "kv_new miner_tip = \<lparr>kv_chain_tip = miner_tip, kv_marf = empty_marf, kv_side_store = sqlite_memory\<rparr>"

inductive kv_reachable :: "externals \<Rightarrow> MarfedKV \<Rightarrow> bool" for X where
  reach_new: "kv_reachable X (kv_new miner_tip)"
| reach_begin: "kv_reachable X kv \<Longrightarrow> next \<noteq> SENTINEL_ARRAY \<Longrightarrow> kv_begin current next kv = Ok kv' \<Longrightarrow> kv_reachable X kv'"
| reach_put_all: "kv_reachable X kv \<Longrightarrow> kv_put_all X items kv = Ok kv' \<Longrightarrow> kv_reachable X kv'"
| reach_metadata: "kv_reachable X kv \<Longrightarrow> st_insert_metadata X (MarfedKV_store X) contract key value kv = Ok kv' \<Longrightarrow> kv_reachable X kv'"
| reach_set_block: "kv_reachable X kv \<Longrightarrow> kv_set_block_hash bhh kv = Ok (old, kv') \<Longrightarrow> kv_reachable X kv'"
| reach_commit: "kv_reachable X kv \<Longrightarrow> kv_commit_to final_bhh kv = Ok kv' \<Longrightarrow> kv_reachable X kv'"
| reach_rollback: "kv_reachable X kv \<Longrightarrow> kv_rollback kv = Ok kv' \<Longrightarrow> kv_reachable X kv'"

text \<open>All tries are covered by the side store, and the stored ones also by the savepoint a rollback would return to.\<close>

definition all_covered :: "sqlite_tables \<Rightarrow> (bytes \<times> (string, bytes) trie) list \<Rightarrow> bool" where
  "all_covered T ts \<longleftrightarrow> (\<forall>(b, t) \<in> set ts. covered T t)"

definition kv_inv :: "MarfedKV \<Rightarrow> bool" where
  "kv_inv kv \<longleftrightarrow> marf_shape (kv_marf kv) \<and> all_covered (tables (kv_side_store kv)) (marf_data (storage (kv_marf kv))) \<and>
     (case last_extended (storage (kv_marf kv)) of
        None \<Rightarrow> savepoints (kv_side_store kv) = []
      | Some (b, t) \<Rightarrow> covered (tables (kv_side_store kv)) t \<and>
          (\<exists>T. savepoints (kv_side_store kv) = [(b, T)] \<and> all_covered T (marf_data (storage (kv_marf kv)))))"

lemma begin_shape:
  assumes shape: "marf_shape tx" and ok: "marf_begin tx tip n = Ok tx'" and n: "n \<noteq> SENTINEL_ARRAY"
  shows "marf_shape tx'" "marf_data (storage tx') = marf_data (storage tx)" "last_extended (storage tx) = None"
    "\<exists>h t. open_chain_tip tx' = Some (n, h) \<and> last_extended (storage tx') = Some (n, t) \<and>
      (\<forall>k mv. tr_leaves t (IndexKey k) = Some mv \<longrightarrow> (\<exists>(b, u) \<in> set (marf_data (storage tx)). tr_leaves u (IndexKey k) = Some mv))"
proof -
  note o = begin_tip [OF shape ok]
  show "last_extended (storage tx) = None" using shape o(1) by (simp add: marf_shape_def)
  have "marf_shape tx' \<and> marf_data (storage tx') = marf_data (storage tx) \<and>
    (\<exists>h t. open_chain_tip tx' = Some (n, h) \<and> last_extended (storage tx') = Some (n, t) \<and>
      (\<forall>k mv. tr_leaves t (IndexKey k) = Some mv \<longrightarrow> (\<exists>(b, u) \<in> set (marf_data (storage tx)). tr_leaves u (IndexKey k) = Some mv)))"
  proof (cases "tip = SENTINEL_ARRAY")
    case True
    then show ?thesis using begin_first [OF shape o(1,2) n] ok shape o n by (auto simp: marf_shape_def has_block_def)
  next
    case False
    with o(3) obtain t h h' where t: "map_of (marf_data (storage tx)) tip = Some t" "tr_leaves t OwnBlockHeight = Some (OfHeight h)"
      "checked_add h 1 = Some h'" by auto
    then have "(tip, t) \<in> set (marf_data (storage tx))" by (rule_tac map_of_SomeD)
    then show ?thesis using begin_child [OF shape o(1,2) n False t] ok shape o n by (auto simp: marf_shape_def has_block_def)
  qed
  then show "marf_shape tx'" "marf_data (storage tx') = marf_data (storage tx)"
    "\<exists>h t. open_chain_tip tx' = Some (n, h) \<and> last_extended (storage tx') = Some (n, t) \<and>
      (\<forall>k mv. tr_leaves t (IndexKey k) = Some mv \<longrightarrow> (\<exists>(b, u) \<in> set (marf_data (storage tx)). tr_leaves u (IndexKey k) = Some mv))"
    by blast+
qed

lemma covered_mono: "covered T t \<Longrightarrow> (\<And>k. map_of (data_table T) k \<noteq> None \<Longrightarrow> map_of (data_table T') k \<noteq> None) \<Longrightarrow> covered T' t"
  unfolding covered_def by blast

lemma all_covered_mono:
  "all_covered T ts \<Longrightarrow> (\<And>k. map_of (data_table T) k \<noteq> None \<Longrightarrow> map_of (data_table T') k \<noteq> None) \<Longrightarrow> all_covered T' ts"
  unfolding all_covered_def using covered_mono by blast

lemma side_puts_present:
  "sqlite_get k conn \<noteq> None \<Longrightarrow> sqlite_get k (side_puts X items conn) \<noteq> None"
  "v \<in> snd ` set items \<Longrightarrow> sqlite_get (to_hex (marf_from_value X v)) (side_puts X items conn) \<noteq> None"
proof -
  show "sqlite_get k conn \<noteq> None \<Longrightarrow> sqlite_get k (side_puts X items conn) \<noteq> None"
    by (auto simp: side_puts_get split: option.split)
  assume "v \<in> snd ` set items"
  then obtain k where "(k, v) \<in> set items" by auto
  then have "find (\<lambda>(k, w). to_hex (marf_from_value X w) = to_hex (marf_from_value X v)) (rev items) \<noteq> None"
    unfolding find_None_iff set_rev by blast
  then show "sqlite_get (to_hex (marf_from_value X v)) (side_puts X items conn) \<noteq> None"
    by (auto simp: side_puts_get)
qed

lemma kv_written_covered: "covered (tables conn) t \<Longrightarrow> covered (tables (side_puts X items conn)) (kv_written X items t)"
proof -
  assume cov: "covered (tables conn) t"
  have "sqlite_get (to_hex (marf_value_bytes mv)) (side_puts X items conn) \<noteq> None"
    if leaf: "tr_leaves (kv_written X items t) (IndexKey k) = Some mv" for k mv
  proof (cases "map_of (rev items) k")
    case None
    then show ?thesis using leaf covered_row [OF cov, of k mv] side_puts_present(1) by (auto simp: kv_written_leaf)
  next
    case (Some v)
    then have "v \<in> snd ` set items" by (force dest: map_of_SomeD)
    moreover have "marf_value_bytes mv = marf_from_value X v" using leaf Some by (auto simp: kv_written_leaf)
    ultimately show ?thesis using side_puts_present(2) [of v items X conn] by simp
  qed
  then show ?thesis by (simp add: covered_def sqlite_get_def)
qed

lemma kv_inv_put_all:
  assumes inv: "kv_inv kv" and ok: "kv_put_all X items kv = Ok kv'"
  shows "kv_inv kv'"
proof (cases "open_chain_tip (kv_marf kv)")
  case None
  then show ?thesis using ok by (auto simp: kv_put_all_def insert_batch_def unwrap_marf_def and_then_Ok_iff Let_def split: if_splits res.splits)
next
  case (Some bh)
  obtain b h where bh: "bh = (b, h)" by (cases bh)
  have shape: "marf_shape (kv_marf kv)" using inv by (simp add: kv_inv_def)
  then obtain t where t: "last_extended (storage (kv_marf kv)) = Some (b, t)" using Some bh by (auto simp: marf_shape_def)
  have grow: "map_of (data_table (tables (kv_side_store kv))) k \<noteq> None \<Longrightarrow>
      map_of (data_table (tables (side_puts X items (kv_side_store kv)))) k \<noteq> None" for k
    using side_puts_present(1) [of k "kv_side_store kv"] by (simp add: sqlite_get_def)
  have sp: "savepoints (side_puts X items conn) = savepoints conn" for conn
    unfolding side_puts_def by (induction items arbitrary: conn) (auto simp: sqlite_put_def Let_def)
  have "kv' = kv\<lparr>kv_marf := (kv_marf kv)\<lparr>storage := (storage (kv_marf kv))\<lparr>last_extended :=
      Some (b, kv_written X items t)\<rparr>\<rparr>, kv_side_store := side_puts X items (kv_side_store kv)\<rparr>"
    using ok kv_put_all_open [OF shape, of b h t X items] Some bh t by simp
  then show ?thesis
    using inv shape Some bh t all_covered_mono [OF _ grow] kv_written_covered
    by (auto simp: kv_inv_def sp marf_shape_def has_block_def)
qed

lemma kv_inv_begin:
  assumes inv: "kv_inv kv" and ok: "kv_begin current n kv = Ok kv'" and n: "n \<noteq> SENTINEL_ARRAY"
  shows "kv_inv kv'"
proof -
  have shape: "marf_shape (kv_marf kv)" using inv by (simp add: kv_inv_def)
  from ok obtain marf where marf: "marf_begin (kv_marf kv) current n = Ok marf"
    by (auto simp: kv_begin_def unwrap_marf_def and_then_Ok_iff split: res.splits)
  note b = begin_shape [OF shape marf n]
  from b(4) obtain h t where t: "open_chain_tip marf = Some (n, h)" "last_extended (storage marf) = Some (n, t)"
    "\<And>k mv. tr_leaves t (IndexKey k) = Some mv \<Longrightarrow> \<exists>(b, u) \<in> set (marf_data (storage (kv_marf kv))). tr_leaves u (IndexKey k) = Some mv" by blast
  have kv': "kv' = kv\<lparr>kv_marf := marf, kv_chain_tip := n, kv_side_store := sqlite_begin n (kv_side_store kv)\<rparr>"
    using ok marf t(1) by (simp add: kv_begin_def unwrap_marf_def expect_def)
  have cov: "all_covered (tables (kv_side_store kv)) (marf_data (storage (kv_marf kv)))" "savepoints (kv_side_store kv) = []"
    using inv b(3) by (simp_all add: kv_inv_def)
  then have "covered (tables (kv_side_store kv)) t" using t(3) by (fastforce simp: covered_def all_covered_def)
  then show ?thesis using b(1,2) t(2) cov by (simp add: kv_inv_def kv' sqlite_begin_def)
qed

lemma sqlite_release_one:
  "savepoints conn = [(b, T)] \<Longrightarrow> sqlite_commit key conn = (Ok conn' :: ('e, _) res) \<Longrightarrow> conn' = conn\<lparr>savepoints := []\<rparr>"
  "savepoints conn = [(b, T)] \<Longrightarrow> sqlite_rollback key conn = (Ok conn' :: ('e, _) res) \<Longrightarrow> conn' = conn\<lparr>tables := T, savepoints := []\<rparr>"
  by (auto simp: sqlite_commit_def sqlite_rollback_def split: if_splits)

lemma kv_inv_open:
  assumes "kv_inv kv" "savepoints (kv_side_store kv) \<noteq> []"
  obtains b h t T where "open_chain_tip (kv_marf kv) = Some (b, h)" "last_extended (storage (kv_marf kv)) = Some (b, t)"
    "covered (tables (kv_side_store kv)) t" "savepoints (kv_side_store kv) = [(b, T)]" "all_covered T (marf_data (storage (kv_marf kv)))"
  using assms by (auto simp: kv_inv_def marf_shape_def split: option.splits)

lemma kv_inv_commit:
  assumes inv: "kv_inv kv" and ok: "kv_commit_to final_bhh kv = Ok kv'"
  shows "kv_inv kv'"
proof -
  from ok obtain s1 s2 marf where s1: "commit_metadata_to (kv_chain_tip kv) final_bhh (kv_side_store kv) = (Ok s1 :: (vm_error, _) res)"
    and s2: "sqlite_commit (kv_chain_tip kv) s1 = (Ok s2 :: (vm_error, _) res)" and marf: "marf_commit_to final_bhh (kv_marf kv) = Ok marf"
    and kv': "kv' = kv\<lparr>kv_marf := marf, kv_side_store := s2\<rparr>"
    by (auto simp: kv_commit_to_def unwrap_marf_def and_then_Ok_iff split: res.splits)
  have s1': "data_table (tables s1) = data_table (tables (kv_side_store kv))" "savepoints s1 = savepoints (kv_side_store kv)"
    using s1 by (auto simp: commit_metadata_to_def Let_def split: if_splits)
  have "savepoints s1 \<noteq> []" using s2 by (auto simp: sqlite_commit_def)
  then obtain b h t T where o: "open_chain_tip (kv_marf kv) = Some (b, h)" "last_extended (storage (kv_marf kv)) = Some (b, t)"
    "covered (tables (kv_side_store kv)) t" "savepoints (kv_side_store kv) = [(b, T)]"
    using kv_inv_open [OF inv] s1'(2) by metis
  have s2': "s2 = s1\<lparr>savepoints := []\<rparr>" using sqlite_release_one(1) [OF _ s2] o(4) s1'(2) by simp
  have cov: "covered (tables s2) t" "all_covered (tables s2) (marf_data (storage (kv_marf kv)))"
    using inv o(3) s1'(1) by (auto simp: s2' kv_inv_def covered_def all_covered_def)
  show ?thesis
    using marf inv o(1,2) cov
    by (auto simp: kv' marf_commit_to_def st_flush_to_def kv_inv_def marf_shape_def all_covered_def has_block_def drop_lock_def s2' Let_def
        and_then_Ok_iff split: if_splits)
qed

lemma kv_inv_rollback:
  assumes inv: "kv_inv kv" and ok: "kv_rollback kv = Ok kv'"
  shows "kv_inv kv'"
proof -
  from ok obtain s marf where s: "sqlite_rollback (kv_chain_tip kv) (kv_side_store kv) = (Ok s :: (vm_error, _) res)"
    and marf: "drop_current (kv_marf kv) = Ok marf" and kv': "kv' = kv\<lparr>kv_marf := marf, kv_side_store := s, kv_chain_tip := SENTINEL_ARRAY\<rparr>"
    by (auto simp: kv_rollback_def unwrap_marf_def and_then_Ok_iff split: res.splits)
  have "savepoints (kv_side_store kv) \<noteq> []" using s by (auto simp: sqlite_rollback_def)
  then obtain b h t T where o: "open_chain_tip (kv_marf kv) = Some (b, h)" "last_extended (storage (kv_marf kv)) = Some (b, t)"
    "savepoints (kv_side_store kv) = [(b, T)]" "all_covered T (marf_data (storage (kv_marf kv)))" using kv_inv_open [OF inv] by metis
  have s': "s = (kv_side_store kv)\<lparr>tables := T, savepoints := []\<rparr>" by (rule sqlite_release_one(2) [OF o(3) s])
  show ?thesis
    using marf inv o
    by (auto simp: kv' s' drop_current_def drop_extending_trie_def kv_inv_def marf_shape_def drop_lock_def open_block_def split: if_splits)
qed

lemma kv_inv_new: "kv_inv (kv_new tip)"
  by (simp add: kv_inv_def kv_new_def empty_marf_def marf_shape_def all_covered_def sqlite_memory_def)

lemma kv_inv_side:
  assumes "data_table (tables conn) = data_table (tables (kv_side_store kv))" "savepoints conn = savepoints (kv_side_store kv)"
  shows "kv_inv (kv\<lparr>kv_side_store := conn\<rparr>) \<longleftrightarrow> kv_inv kv"
proof -
  have "covered (tables conn) = covered (tables (kv_side_store kv))" by (simp add: fun_eq_iff covered_def assms(1))
  then show ?thesis by (cases "last_extended (storage (kv_marf kv))") (auto simp: kv_inv_def all_covered_def assms(2))
qed

lemma kv_inv_metadata:
  "kv_inv kv \<Longrightarrow> st_insert_metadata X (MarfedKV_store X) contract key v kv = Ok kv' \<Longrightarrow> kv_inv kv'"
  by (auto simp: st_insert_metadata_def sqlite_insert_metadata_def and_then_Ok_iff Let_def kv_inv_side split: if_splits)

lemma kv_reachable_inv: "kv_reachable X kv \<Longrightarrow> kv_inv kv"
proof (induction rule: kv_reachable.induct)
  case (reach_set_block kv bhh old kv')
  then show ?case
    by (cases "last_extended (storage (kv_marf kv))") (auto simp: kv_set_block_hash_def kv_inv_def split: res.splits marf_error.splits)
qed (auto intro: kv_inv_new kv_inv_metadata kv_inv_begin kv_inv_put_all kv_inv_commit kv_inv_rollback)

lemma kv_get_total:
  assumes inv: "kv_inv kv"
  shows "\<exists>r. kv_get key kv = Ok r"
proof -
  let ?st = "storage (kv_marf kv)"
  have stored: "covered (tables (kv_side_store kv)) t" if "map_of (marf_data ?st) b = Some t" for b t
    using inv map_of_SomeD [OF that] unfolding kv_inv_def all_covered_def by blast
  have cov: "covered (tables (kv_side_store kv)) t" if "read_trie ?st b = Some t" for b t
    using inv that stored [of b t] by (auto simp: kv_inv_def read_trie_def split: option.splits if_splits)
  have "open_block ?st (cur_block ?st) = Ok ?st"
    using inv shape_restore [of "kv_marf kv"]
    by (auto simp: kv_inv_def open_block_def read_trie_def has_block_def cur_block_id split: option.splits prod.splits if_splits)
  moreover have "read_trie (?st\<lparr>cur_block := c\<rparr>) = read_trie ?st" for c by (auto simp: read_trie_def fun_eq_iff split: option.split)
  ultimately have sentinel: "get_by_key ?st SENTINEL_ARRAY k = Ok (case read_trie ?st SENTINEL_ARRAY of None \<Rightarrow> None | Some t \<Rightarrow> tr_leaves t k)" for k
    by (auto simp: get_by_key_def get_path_def open_block_def [of _ SENTINEL_ARRAY] split: option.splits)
  have "marf_shape (kv_marf kv)" using inv by (simp add: kv_inv_def)
  then have "get_by_key ?st b k = Ok (case read_trie ?st b of None \<Rightarrow> None | Some t \<Rightarrow> tr_leaves t k)" for b k
    using sentinel get_by_key_eq [OF shape_restore] by (cases "b = SENTINEL_ARRAY") auto
  then have "get_by_key ?st b (IndexKey key) = Ok None \<or>
      (\<exists>t mv. read_trie ?st b = Some t \<and> tr_leaves t (IndexKey key) = Some mv \<and> get_by_key ?st b (IndexKey key) = Ok (Some mv))" for b
    by (auto split: option.splits)
  then consider "get_by_key ?st (kv_chain_tip kv) (IndexKey key) = Ok None"
    | t mv where "read_trie ?st (kv_chain_tip kv) = Some t" "tr_leaves t (IndexKey key) = Some mv"
        "get_by_key ?st (kv_chain_tip kv) (IndexKey key) = Ok (Some mv)" by blast
  then show ?thesis
  proof cases
    case 1
    then show ?thesis by (simp add: kv_get_def unwrap_marf_def)
  next
    case (2 t mv)
    then show ?thesis using covered_row [OF cov [OF 2(1)] 2(2)] by (auto simp: kv_get_def unwrap_marf_def expect_def)
  qed
qed

lemma kv_begin_ready:
  assumes "kv_inv kv" "kv_begin current n kv = Ok kv'" "n \<noteq> SENTINEL_ARRAY"
  shows "kv_ready kv'"
proof -
  have shape: "marf_shape (kv_marf kv)" using assms(1) by (simp add: kv_inv_def)
  from assms(2) obtain marf where marf: "marf_begin (kv_marf kv) current n = Ok marf"
    by (auto simp: kv_begin_def unwrap_marf_def and_then_Ok_iff split: res.splits)
  note b = begin_shape [OF shape marf assms(3)]
  from b(4) have "kv_marf kv' = marf" "kv_chain_tip kv' = n"
    using assms(2) marf by (auto simp: kv_begin_def unwrap_marf_def expect_def)
  then show ?thesis using kv_inv_begin [OF assms] b(1,4) by (auto simp: kv_ready_def kv_inv_def)
qed

text \<open>A first block, opened in an empty store.\<close>

lemma example_kv: "\<exists>kv. kv_begin SENTINEL_ARRAY (example_block 1) (kv_new SENTINEL_ARRAY) = Ok kv"
proof -
  have "marf_shape (kv_marf (kv_new SENTINEL_ARRAY))" using kv_inv_new by (simp add: kv_inv_def)
  from begin_first [OF this, of "example_block 1"] show ?thesis
    by (simp add: kv_begin_def kv_new_def empty_marf_def has_block_def unwrap_marf_def expect_def)
qed

section \<open>The property\<close>

text \<open>C32. Reads of the Clarity store never miss: in every state that blocks begun, written, committed under a new name,
  rolled back and re-targeted to an earlier block can produce, reading a key returns, found or not. In particular the
  node never meets the case its code treats as fatal, a value known to the fork index whose text is not in the side store.\<close>

theorem kv_reads_never_miss:
  assumes "kv_reachable X kv"
  shows "\<exists>r. kv_get key kv = Ok r"
  using kv_get_total [OF kv_reachable_inv [OF assms]] .

theorem kv_reads_never_miss_witness:
  "\<exists>kv. kv_reachable example_externals kv \<and> kv_chain_tip kv = example_block 1 \<and> (\<exists>r. kv_get ''balance'' kv = Ok r)"
proof -
  obtain kv where kv: "kv_begin SENTINEL_ARRAY (example_block 1) (kv_new SENTINEL_ARRAY) = Ok kv" using example_kv ..
  have reach: "kv_reachable example_externals kv" by (rule reach_begin [OF reach_new _ kv]) simp
  have "kv_chain_tip kv = example_block 1"
    using kv begin_shape(4) [of "empty_marf :: (string, bytes) MarfTransaction" SENTINEL_ARRAY "example_block 1"] kv_inv_new
    by (auto simp: kv_begin_def kv_new_def unwrap_marf_def and_then_Ok_iff expect_def kv_inv_def split: res.splits)
  with reach kv_reads_never_miss [OF reach, of "''balance''"] show ?thesis by blast
qed

end
