(* ===== verification/RollbackStore.thy ===== *)
theory RollbackStore
  imports BackingStore
begin

text \<open>
  The rollback wrapper of the Clarity database (\<^verbatim>\<open>src/vm/database/key_value_wrapper.rs\<close>): nested contexts of edits over
  a backing store, with a history of values per key so that reads are one lookup. The abstract specification is a stack of write
  logs; the refinement lemmas show that every operation of the wrapper computes the same as the operation on logs.
  The code is that of the default build, where an edit carries no copy of its value.
\<close>

section \<open>Definitions\<close>

type_synonym 'k history = "('k, string list) mapping"
type_synonym meta_key = "QualifiedContractIdentifier \<times> string"

record RollbackContext =
  edits :: "string list"
  metadata_edits :: "meta_key list"

record 's RollbackWrapper =
  store :: 's
  lookup_map :: "string history"
  metadata_lookup_map :: "meta_key history"
  stack :: "RollbackContext list"

definition RollbackWrapper_new :: "'s \<Rightarrow> 's RollbackWrapper" where
  "RollbackWrapper_new s = \<lparr>store = s, lookup_map = Mapping.empty, metadata_lookup_map = Mapping.empty, stack = []\<rparr>"

definition empty_context :: RollbackContext where
  "empty_context = \<lparr>edits = [], metadata_edits = []\<rparr>"

definition nest :: "'s RollbackWrapper \<Rightarrow> 's RollbackWrapper" where
  "nest w = w\<lparr>stack := stack w @ [empty_context]\<rparr>"

definition depth :: "'s RollbackWrapper \<Rightarrow> nat" where
  "depth w = length (stack w)"

definition rollback_lookup_map :: "'k \<Rightarrow> 'k history \<Rightarrow> (vm_error, string \<times> 'k history) res" where
  "rollback_lookup_map key m =
     and_then (expect (Mapping.lookup m key)) (\<lambda>h.
       if h = [] then Panic
       else Ok (last h, if butlast h = [] then Mapping.delete key m else Mapping.update key (butlast h) m))"

fun drain_edits :: "'k list \<Rightarrow> 'k history \<Rightarrow> (vm_error, ('k \<times> string) list \<times> 'k history) res" where
  "drain_edits [] m = Ok ([], m)"
| "drain_edits (key # ks) m =
     and_then (rollback_lookup_map key m) (\<lambda>(value, m).
     and_then (drain_edits ks m) (\<lambda>(output, m). Ok ((key, value) # output, m)))"

definition rollback_check_pre_bottom_commit :: "'k list \<Rightarrow> 'k history \<Rightarrow> (vm_error, ('k \<times> string) list \<times> 'k history) res" where
  "rollback_check_pre_bottom_commit ks m =
     and_then (drain_edits ks (Mapping.map_values (\<lambda>_. rev) m)) (\<lambda>(output, m).
       if Mapping.is_empty m then Ok (output, m) else Panic)"

definition rollback :: "'s RollbackWrapper \<Rightarrow> (vm_error, 's RollbackWrapper) res" where
  "rollback w =
     (if stack w = [] then Panic
      else let last_item = last (stack w)
           in and_then (drain_edits (rev (edits last_item)) (lookup_map w)) (\<lambda>(_, m).
              and_then (drain_edits (rev (metadata_edits last_item)) (metadata_lookup_map w)) (\<lambda>(_, mm).
                Ok (w\<lparr>lookup_map := m, metadata_lookup_map := mm, stack := butlast (stack w)\<rparr>))))"

definition bubble_up :: "RollbackContext \<Rightarrow> RollbackContext \<Rightarrow> RollbackContext" where
  "bubble_up last_item next_up =
     next_up\<lparr>edits := edits next_up @ edits last_item, metadata_edits := metadata_edits next_up @ metadata_edits last_item\<rparr>"

definition commit :: "externals \<Rightarrow> 's ClarityBackingStore \<Rightarrow> 's RollbackWrapper \<Rightarrow> (vm_error, 's RollbackWrapper) res" where
  "commit X M w =
     (if stack w = [] then Panic
      else let last_item = last (stack w); rest = butlast (stack w)
           in if rest = [] then
                and_then (rollback_check_pre_bottom_commit (edits last_item) (lookup_map w)) (\<lambda>(all_edits, m).
                and_then (if all_edits \<noteq> [] then st_put_all M all_edits (store w) else Ok (store w)) (\<lambda>s.
                and_then (rollback_check_pre_bottom_commit (metadata_edits last_item) (metadata_lookup_map w)) (\<lambda>(metadata_edits, mm).
                and_then (if metadata_edits \<noteq> [] then put_all_metadata X M metadata_edits s else Ok s) (\<lambda>s.
                  Ok \<lparr>store = s, lookup_map = m, metadata_lookup_map = mm, stack = []\<rparr>))))
              else Ok (w\<lparr>stack := butlast rest @ [bubble_up last_item (last rest)]\<rparr>))"

definition inner_put :: "'k history \<Rightarrow> 'k list \<Rightarrow> 'k \<Rightarrow> string \<Rightarrow> 'k history \<times> 'k list" where
  "inner_put m es key value =
     (let m = (if Mapping.lookup m key = None then Mapping.update key [] m else m)
      in (Mapping.update key (the (Mapping.lookup m key) @ [value]) m, es @ [key]))"

definition wrapper_put :: "string \<Rightarrow> string \<Rightarrow> 's RollbackWrapper \<Rightarrow> (vm_error, 's RollbackWrapper) res" where
  "wrapper_put key value w =
     (if stack w = [] then Panic
      else let current = last (stack w); (m, es) = inner_put (lookup_map w) (edits current) key value
           in Ok (w\<lparr>lookup_map := m, stack := butlast (stack w) @ [current\<lparr>edits := es\<rparr>]\<rparr>))"

definition wrapper_insert_metadata :: "QualifiedContractIdentifier \<Rightarrow> string \<Rightarrow> string \<Rightarrow> 's RollbackWrapper
    \<Rightarrow> (vm_error, 's RollbackWrapper) res" where
  "wrapper_insert_metadata contract key value w =
     (if stack w = [] then Panic
      else let current = last (stack w);
               (m, es) = inner_put (metadata_lookup_map w) (metadata_edits current) (contract, key) value
           in Ok (w\<lparr>metadata_lookup_map := m, stack := butlast (stack w) @ [current\<lparr>metadata_edits := es\<rparr>]\<rparr>))"

text \<open>The latest value of a key in a history. Reads deserialize what they find with \<open>de\<close>.\<close>

definition latest :: "'k history \<Rightarrow> 'k \<Rightarrow> string option" where
  "latest m key = (case Mapping.lookup m key of None \<Rightarrow> None | Some h \<Rightarrow> if h = [] then None else Some (last h))"

definition wrapper_get :: "(string \<Rightarrow> (vm_error, 'a) res) \<Rightarrow> 's ClarityBackingStore \<Rightarrow> string \<Rightarrow> 's RollbackWrapper
    \<Rightarrow> (vm_error, 'a option) res" where
  "wrapper_get de M key w =
     (if stack w = [] then Panic
      else case latest (lookup_map w) key of
        Some x \<Rightarrow> and_then (de x) (\<lambda>v. Ok (Some v))
      | None \<Rightarrow> and_then (st_get M key (store w)) (\<lambda>r.
          case r of None \<Rightarrow> Ok None | Some x \<Rightarrow> and_then (de x) (\<lambda>v. Ok (Some v))))"

definition wrapper_get_metadata :: "externals \<Rightarrow> 's ClarityBackingStore \<Rightarrow> QualifiedContractIdentifier \<Rightarrow> string \<Rightarrow> 's RollbackWrapper
    \<Rightarrow> (vm_error, string option) res" where
  "wrapper_get_metadata X M contract key w =
     (if stack w = [] then Panic
      else case latest (metadata_lookup_map w) (contract, key) of
        Some x \<Rightarrow> Ok (Some x)
      | None \<Rightarrow> st_get_metadata X M contract key (store w))"

definition wrapper_has_entry :: "'s ClarityBackingStore \<Rightarrow> string \<Rightarrow> 's RollbackWrapper \<Rightarrow> (vm_error, bool) res" where
  "wrapper_has_entry M key w =
     (if stack w = [] then Panic
      else if Mapping.lookup (lookup_map w) key \<noteq> None then Ok True
      else st_has_entry M key (store w))"

definition wrapper_has_metadata_entry :: "externals \<Rightarrow> 's ClarityBackingStore \<Rightarrow> QualifiedContractIdentifier \<Rightarrow> string
    \<Rightarrow> 's RollbackWrapper \<Rightarrow> (vm_error, bool) res" where
  "wrapper_has_metadata_entry X M contract key w =
     (case wrapper_get_metadata X M contract key w of Ok (Some _) \<Rightarrow> Ok True | Panic \<Rightarrow> Panic | _ \<Rightarrow> Ok False)"

definition prepare_for_contract_metadata :: "externals \<Rightarrow> 's ClarityBackingStore \<Rightarrow> QualifiedContractIdentifier \<Rightarrow> bytes
    \<Rightarrow> 's RollbackWrapper \<Rightarrow> (vm_error, 's RollbackWrapper) res" where
  "prepare_for_contract_metadata X M contract content_hash w =
     and_then (make_contract_commitment M content_hash (store w)) (\<lambda>value.
       wrapper_put (make_contract_hash_key X contract) value w)"

text \<open>The operations that change the wrapper, in the order the virtual machine issues them.\<close>

datatype kv_op = Nest | Rollback | Commit | Put string string | InsertMetadata QualifiedContractIdentifier string string

primrec kv_step :: "externals \<Rightarrow> 's ClarityBackingStore \<Rightarrow> kv_op \<Rightarrow> 's RollbackWrapper \<Rightarrow> (vm_error, 's RollbackWrapper) res" where
  "kv_step X M Nest w = Ok (nest w)"
| "kv_step X M Rollback w = rollback w"
| "kv_step X M Commit w = commit X M w"
| "kv_step X M (Put key value) w = wrapper_put key value w"
| "kv_step X M (InsertMetadata contract key value) w = wrapper_insert_metadata contract key value w"

section \<open>The specification: a stack of write logs\<close>

type_synonym log_level = "(string \<times> string) list \<times> (meta_key \<times> string) list"

record 's log_stack =
  log_store :: 's
  log_levels :: "log_level list"

definition add_write :: "log_level \<Rightarrow> log_level \<Rightarrow> log_level" where
  "add_write l l' = (fst l @ fst l', snd l @ snd l')"

primrec log_step :: "externals \<Rightarrow> 's ClarityBackingStore \<Rightarrow> kv_op \<Rightarrow> 's log_stack \<Rightarrow> (vm_error, 's log_stack) res" where
  "log_step X M Nest a = Ok (a\<lparr>log_levels := log_levels a @ [([], [])]\<rparr>)"
| "log_step X M Rollback a = (if log_levels a = [] then Panic else Ok (a\<lparr>log_levels := butlast (log_levels a)\<rparr>))"
| "log_step X M Commit a =
     (case rev (log_levels a) of
        [] \<Rightarrow> Panic
      | [l] \<Rightarrow>
          and_then (if fst l \<noteq> [] then st_put_all M (fst l) (log_store a) else Ok (log_store a)) (\<lambda>s.
          and_then (if snd l \<noteq> [] then put_all_metadata X M (snd l) s else Ok s) (\<lambda>s.
            Ok \<lparr>log_store = s, log_levels = []\<rparr>))
      | l # l' # ls \<Rightarrow> Ok (a\<lparr>log_levels := rev ls @ [add_write l' l]\<rparr>))"
| "log_step X M (Put key value) a =
     (if log_levels a = [] then Panic
      else Ok (a\<lparr>log_levels := butlast (log_levels a) @ [add_write (last (log_levels a)) ([(key, value)], [])]\<rparr>))"
| "log_step X M (InsertMetadata contract key value) a =
     (if log_levels a = [] then Panic
      else Ok (a\<lparr>log_levels := butlast (log_levels a) @ [add_write (last (log_levels a)) ([], [((contract, key), value)])]\<rparr>))"

definition log_writes :: "'s log_stack \<Rightarrow> (string \<times> string) list" where
  "log_writes a = concat (map fst (log_levels a))"

definition log_metadata :: "'s log_stack \<Rightarrow> (meta_key \<times> string) list" where
  "log_metadata a = concat (map snd (log_levels a))"

text \<open>The wrapper that represents a stack of logs.\<close>

definition history_of :: "('k \<times> string) list \<Rightarrow> 'k history" where
  "history_of es = fold (\<lambda>(k, v) m. fst (inner_put m [] k v)) es Mapping.empty"

definition wrapper_of :: "'s log_stack \<Rightarrow> 's RollbackWrapper" where
  "wrapper_of a =
     \<lparr>store = log_store a, lookup_map = history_of (log_writes a), metadata_lookup_map = history_of (log_metadata a),
      stack = map (\<lambda>l. \<lparr>edits = map fst (fst l), metadata_edits = map fst (snd l)\<rparr>) (log_levels a)\<rparr>"

section \<open>Histories\<close>

definition values_of :: "('k \<times> string) list \<Rightarrow> 'k \<Rightarrow> string list" where
  "values_of es k = map snd (filter (\<lambda>e. fst e = k) es)"

lemma values_of_simps [simp]:
  "values_of [] k = []" "values_of (e # es) k = (if fst e = k then snd e # values_of es k else values_of es k)"
  "values_of (es @ fs) k = values_of es k @ values_of fs k"
  by (simp_all add: values_of_def)

lemma lookup_delete': "Mapping.lookup (Mapping.delete k m) k' = (if k = k' then None else Mapping.lookup m k')"
  by (cases "k = k'") (simp_all add: Mapping.lookup_delete_neq)

lemma history_of_snoc: "history_of (es @ [(k, v)]) = fst (inner_put (history_of es) [] k v)"
  by (simp add: history_of_def)

lemma lookup_history: "Mapping.lookup (history_of es) k = (if values_of es k = [] then None else Some (values_of es k))"
proof (induction es rule: rev_induct)
  case Nil
  then show ?case by (simp add: history_of_def)
next
  case (snoc e es)
  obtain k' v where e: "e = (k', v)" by (cases e)
  show ?case using snoc.IH by (auto simp: e history_of_snoc inner_put_def Let_def Mapping.lookup_update')
qed

lemma latest_history: "latest (history_of es) k = map_of (rev es) k"
proof -
  have "map_of (rev es) k = (if values_of es k = [] then None else Some (last (values_of es k)))"
    by (induction es rule: rev_induct) auto
  then show ?thesis by (simp add: latest_def lookup_history)
qed

lemma pop_history: "rollback_lookup_map k (history_of (es @ [(k, v)])) = Ok (v, history_of es)"
  by (simp add: rollback_lookup_map_def lookup_history expect_def butlast_append)
    (auto intro!: mapping_eqI simp: lookup_history Mapping.lookup_update' lookup_delete')

lemma drain_rollback: "drain_edits (rev (map fst es)) (history_of (ls @ es)) = Ok (rev es, history_of ls)"
proof (induction es rule: rev_induct)
  case (snoc e es)
  obtain k v where e: "e = (k, v)" by (cases e)
  show ?case using snoc.IH pop_history [of k "ls @ es" v] by (simp add: e)
qed simp

text \<open>The histories reversed, as the bottom commit uses them: popping yields the writes from the first on.\<close>

lemma pop_reversed:
  "rollback_lookup_map k (Mapping.map_values (\<lambda>_. rev) (history_of ((k, v) # es))) = Ok (v, Mapping.map_values (\<lambda>_. rev) (history_of es))"
  by (simp add: rollback_lookup_map_def lookup_history expect_def Mapping.lookup_map_values)
    (auto intro!: mapping_eqI simp: lookup_history Mapping.lookup_update' lookup_delete' Mapping.lookup_map_values)

lemma drain_bottom: "drain_edits (map fst es) (Mapping.map_values (\<lambda>_. rev) (history_of es)) = Ok (es, Mapping.empty)"
proof (induction es)
  case Nil
  then show ?case by (auto intro!: mapping_eqI simp: history_of_def Mapping.lookup_map_values)
next
  case (Cons e es)
  obtain k v where e: "e = (k, v)" by (cases e)
  show ?case using Cons.IH by (simp add: e pop_reversed)
qed

lemma bottom_history: "rollback_check_pre_bottom_commit (map fst es) (history_of es) = Ok (es, Mapping.empty)"
  by (simp add: rollback_check_pre_bottom_commit_def drain_bottom)

lemma put_history: "inner_put (history_of es) ks k v = (history_of (es @ [(k, v)]), ks @ [k])"
  by (simp add: history_of_snoc inner_put_def Let_def)

section \<open>Refinement\<close>

lemma wrapper_fields [simp]:
  "store (wrapper_of a) = log_store a" "lookup_map (wrapper_of a) = history_of (log_writes a)"
  "metadata_lookup_map (wrapper_of a) = history_of (log_metadata a)"
  "stack (wrapper_of a) = map (\<lambda>l. \<lparr>edits = map fst (fst l), metadata_edits = map fst (snd l)\<rparr>) (log_levels a)"
  by (simp_all add: wrapper_of_def)

lemma history_Nil: "history_of [] = Mapping.empty"
  by (simp add: history_of_def)

lemma levels_cases:
  obtains "log_levels a = []" | l where "log_levels a = [l]" | ls l' l where "log_levels a = ls @ [l', l]"
proof (cases "log_levels a" rule: rev_cases)
  case (snoc ys l)
  then show ?thesis using that by (cases ys rule: rev_cases) simp_all
qed simp

lemma refine_nest: "kv_step X M Nest (wrapper_of a) = and_then (log_step X M Nest a) (\<lambda>a. Ok (wrapper_of a))"
  by (simp add: nest_def wrapper_of_def empty_context_def log_writes_def log_metadata_def)

lemma refine_rollback: "kv_step X M Rollback (wrapper_of a) = and_then (log_step X M Rollback a) (\<lambda>a. Ok (wrapper_of a))"
proof (cases "log_levels a" rule: rev_cases)
  case (snoc ls l)
  then show ?thesis
    by (simp add: rollback_def drain_rollback log_writes_def log_metadata_def wrapper_of_def)
qed (simp add: rollback_def)

lemma refine_put: "kv_step X M (Put k v) (wrapper_of a) = and_then (log_step X M (Put k v) a) (\<lambda>a. Ok (wrapper_of a))"
proof (cases "log_levels a" rule: rev_cases)
  case (snoc ls l)
  then show ?thesis
    by (simp add: wrapper_put_def put_history wrapper_of_def log_writes_def log_metadata_def add_write_def)
qed (simp add: wrapper_put_def)

lemma refine_metadata: "kv_step X M (InsertMetadata c k v) (wrapper_of a) = and_then (log_step X M (InsertMetadata c k v) a) (\<lambda>a. Ok (wrapper_of a))"
proof (cases "log_levels a" rule: rev_cases)
  case (snoc ls l)
  then show ?thesis
    by (simp add: wrapper_insert_metadata_def put_history wrapper_of_def log_writes_def log_metadata_def add_write_def)
qed (simp add: wrapper_insert_metadata_def)

lemma refine_commit: "kv_step X M Commit (wrapper_of a) = and_then (log_step X M Commit a) (\<lambda>a. Ok (wrapper_of a))"
proof (cases a rule: levels_cases)
  case 1
  then show ?thesis by (simp add: commit_def)
next
  case (2 l)
  then show ?thesis
    by (simp add: commit_def bottom_history log_writes_def log_metadata_def and_then_assoc wrapper_of_def history_Nil)
next
  case (3 ls l' l)
  then show ?thesis
    by (simp add: commit_def butlast_append wrapper_of_def log_writes_def log_metadata_def add_write_def bubble_up_def)
qed

lemma kv_step_refines: "kv_step X M op (wrapper_of a) = and_then (log_step X M op a) (\<lambda>a. Ok (wrapper_of a))"
  by (cases op) (simp_all only: refine_nest refine_rollback refine_commit refine_put refine_metadata)

lemma run_refines: "fold_res (kv_step X M) ops (wrapper_of a) = and_then (fold_res (log_step X M) ops a) (\<lambda>a. Ok (wrapper_of a))"
proof (induction ops arbitrary: a)
  case (Cons op ops)
  show ?case by (cases "log_step X M op a") (simp_all add: kv_step_refines Cons)
qed simp

lemma wrapper_of_new: "wrapper_of \<lparr>log_store = s, log_levels = []\<rparr> = RollbackWrapper_new s"
  by (simp add: wrapper_of_def RollbackWrapper_new_def log_writes_def log_metadata_def history_Nil)

section \<open>Rolling back\<close>

text \<open>A sequence of operations that closes every context it opens, and no other; \<open>d\<close> counts the open ones.\<close>

fun balanced :: "nat \<Rightarrow> kv_op list \<Rightarrow> bool" where
  "balanced d [] \<longleftrightarrow> d = 0"
| "balanced d (Nest # ops) \<longleftrightarrow> balanced (Suc d) ops"
| "balanced d (Rollback # ops) \<longleftrightarrow> d > 0 \<and> balanced (d - 1) ops"
| "balanced d (Commit # ops) \<longleftrightarrow> d > 0 \<and> balanced (d - 1) ops"
| "balanced d (Put k v # ops) \<longleftrightarrow> balanced d ops"
| "balanced d (InsertMetadata c k v # ops) \<longleftrightarrow> balanced d ops"

lemma log_commit_nested:
  "log_step X M Commit \<lparr>log_store = s, log_levels = ls @ [l', l]\<rparr> = Ok \<lparr>log_store = s, log_levels = ls @ [add_write l' l]\<rparr>"
  by simp

lemma balanced_keeps_below:
  assumes "balanced d ops" "length ds = Suc d"
  shows "\<exists>l. fold_res (log_step X M) ops \<lparr>log_store = s, log_levels = ls @ ds\<rparr> = Ok \<lparr>log_store = s, log_levels = ls @ [l]\<rparr>"
  using assms
proof (induction d ops arbitrary: ds rule: balanced.induct)
  case (1 d)
  then show ?case by (auto simp: length_Suc_conv)
next
  case (2 d ops)
  then show ?case using "2.IH" [of "ds @ [([], [])]"] by simp
next
  case (3 d ops)
  then obtain es e where ds: "ds = es @ [e]" "length es = Suc (d - 1)" by (cases ds rule: rev_cases) auto
  then show ?case using "3.IH" [of es] "3.prems" by (simp add: butlast_append)
next
  case (4 d ops)
  then obtain es1 e where es1: "ds = es1 @ [e]" "length es1 = d" by (cases ds rule: rev_cases) auto
  moreover obtain es e' where "es1 = es @ [e']" "length es = d - 1" using es1(2) "4.prems"(1) by (cases es1 rule: rev_cases) auto
  ultimately have ds: "ds = es @ [e', e]" "length (es @ [add_write e' e]) = Suc (d - 1)" by simp_all
  then show ?case using "4.IH" [of "es @ [add_write e' e]"] "4.prems" log_commit_nested [of X M s "ls @ es" e' e]
    by (simp del: log_step.simps)
next
  case (5 d k v ops)
  then obtain es e where ds: "ds = es @ [e]" by (cases ds rule: rev_cases) auto
  then show ?case using "5.IH" [of "es @ [add_write e ([(k, v)], [])]"] "5.prems" by (simp add: butlast_append)
next
  case (6 d c k v ops)
  then obtain es e where ds: "ds = es @ [e]" by (cases ds rule: rev_cases) auto
  then show ?case using "6.IH" [of "es @ [add_write e ([], [((c, k), v)])]"] "6.prems" by (simp add: butlast_append)
qed

lemma log_rollback_restores:
  assumes "balanced 0 ops"
  shows "fold_res (log_step X M) (Nest # ops @ [Rollback]) a = Ok a"
proof -
  obtain s ls where a: "a = \<lparr>log_store = s, log_levels = ls\<rparr>" by (cases a) simp
  from balanced_keeps_below [OF assms, of "[([], [])]" X M s ls] show ?thesis by (auto simp: a fold_res_append)
qed

lemma reachable_represented:
  assumes "fold_res (kv_step X M) h (RollbackWrapper_new s) = Ok w"
  obtains a where "w = wrapper_of a"
proof -
  have "and_then (fold_res (log_step X M) h \<lparr>log_store = s, log_levels = []\<rparr>) (\<lambda>a. Ok (wrapper_of a)) = Ok w"
    using assms run_refines [of X M h "\<lparr>log_store = s, log_levels = []\<rparr>"] by (simp add: wrapper_of_new)
  then show ?thesis using that by (auto simp: and_then_Ok_iff)
qed

section \<open>Publishing\<close>

lemma wrapper_get_log:
  "wrapper_get de M key (wrapper_of a) =
     (if log_levels a = [] then Panic
      else case map_of (rev (log_writes a)) key of
        Some x \<Rightarrow> and_then (de x) (\<lambda>v. Ok (Some v))
      | None \<Rightarrow> and_then (st_get M key (log_store a)) (\<lambda>r. case r of None \<Rightarrow> Ok None | Some x \<Rightarrow> and_then (de x) (\<lambda>v. Ok (Some v))))"
  by (simp add: wrapper_get_def latest_history cong: option.case_cong)

lemma wrapper_get_metadata_log:
  "wrapper_get_metadata X M contract key (wrapper_of a) =
     (if log_levels a = [] then Panic
      else case map_of (rev (log_metadata a)) (contract, key) of
        Some x \<Rightarrow> Ok (Some x) | None \<Rightarrow> st_get_metadata X M contract key (log_store a))"
  by (simp add: wrapper_get_metadata_def latest_history cong: option.case_cong)

lemma and_then_same: "and_then r (\<lambda>v. case v of None \<Rightarrow> Ok None | Some x \<Rightarrow> Ok (Some x)) = r"
  by (cases r) (auto split: option.split)

context backing_store
begin

lemma commit_publishes:
  assumes one: "log_levels a = [l]" and ready: "ready (log_store a)" and fits: "fits (fst l) (log_store a)"
    and no_err: "\<And>e s. put_all_metadata X M (snd l) s \<noteq> Err e"
  shows "(\<exists>w. commit X M (wrapper_of a) = Ok w \<and> w = RollbackWrapper_new (store w) \<and> ready (store w) \<and>
      (\<forall>key. st_get M key (store w) = wrapper_get Ok M key (wrapper_of a))) \<or>
    commit X M (wrapper_of a) = Panic \<and> snd l \<noteq> []"
proof -
  obtain s1 where s1: "(if fst l \<noteq> [] then st_put_all M (fst l) (log_store a) else Ok (log_store a)) = Ok s1" "ready s1"
    "\<forall>k. st_get M k s1 = (case map_of (rev (fst l)) k of Some v \<Rightarrow> Ok (Some v) | None \<Rightarrow> st_get M k (log_store a))"
    using put_all_writes [OF ready fits] ready by (cases "fst l = []") auto
  have get: "wrapper_get Ok M key (wrapper_of a) = st_get M key s1" for key
    by (simp add: wrapper_get_log one log_writes_def and_then_same s1(3) cong: option.case_cong)
  have c: "commit X M (wrapper_of a) =
      and_then (if snd l \<noteq> [] then put_all_metadata X M (snd l) s1 else Ok s1) (\<lambda>s. Ok (RollbackWrapper_new s))"
    using refine_commit [of X M a] s1(1) by (simp add: one and_then_assoc wrapper_of_new)
  show ?thesis
  proof (cases "if snd l \<noteq> [] then put_all_metadata X M (snd l) s1 else Ok s1")
    case (Ok s2)
    then have "ready s2 \<and> (\<forall>k. st_get M k s2 = st_get M k s1)"
      using put_all_metadata_keeps [OF s1(2), of X "snd l" s2] s1(2) by (auto split: if_splits)
    then show ?thesis using Ok c get by (simp add: RollbackWrapper_new_def)
  qed (use no_err c in \<open>auto split: if_splits\<close>)
qed

end

text \<open>The values a wrapper has pending, and that they collide with nothing.\<close>

definition pending_values :: "'s RollbackWrapper \<Rightarrow> string set" where
  "pending_values w = {v. \<exists>k h. Mapping.lookup (lookup_map w) k = Some h \<and> v \<in> set h}"

definition no_collisions :: "externals \<Rightarrow> MarfedKV RollbackWrapper \<Rightarrow> bool" where
  "no_collisions X w \<longleftrightarrow> (\<forall>v \<in> pending_values w. \<forall>u.
     (u \<in> pending_values w \<longrightarrow> marf_from_value X u = marf_from_value X v \<longrightarrow> u = v) \<and>
     (sqlite_get (to_hex (marf_from_value X v)) (kv_side_store (store w)) = Some u \<longrightarrow> u = v))"

lemma pending_values_log: "pending_values (wrapper_of a) = snd ` set (log_writes a)"
proof -
  have "(\<exists>k. v \<in> set (values_of es k)) \<longleftrightarrow> v \<in> snd ` set es" for v and es :: "(string \<times> string) list"
    by (auto simp: values_of_def)
  moreover have "v \<in> pending_values (wrapper_of a) \<longleftrightarrow> (\<exists>k. v \<in> set (values_of (log_writes a) k))" for v
    by (auto simp: pending_values_def lookup_history) (metis empty_iff list.set(1))
  ultimately show ?thesis by blast
qed

lemma to_hex_inj: "to_hex u = to_hex v \<longleftrightarrow> u = v"
  by (metis hex_bytes_to_hex res.inject(1))

lemma no_collisions_fits:
  assumes "log_levels a = [l]" "no_collisions X (wrapper_of a)"
  shows "kv_fits X (fst l) (log_store a)"
  using assms by (auto simp: no_collisions_def kv_fits_def pending_values_log log_writes_def to_hex_inj)

lemma history_nonempty: "es \<noteq> [] \<Longrightarrow> history_of es \<noteq> Mapping.empty"
proof -
  assume "es \<noteq> []"
  then have "Mapping.lookup (history_of es) (fst (hd es)) \<noteq> None" by (cases es) (simp_all add: lookup_history)
  then show ?thesis by auto
qed

lemma kv_metadata_no_err: "put_all_metadata X (MarfedKV_store X) ms s \<noteq> Err e"
proof (induction ms arbitrary: s)
  case (Cons m ms)
  obtain c k v where m: "m = ((c, k), v)" by (cases m) auto
  show ?case
    by (cases "st_insert_metadata X (MarfedKV_store X) c k v s")
      (use Cons in \<open>auto simp: m put_all_metadata_def st_insert_metadata_def sqlite_insert_metadata_def MarfedKV_store_def expect_def Let_def
        split: option.splits if_splits\<close>)
qed (simp add: put_all_metadata_def)

section \<open>Properties\<close>

text \<open>C33. The wrapper implements nested transactions. Whatever operations are run from a new wrapper, the outcome (the store,
  the contexts, or the panic) is that of the same operations on a plain stack of write logs, where a rollback drops
  the top log, an inner commit appends it to the one below, and the outermost commit sends its writes to the store in the
  order they were made; and reads see the latest write in any open log, or else the store.\<close>

theorem wrapper_refines_logs:
  "fold_res (kv_step X M) ops (RollbackWrapper_new s) =
     and_then (fold_res (log_step X M) ops \<lparr>log_store = s, log_levels = []\<rparr>) (\<lambda>a. Ok (wrapper_of a)) \<and>
   wrapper_get de M key (wrapper_of a) =
     (if log_levels a = [] then Panic
      else case map_of (rev (log_writes a)) key of
        Some x \<Rightarrow> and_then (de x) (\<lambda>v. Ok (Some v))
      | None \<Rightarrow> and_then (st_get M key (log_store a)) (\<lambda>r. case r of None \<Rightarrow> Ok None | Some x \<Rightarrow> and_then (de x) (\<lambda>v. Ok (Some v)))) \<and>
   wrapper_get_metadata X M contract key (wrapper_of a) =
     (if log_levels a = [] then Panic
      else case map_of (rev (log_metadata a)) (contract, key) of
        Some x \<Rightarrow> Ok (Some x) | None \<Rightarrow> st_get_metadata X M contract key (log_store a))"
  by (intro conjI run_refines [of X M ops "\<lparr>log_store = s, log_levels = []\<rparr>", unfolded wrapper_of_new]
      wrapper_get_log wrapper_get_metadata_log)

text \<open>C34. A rollback restores everything. From any state of the wrapper, opening a context, running any operations that close
  the contexts they open, and rolling back, succeeds and leaves the wrapper exactly as it was: store, histories and
  contexts.\<close>

theorem rollback_restores:
  assumes "fold_res (kv_step X M) h (RollbackWrapper_new s) = Ok w" and "balanced 0 ops"
  shows "fold_res (kv_step X M) (Nest # ops @ [Rollback]) w = Ok w"
proof -
  obtain a where "w = wrapper_of a" using reachable_represented [OF assms(1)] .
  then show ?thesis using run_refines [of X M "Nest # ops @ [Rollback]" a] log_rollback_restores [OF assms(2), of X M a] by simp
qed

theorem rollback_restores_witness:
  "\<exists>w. fold_res (kv_step example_externals MemoryBackingStore) [Nest, Put ''a'' ''1'']  (RollbackWrapper_new sqlite_memory) = Ok w \<and>
     fold_res (kv_step example_externals MemoryBackingStore) [Nest, Put ''a'' ''2'', Nest, Put ''b'' ''3'', Commit, Rollback] w = Ok w"
proof -
  obtain w where w: "fold_res (kv_step example_externals MemoryBackingStore) [Nest, Put ''a'' ''1'']  (RollbackWrapper_new sqlite_memory) = Ok w"
    using run_refines [of example_externals MemoryBackingStore "[Nest, Put ''a'' ''1'']" "\<lparr>log_store = sqlite_memory, log_levels = []\<rparr>"]
    by (simp add: wrapper_of_new)
  from rollback_restores [OF w, of "[Put ''a'' ''2'', Nest, Put ''b'' ''3'', Commit]"] w show ?thesis by auto
qed

text \<open>C35. The outermost commit publishes exactly what reads saw. For a store over the fork index with a block open for writing,
  and written values whose hashes collide neither with each other nor with a stored value, the outermost commit leaves
  nothing in the wrapper and a store from which every key reads as it read through the wrapper just before. The commit
  can only fail, by a panic, on contract metadata.\<close>

theorem commit_publishes_reads:
  assumes "fold_res (kv_step X (MarfedKV_store X)) h (RollbackWrapper_new s) = Ok w" and "depth w = 1"
    and "kv_ready (store w)" and "no_collisions X w"
  shows "(\<exists>w'. commit X (MarfedKV_store X) w = Ok w' \<and> w' = RollbackWrapper_new (store w') \<and>
      (\<forall>key. kv_get key (store w') = wrapper_get Ok (MarfedKV_store X) key w)) \<or>
    commit X (MarfedKV_store X) w = Panic \<and> metadata_lookup_map w \<noteq> Mapping.empty"
proof -
  obtain a where w: "w = wrapper_of a" using reachable_represented [OF assms(1)] .
  then obtain l where l: "log_levels a = [l]" using assms(2) by (auto simp: depth_def length_Suc_conv)
  have fits: "kv_fits X (fst l) (log_store a)" using assms(4) by (rule no_collisions_fits [OF l, unfolded w [symmetric]])
  have "snd l \<noteq> [] \<Longrightarrow> metadata_lookup_map w \<noteq> Mapping.empty" using l by (simp add: w log_metadata_def history_nonempty)
  with marfed_store.commit_publishes [OF l _ fits kv_metadata_no_err] assms(3) w show ?thesis by auto
qed

theorem commit_publishes_reads_witness:
  "\<exists>kv w w'. fold_res (kv_step example_externals (MarfedKV_store example_externals)) [Nest, Put ''a'' ''1''] (RollbackWrapper_new kv) = Ok w \<and>
     commit example_externals (MarfedKV_store example_externals) w = Ok w' \<and> kv_get ''a'' (store w') = Ok (Some ''1'')"
proof -
  let ?M = "MarfedKV_store example_externals"
  obtain kv where b: "kv_begin SENTINEL_ARRAY (example_block 1) (kv_new SENTINEL_ARRAY) = Ok kv" using example_kv ..
  have ready: "kv_ready kv" by (rule kv_begin_ready [OF kv_inv_new b]) simp
  have side: "sqlite_get k (kv_side_store kv) = None" for k
    using b by (auto simp: kv_begin_def kv_new_def sqlite_begin_def sqlite_memory_def sqlite_get_def and_then_Ok_iff)
  define a where "a = \<lparr>log_store = kv, log_levels = [([(''a'', ''1'')], [])]\<rparr>"
  have w: "fold_res (kv_step example_externals ?M) [Nest, Put ''a'' ''1''] (RollbackWrapper_new kv) = Ok (wrapper_of a)"
    using run_refines [of example_externals ?M "[Nest, Put ''a'' ''1'']" "\<lparr>log_store = kv, log_levels = []\<rparr>"]
    by (simp add: wrapper_of_new a_def add_write_def)
  have "no_collisions example_externals (wrapper_of a)"
    by (simp add: no_collisions_def pending_values_log log_writes_def a_def side)
  moreover have "metadata_lookup_map (wrapper_of a) = Mapping.empty" by (simp add: a_def log_metadata_def history_Nil)
  ultimately obtain w' where "commit example_externals ?M (wrapper_of a) = Ok w'"
    "kv_get ''a'' (store w') = wrapper_get Ok ?M ''a'' (wrapper_of a)"
    using commit_publishes_reads [OF w] ready by (auto simp: depth_def a_def)
  then show ?thesis using w by (auto simp: wrapper_get_log log_writes_def a_def)
qed

end
