(* ===== verification/Spec2Isabelle.thy ===== *)
theory Spec2Isabelle
  imports CoordinatorStalls B58 RollbackStore
begin

text \<open>
  \<^bold>\<open>Verification of a Stacks 2.0 node\<close> (the Rust sources under \<^verbatim>\<open>src/src\<close>).

  A Stacks node follows a Bitcoin chain. Every Bitcoin block carries operations of the Stacks protocol:
  miners register VRF keys and commit to Stacks blocks, burning bitcoin; users add burns in support of a
  commit. For each burn block the node parses and filters these operations, checks them against the fork
  they extend, distributes the space of 256-bit hashes over the commits in proportion to their burns, and
  draws the winner (a \<^emph>\<open>sortition\<close>). The result is a snapshot, kept in a sortition database that holds
  every fork at once; fork-aware reads go through an authenticated index (the MARF). A coordinator drives
  this from a store of burn blocks and rewinds it when a block that anchors a reward cycle arrives late. Stacks blocks run
  Clarity contracts, whose state lives in a second such index, with transactional contexts on top.

  \<^bold>\<open>Conventions.\<close> Machine integers are words of their width (\<^verbatim>\<open>u8\<close> to \<^verbatim>\<open>u128\<close>), so arithmetic wraps where the
  code's does; the checked operations of the standard library are options. A fallible call has the type
  \<open>('e, 'a) res\<close> of theory \<open>Prelude\<close>: a value, an error of the code's error type, or a panic
  (\<^verbatim>\<open>unwrap\<close>, \<^verbatim>\<open>expect\<close>, \<^verbatim>\<open>assert!\<close>, an index out of range). Objects are records, updated and returned. A
  table of SQLite is the list of its rows, and a query the function it denotes on them. Crates outside the
  repository appear as parameters: the record \<open>externals\<close> holds the digests and the signature check, with
  \<open>digest_sizes\<close> as the documented hypothesis on them; a Merkle root of a trie is a parameter as well.
  Loops whose end the code does not make evident (\<^verbatim>\<open>descended_from\<close>, the anchor election, the invalidation of
  descendants, the loops of the coordinator) are \<^theory_text>\<open>partial_function (option)\<close>, where \<open>None\<close> is a run that never returns; all other
  loops are total functions, with a measure where the recursion is not structural. No fuel is used.

  \<^bold>\<open>Theories, in the order of the code.\<close>

  \<^item> \<open>Prelude\<close>: words, results, checked arithmetic, byte conversion, list lemmas.
  \<^item> \<open>Uint\<close>, \<open>Uint_Arith\<close>: the 256- and 512-bit integers of \<^verbatim>\<open>util/uint.rs\<close>, limb by limb; ring operations, shifts,
    comparison and schoolbook division agree with arithmetic on naturals.
  \<^item> \<open>Script\<close>: Bitcoin scripts (\<^verbatim>\<open>deps/bitcoin/blockdata\<close>): numbers, builder, instruction iterator.
  \<^item> \<open>Addresses\<close>: Bitcoin and Stacks addresses, their version bytes and hashes, signers and outputs.
  \<^item> \<open>Bases\<close>, \<open>C32\<close>, \<open>B58\<close>: the text forms of addresses (\<^verbatim>\<open>address/c32.rs\<close>, \<^verbatim>\<open>address/b58.rs\<close>); the conversions are
    shown to be changes of base of one number.
  \<^item> \<open>BurnOps\<close>: the burn operations and their wire formats (\<^verbatim>\<open>chainstate/burn/operations\<close>).
  \<^item> \<open>Distribution\<close>: the burn distribution of a block (\<^verbatim>\<open>chainstate/burn/distribution.rs\<close>), with closed forms of its
    three stages.
  \<^item> \<open>BurnchainOps\<close>: burnchain parameters, reward cycles, classification of transactions, the per-block filters
    (\<^verbatim>\<open>burnchains/burnchain.rs\<close>, \<^verbatim>\<open>burnchains/mod.rs\<close>).
  \<^item> \<open>Marf\<close>: the forest of tries seen from its transactions (\<^verbatim>\<open>chainstate/stacks/index\<close>), down to the block table.
    Invariant: the height keys describe the real ancestry (\<open>marf_inv\<close>, \<open>reachable_inv\<close>).
  \<^item> \<open>IndexDB\<close>: indexed database transactions (\<^verbatim>\<open>util/db.rs\<close>). The locale \<open>fork_index\<close> is the contract its clients
    use, interpreted on the model as \<open>marf_index\<close>.
  \<^item> \<open>Snapshots\<close>: consensus hashes, PoX identifiers, the sortition hash and the sampling of the winner
    (\<^verbatim>\<open>chainstate/burn/mod.rs\<close>, \<^verbatim>\<open>chainstate/burn/sortition.rs\<close>).
  \<^item> \<open>SortitionDB\<close>, \<open>SortitionForks\<close>: the operations of \<^verbatim>\<open>chainstate/burn/db/sortdb.rs\<close>: appending a snapshot, fork
    queries, reward sets, block arrivals; canonical tips, invalidation, Stacks ancestry, the PoX anchor block,
    header inventories and their cache.
  \<^item> \<open>SortitionInv\<close>, \<open>SortitionQueries\<close>, \<open>Arrivals\<close>, \<open>SortitionProperties\<close>: every reachable database is a forest of
    linked chains (\<open>sort_inv\<close>); each query computes its specification on those chains.
  \<^item> \<open>Sortition\<close>, \<open>OpChecks\<close>, \<open>BlockProcessing\<close>: making the snapshot of a block, the checks of operations, and the
    pipeline from a burn block to an appended snapshot (\<^verbatim>\<open>chainstate/burn/db/processing.rs\<close>, \<^verbatim>\<open>evaluate_sortition\<close>); its
    reachable states are the inductive relation \<open>pipeline\<close>.
  \<^item> \<open>ForkInvalidation\<close>: the walk that invalidates the descendants of a burn block ends, by the multiset order on
    its queue, and marks exactly them.
  \<^item> \<open>BurnchainDB\<close>: the store of burn blocks (\<^verbatim>\<open>burnchains/db.rs\<close>).
  \<^item> \<open>Coordinator\<close>, \<open>CoordinatorProperties\<close>, \<open>CoordinatorStalls\<close>: the chains coordinator (\<^verbatim>\<open>chainstate/coordinator\<close>), its
    handlers returning a result together with the state they leave; the chain state and the reward-set provider are
    fields of \<open>coord_env\<close>, with \<open>chain_state_accepts\<close> as the hypothesis that the former writes to the sortition
    database only by accepting blocks. Its invariant holds under every interleaving with other threads (\<open>coord_reachable\<close>);
    two situations in which it never makes progress.
  \<^item> \<open>Principals\<close>: names, principals and hexadecimal text (\<^verbatim>\<open>vm/types/mod.rs\<close>, \<^verbatim>\<open>vm/representations.rs\<close>).
  \<^item> \<open>BackingStore\<close>: the stores under the Clarity database (\<^verbatim>\<open>vm/database/sqlite.rs\<close>, \<^verbatim>\<open>vm/database/marf.rs\<close>). The locale
    \<open>backing_store\<close> is the contract, interpreted on the store in memory and on the store over the fork index.
  \<^item> \<open>RollbackStore\<close>: nested contexts (\<^verbatim>\<open>vm/database/key_value_wrapper.rs\<close>), refined to a stack of write logs.

  \<^bold>\<open>What is shown.\<close> Numbers C1 to C5: distribution and big integers; C6: wire format; C7 to C10: the index; C11 to C14:
  sampling and identifiers; C15 to C22: the sortition database; C23 and C24: filters and reward cycles; C25 to C27: the
  whole pipeline; C28 to C31: text forms; C32 to C35: the Clarity stores; C36: invalidation; C37: the block store; C38 to C40:
  the coordinator. Several of them state errors of the code (a panic that can be reached, a lock that is ignored, a
  reorganisation that is never followed) on the inputs where they happen.

  \<^bold>\<open>Not modelled.\<close> Radix nodes, back-pointers and Merkle proofs inside a trie (a trie is the map it denotes);
  unconfirmed state; the network stack (\<^verbatim>\<open>net\<close>), download threads, the Bitcoin indexer and SPV client, the RPC server, the
  command line tools and the mining bot, which are concurrent input and output around the modelled core; the
  Clarity interpreter, its parser, type checker and cost accounting; Stacks blocks, transactions and the mempool; of the coordinator, the
  announcements to event observers and the polling waits of its clients. Text is
  that of one-byte characters, and the messages of errors are replaced by their cause.
\<close>

end
